(* ===== verification/Quiche_Prelude.thy ===== *)
theory Quiche_Prelude
  imports Main "HOL-Library.Word" "HOL-Library.Monad_Syntax"
begin

text \<open>
  Shared vocabulary of the development.

  \<^item> \<open>byte\<close> is Rust's \<^verbatim>\<open>u8\<close>; \<open>u64\<close> and \<open>usize\<close> are natural numbers, and an
    operation of the source that can leave the range \<open>0 \<dots> 2 ^ 64 - 1\<close> says so in its
    definition (a subtraction below zero or an addition past the top is a panic).
  \<^item> \<open>('e, 'a) res\<close> is Rust's \<^verbatim>\<open>Result\<close> extended with \<open>Panic\<close>, the outcome of a failed
    assertion, an out-of-range index, an \<^verbatim>\<open>unwrap\<close> of \<^verbatim>\<open>None\<close> or an arithmetic
    overflow with overflow checks on.  An operation that cannot return an error but can
    panic has an option result, with \<open>None\<close> for the panic.
  \<^item> \<open>error\<close> is \<^verbatim>\<open>quiche::Error\<close> (\<^verbatim>\<open>quiche/src/lib.rs\<close>).
  \<^item> \<open>seg\<close> and \<open>overwrite\<close> are the two ways the code touches byte buffers: reading
    \<^verbatim>\<open>&buf[i..i + n]\<close> and overwriting a run of bytes in place.
\<close>

type_synonym byte = "8 word"
type_synonym u64 = nat
type_synonym usize = nat

abbreviation u64_max :: nat where "u64_max \<equiv> 2 ^ 64 - 1"
abbreviation usize_max :: nat where "usize_max \<equiv> 2 ^ 64 - 1"

named_theorems panic_free \<open>operations that do not panic under the component's invariant\<close>
named_theorems keeps_inv \<open>operations keep the component's invariant\<close>

subsection \<open>Results\<close>

datatype ('e, 'a) res = Ok 'a | Err 'e | Panic

fun and_then :: "('e, 'a) res \<Rightarrow> ('a \<Rightarrow> ('e, 'b) res) \<Rightarrow> ('e, 'b) res" where
  "and_then (Ok x) f = f x"
| "and_then (Err e) f = Err e"
| "and_then Panic f = Panic"

fun map_err :: "('e \<Rightarrow> 'f) \<Rightarrow> ('e, 'a) res \<Rightarrow> ('f, 'a) res" where
  "map_err g (Ok x) = Ok x"
| "map_err g (Err e) = Err (g e)"
| "map_err g Panic = Panic"

fun is_ok :: "('e, 'a) res \<Rightarrow> bool" where
  "is_ok (Ok x) = True"
| "is_ok (Err e) = False"
| "is_ok Panic = False"

fun or_panic :: "'a option \<Rightarrow> ('e, 'a) res" where
  "or_panic (Some x) = Ok x"
| "or_panic None = Panic"

datatype error =
    Done
  | BufferTooShort
  | UnknownVersion
  | InvalidFrame
  | InvalidPacket
  | InvalidState
  | InvalidStreamState u64
  | InvalidTransportParam
  | CryptoFail
  | TlsFail
  | FlowControl
  | StreamLimit
  | StreamStopped u64
  | StreamReset u64
  | FinalSize
  | CongestionControl
  | FECScheduler
  | IdLimit
  | OutOfIdentifiers
  | KeyUpdate
  | CryptoBufferExceeded
  | FECDecoderError u64
  | FECEncoderError u64
  | BadSymbolID
  | SourceSymbolCreationError

lemma and_then_eq_Ok:
  "and_then m f = Ok y \<longleftrightarrow> (\<exists>x. m = Ok x \<and> f x = Ok y)"
  by (cases m) auto

lemma and_then_assoc: "and_then (and_then m f) g = and_then m (\<lambda>x. and_then (f x) g)"
  by (cases m) auto

lemma map_err_and_then:
  "map_err h (and_then m f) = and_then (map_err h m) (\<lambda>x. map_err h (f x))"
  by (cases m) auto

subsection \<open>Unsigned arithmetic with overflow checks\<close>

definition u64_add :: "u64 \<Rightarrow> u64 \<Rightarrow> u64 option" where
  "u64_add a b = (if a + b \<le> u64_max then Some (a + b) else None)"

definition u64_sub :: "u64 \<Rightarrow> u64 \<Rightarrow> u64 option" where
  "u64_sub a b = (if b \<le> a then Some (a - b) else None)"

definition u64_mul :: "u64 \<Rightarrow> u64 \<Rightarrow> u64 option" where
  "u64_mul a b = (if a * b \<le> u64_max then Some (a * b) else None)"

definition saturating_add :: "u64 \<Rightarrow> u64 \<Rightarrow> u64" where
  "saturating_add a b = min (a + b) u64_max"

lemma u64_add_Some [simp]: "a + b \<le> u64_max \<Longrightarrow> u64_add a b = Some (a + b)"
  by (simp add: u64_add_def)

lemma u64_sub_Some [simp]: "b \<le> a \<Longrightarrow> u64_sub a b = Some (a - b)"
  by (simp add: u64_sub_def)

subsection \<open>Runs of bytes inside a buffer\<close>

definition seg :: "nat \<Rightarrow> nat \<Rightarrow> 'a list \<Rightarrow> 'a list" where
  "seg i n xs = take n (drop i xs)"

definition overwrite :: "nat \<Rightarrow> 'a list \<Rightarrow> 'a list \<Rightarrow> 'a list" where
  "overwrite i ys xs = take i xs @ ys @ drop (i + length ys) xs"

lemma length_seg [simp]: "length (seg i n xs) = min n (length xs - i)"
  by (simp add: seg_def)

lemma seg_0 [simp]: "seg i 0 xs = []"
  by (simp add: seg_def)

lemma nth_seg: "k < n \<Longrightarrow> i + k < length xs \<Longrightarrow> seg i n xs ! k = xs ! (i + k)"
  by (simp add: seg_def)

lemma seg_append_seg:
  "seg i m xs @ seg (i + m) n xs = seg i (m + n) xs"
  by (simp add: seg_def take_add add.commute)

lemma seg_seg: "k + n \<le> m \<Longrightarrow> seg k n (seg i m xs) = seg (i + k) n xs"
  by (simp add: seg_def drop_take add.commute)

lemma take_seg: "take k (seg i n xs) = seg i (min k n) xs"
  by (simp add: seg_def)

lemma drop_seg: "drop k (seg i n xs) = seg (i + k) (n - k) xs"
  by (simp add: seg_def drop_take add.commute)

lemma seg_prefix: "i + n \<le> length xs \<Longrightarrow> seg i n (xs @ ys) = seg i n xs"
  by (simp add: seg_def)

lemma length_overwrite [simp]:
  "i + length ys \<le> length xs \<Longrightarrow> length (overwrite i ys xs) = length xs"
  by (simp add: overwrite_def)

lemma overwrite_overwrite:
  assumes "i + length ys + length zs \<le> length xs"
  shows "overwrite (i + length ys) zs (overwrite i ys xs) = overwrite i (ys @ zs) xs"
proof -
  have "length (take i xs) = i" using assms by simp
  then show ?thesis using assms by (simp add: overwrite_def add.assoc add.commute add.left_commute)
qed

lemma drop_overwrite:
  "i \<le> length xs \<Longrightarrow> drop i (overwrite i ys xs) = ys @ drop (i + length ys) xs"
  by (simp add: overwrite_def)

lemma overwrite_Nil [simp]: "overwrite i [] xs = xs"
  by (simp add: overwrite_def)

end
