(* ===== verification/Octets.thy ===== *)
theory Octets
  imports Quiche_Prelude
begin

text \<open>
  The byte cursor of \<^verbatim>\<open>octets/src/lib.rs\<close>.

  \<^verbatim>\<open>Octets\<close> and \<^verbatim>\<open>OctetsMut\<close> are the same pair of a buffer and an offset, one borrowed
  immutably and one mutably; both are the record \<open>octets\<close>, a read returns the value with
  the advanced cursor and a write returns the cursor over the changed buffer.  The
  library has one error value, \<open>BufferTooShortError\<close>.  The fields are private and every
  constructor starts at offset 0, so the offset never passes the end of the buffer:
  \<open>octets_ok\<close> is that invariant, and under it the subtraction in \<open>cap\<close> is exact.

  The interfaces the frame and header codecs rely on are the locales \<open>reader\<close>,
  \<open>writer\<close> and \<open>wire_format\<close>: what a \<^verbatim>\<open>get_\<close> function returns in front of an encoding,
  what a \<^verbatim>\<open>put_\<close> function writes, and the round trip that follows.
\<close>

unbundle bit_operations_syntax

datatype octets_error = BufferTooShortError

record octets =
  o_buf :: "byte list"
  o_off :: usize

definition with_slice :: "byte list \<Rightarrow> octets" where
  "with_slice bs = \<lparr>o_buf = bs, o_off = 0\<rparr>"

definition octets_ok :: "octets \<Rightarrow> bool" where
  "octets_ok b \<longleftrightarrow> o_off b \<le> length (o_buf b)"

definition cap :: "octets \<Rightarrow> usize" where
  "cap b = length (o_buf b) - o_off b"

definition as_ref :: "octets \<Rightarrow> byte list" where
  "as_ref b = drop (o_off b) (o_buf b)"

subsection \<open>Network byte order\<close>

primrec be_bytes :: "nat \<Rightarrow> nat \<Rightarrow> byte list" where
  "be_bytes 0 v = []"
| "be_bytes (Suc n) v = be_bytes n (v div 256) @ [word_of_nat v]"

definition be_val :: "byte list \<Rightarrow> nat" where
  "be_val bs = foldl (\<lambda>a x. a * 256 + unat x) 0 bs"

subsection \<open>Reading\<close>

definition peek_u :: "nat \<Rightarrow> octets \<Rightarrow> (octets_error, nat) res" where
  "peek_u len b =
     (let src = as_ref b
      in if length src < len then Err BufferTooShortError
         else Ok (be_val (take len src)))"

definition get_u :: "nat \<Rightarrow> octets \<Rightarrow> (octets_error, nat \<times> octets) res" where
  "get_u len b =
     and_then (peek_u len b) (\<lambda>out. Ok (out, b\<lparr>o_off := o_off b + len\<rparr>))"

definition peek_u8 :: "octets \<Rightarrow> (octets_error, nat) res" where
  "peek_u8 b = peek_u 1 b"

definition get_u8 :: "octets \<Rightarrow> (octets_error, nat \<times> octets) res" where
  "get_u8 b = get_u 1 b"

definition get_u16 :: "octets \<Rightarrow> (octets_error, nat \<times> octets) res" where
  "get_u16 b = get_u 2 b"

definition get_u24 :: "octets \<Rightarrow> (octets_error, nat \<times> octets) res" where
  "get_u24 b = get_u 3 b"

definition get_u32 :: "octets \<Rightarrow> (octets_error, nat \<times> octets) res" where
  "get_u32 b = get_u 4 b"

definition get_u64 :: "octets \<Rightarrow> (octets_error, nat \<times> octets) res" where
  "get_u64 b = get_u 8 b"

definition varint_parse_len :: "nat \<Rightarrow> usize option" where
  "varint_parse_len first =
     (let t = drop_bit 6 first
      in if t = 0 then Some 1 else if t = 1 then Some 2 else if t = 2 then Some 4
         else if t = 3 then Some 8 else None)"

definition get_varint :: "octets \<Rightarrow> (octets_error, u64 \<times> octets) res" where
  "get_varint b =
     and_then (peek_u8 b) (\<lambda>first.
     and_then (or_panic (varint_parse_len first)) (\<lambda>len.
       if len > cap b then Err BufferTooShortError
       else if len = 1 then get_u8 b
       else if len = 2 then and_then (get_u16 b) (\<lambda>(v, b). Ok (v AND 0x3fff, b))
       else if len = 4 then and_then (get_u32 b) (\<lambda>(v, b). Ok (v AND 0x3fffffff, b))
       else if len = 8 then
         and_then (get_u64 b) (\<lambda>(v, b). Ok (v AND 0x3fffffffffffffff, b))
       else Panic))"

definition peek_bytes :: "usize \<Rightarrow> octets \<Rightarrow> (octets_error, octets) res" where
  "peek_bytes len b =
     (if cap b < len then Err BufferTooShortError
      else Ok \<lparr>o_buf = seg (o_off b) len (o_buf b), o_off = 0\<rparr>)"

definition get_bytes :: "usize \<Rightarrow> octets \<Rightarrow> (octets_error, octets \<times> octets) res" where
  "get_bytes len b =
     (if cap b < len then Err BufferTooShortError
      else Ok (\<lparr>o_buf = seg (o_off b) len (o_buf b), o_off = 0\<rparr>,
               b\<lparr>o_off := o_off b + len\<rparr>))"

definition get_bytes_with_u8_length :: "octets \<Rightarrow> (octets_error, octets \<times> octets) res" where
  "get_bytes_with_u8_length b = and_then (get_u8 b) (\<lambda>(len, b). get_bytes len b)"

definition get_bytes_with_u16_length :: "octets \<Rightarrow> (octets_error, octets \<times> octets) res" where
  "get_bytes_with_u16_length b = and_then (get_u16 b) (\<lambda>(len, b). get_bytes len b)"

definition get_bytes_with_varint_length :: "octets \<Rightarrow> (octets_error, octets \<times> octets) res" where
  "get_bytes_with_varint_length b = and_then (get_varint b) (\<lambda>(len, b). get_bytes len b)"

definition slice_at :: "usize \<Rightarrow> octets \<Rightarrow> (octets_error, byte list) res" where
  "slice_at len b =
     (if len > cap b then Err BufferTooShortError
      else Ok (seg (o_off b) len (o_buf b)))"

definition slice_last :: "usize \<Rightarrow> octets \<Rightarrow> (octets_error, byte list) res" where
  "slice_last len b =
     (if len > cap b then Err BufferTooShortError
      else Ok (drop (cap b - len) (o_buf b)))"

definition skip :: "usize \<Rightarrow> octets \<Rightarrow> (octets_error, octets) res" where
  "skip n b =
     (if n > cap b then Err BufferTooShortError else Ok (b\<lparr>o_off := o_off b + n\<rparr>))"

definition to_vec :: "octets \<Rightarrow> byte list" where
  "to_vec b = as_ref b"

definition split_at :: "usize \<Rightarrow> octets \<Rightarrow> (octets_error, octets \<times> octets) res" where
  "split_at n b =
     (if length (o_buf b) < n then Err BufferTooShortError
      else Ok (with_slice (take n (o_buf b)), with_slice (drop n (o_buf b))))"

subsection \<open>Writing\<close>

definition put_u :: "nat \<Rightarrow> nat \<Rightarrow> octets \<Rightarrow> (octets_error, octets) res" where
  "put_u len v b =
     (if length (o_buf b) < o_off b + len then Err BufferTooShortError
      else Ok (b\<lparr>o_buf := overwrite (o_off b) (be_bytes len v) (o_buf b),
                 o_off := o_off b + len\<rparr>))"

definition put_u8 :: "nat \<Rightarrow> octets \<Rightarrow> (octets_error, octets) res" where
  "put_u8 v b = put_u 1 (v mod 2 ^ 8) b"

definition put_u16 :: "nat \<Rightarrow> octets \<Rightarrow> (octets_error, octets) res" where
  "put_u16 v b = put_u 2 (v mod 2 ^ 16) b"

definition put_u24 :: "nat \<Rightarrow> octets \<Rightarrow> (octets_error, octets) res" where
  "put_u24 v b = put_u 3 (v mod 2 ^ 32) b"

definition put_u32 :: "nat \<Rightarrow> octets \<Rightarrow> (octets_error, octets) res" where
  "put_u32 v b = put_u 4 (v mod 2 ^ 32) b"

definition put_u64 :: "nat \<Rightarrow> octets \<Rightarrow> (octets_error, octets) res" where
  "put_u64 v b = put_u 8 (v mod 2 ^ 64) b"

definition or_byte :: "usize \<Rightarrow> byte \<Rightarrow> octets \<Rightarrow> octets" where
  "or_byte i m b = b\<lparr>o_buf := (o_buf b)[i := (o_buf b ! i) OR m]\<rparr>"

definition varint_len :: "u64 \<Rightarrow> usize option" where
  "varint_len v =
     (if v \<le> 63 then Some 1 else if v \<le> 16383 then Some 2
      else if v \<le> 1073741823 then Some 4
      else if v \<le> 4611686018427387903 then Some 8 else None)"

definition put_varint_with_len :: "u64 \<Rightarrow> usize \<Rightarrow> octets \<Rightarrow> (octets_error, octets) res" where
  "put_varint_with_len v len b =
     (if cap b < len then Err BufferTooShortError
      else if len = 1 then put_u8 v b
      else if len = 2 then and_then (put_u16 v b) (\<lambda>b'. Ok (or_byte (o_off b) 0x40 b'))
      else if len = 4 then and_then (put_u32 v b) (\<lambda>b'. Ok (or_byte (o_off b) 0x80 b'))
      else if len = 8 then and_then (put_u64 v b) (\<lambda>b'. Ok (or_byte (o_off b) 0xc0 b'))
      else Panic)"

definition put_varint :: "u64 \<Rightarrow> octets \<Rightarrow> (octets_error, octets) res" where
  "put_varint v b = and_then (or_panic (varint_len v)) (\<lambda>n. put_varint_with_len v n b)"

definition put_bytes :: "byte list \<Rightarrow> octets \<Rightarrow> (octets_error, octets) res" where
  "put_bytes v b =
     (if cap b < length v then Err BufferTooShortError
      else if length v = 0 then Ok b
      else Ok (b\<lparr>o_buf := overwrite (o_off b) v (o_buf b), o_off := o_off b + length v\<rparr>))"

subsection \<open>Interfaces\<close>

text \<open>
  The specification vocabulary: moving the cursor, writing a run of bytes at the cursor,
  and the encodings of integers.
\<close>

definition advance :: "nat \<Rightarrow> octets \<Rightarrow> octets" where
  "advance n b = b\<lparr>o_off := o_off b + n\<rparr>"

definition write_bytes :: "byte list \<Rightarrow> octets \<Rightarrow> (octets_error, octets) res" where
  "write_bytes bs b =
     (if length bs \<le> cap b
      then Ok (b\<lparr>o_buf := overwrite (o_off b) bs (o_buf b), o_off := o_off b + length bs\<rparr>)
      else Err BufferTooShortError)"

definition varint_tag :: "nat \<Rightarrow> nat" where
  "varint_tag n = (if n = 1 then 0 else if n = 2 then 1 else if n = 4 then 2 else 3)"

definition varint_bytes :: "usize \<Rightarrow> u64 \<Rightarrow> byte list" where
  "varint_bytes n v = be_bytes n (v + varint_tag n * (64 * 256 ^ (n - 1)))"

definition enc_varint :: "u64 \<Rightarrow> byte list" where
  "enc_varint v = (case varint_len v of Some n \<Rightarrow> varint_bytes n v | None \<Rightarrow> [])"

definition is_varint :: "u64 \<Rightarrow> bool" where
  "is_varint v \<longleftrightarrow> v < 2 ^ 62"

locale reader =
  fixes enc :: "'a \<Rightarrow> byte list"
    and dec :: "octets \<Rightarrow> ('e, 'a \<times> octets) res"
    and valid :: "'a \<Rightarrow> bool"
  assumes dec_enc:
    "valid x \<Longrightarrow> as_ref b = enc x @ rest \<Longrightarrow> dec b = Ok (x, advance (length (enc x)) b)"

locale writer =
  fixes enc :: "'a \<Rightarrow> byte list"
    and put :: "'a \<Rightarrow> octets \<Rightarrow> (octets_error, octets) res"
    and valid :: "'a \<Rightarrow> bool"
  assumes put_enc: "octets_ok b \<Longrightarrow> valid x \<Longrightarrow> put x b = write_bytes (enc x) b"

locale wire_format = reader enc dec valid + writer enc put valid
  for enc :: "'a \<Rightarrow> byte list"
    and dec :: "octets \<Rightarrow> ('e, 'a \<times> octets) res"
    and put :: "'a \<Rightarrow> octets \<Rightarrow> (octets_error, octets) res"
    and valid :: "'a \<Rightarrow> bool"
begin

lemma put_then_get:
  assumes b: "octets_ok b" and x: "valid x" and room: "length (enc x) \<le> cap b"
  shows "\<exists>b'. put x b = Ok b' \<and> octets_ok b' \<and> o_off b' = o_off b + length (enc x)
           \<and> dec (b'\<lparr>o_off := o_off b\<rparr>) = Ok (x, b')"
proof -
  let ?b' = "b\<lparr>o_buf := overwrite (o_off b) (enc x) (o_buf b),
               o_off := o_off b + length (enc x)\<rparr>"
  have fits: "o_off b + length (enc x) \<le> length (o_buf b)"
    using b room by (simp add: octets_ok_def cap_def)
  have "as_ref (?b'\<lparr>o_off := o_off b\<rparr>)
          = enc x @ drop (o_off b + length (enc x)) (o_buf b)"
    using fits by (simp add: as_ref_def drop_overwrite)
  from dec_enc [OF x this] have "dec (?b'\<lparr>o_off := o_off b\<rparr>) = Ok (x, ?b')"
    by (simp add: advance_def)
  moreover have "put x b = Ok ?b'"
    using put_enc [OF b x] room by (simp add: write_bytes_def)
  moreover have "octets_ok ?b'" using fits by (simp add: octets_ok_def)
  ultimately show ?thesis by auto
qed

lemma put_too_short:
  "octets_ok b \<Longrightarrow> valid x \<Longrightarrow> cap b < length (enc x) \<Longrightarrow> put x b = Err BufferTooShortError"
  by (simp add: put_enc write_bytes_def)

end

subsection \<open>Byte order\<close>

lemma length_be_bytes [simp]: "length (be_bytes n v) = n"
  by (induction n arbitrary: v) auto

lemma be_val_Nil [simp]: "be_val [] = 0"
  by (simp add: be_val_def)

lemma be_val_snoc [simp]: "be_val (bs @ [x]) = be_val bs * 256 + unat x"
  by (simp add: be_val_def)

lemma unat_word_of_nat_byte: "unat (word_of_nat v :: byte) = v mod 256"
  by (simp add: unat_of_nat)

lemma be_val_be_bytes: "be_val (be_bytes n v) = v mod 256 ^ n"
proof (induction n arbitrary: v)
  case 0
  then show ?case by simp
next
  case (Suc n)
  have "v div 256 mod 256 ^ n * 256 + v mod 256 = v mod (256 * 256 ^ n)"
    by (simp add: mod_mult2_eq mult.commute)
  then show ?case by (simp add: Suc unat_word_of_nat_byte)
qed

lemma unat_byte_less: "unat (x :: byte) < 256"
  by (rule order_less_le_trans [OF unsigned_less]) simp

lemma be_val_less: "be_val bs < 256 ^ length bs"
proof (induction bs rule: rev_induct)
  case Nil
  then show ?case by simp
next
  case (snoc x bs)
  with unat_byte_less [of x] show ?case by simp
qed

lemma be_bytes_mod: "n \<le> k \<Longrightarrow> be_bytes n (v mod 256 ^ k) = be_bytes n v"
proof (induction n arbitrary: v k)
  case 0
  then show ?case by simp
next
  case (Suc n)
  then obtain k' where k: "k = Suc k'" and "n \<le> k'" by (cases k) auto
  have "v mod 256 ^ k div 256 = v div 256 mod 256 ^ k'"
    using k by (simp add: mod_mult2_eq)
  moreover have "(word_of_nat (v mod 256 ^ k) :: byte) = word_of_nat v"
  proof -
    have "v mod 256 ^ k mod 256 = v mod 256"
      using k by (simp add: mod_mod_cancel)
    then show ?thesis by (simp add: word_of_nat_eq_iff take_bit_eq_mod)
  qed
  ultimately show ?case using Suc.IH [OF \<open>n \<le> k'\<close>, of "v div 256"] by simp
qed

declare be_bytes.simps(2) [simp del]

lemma be_bytes_Cons: "be_bytes (Suc n) v = word_of_nat (v div 256 ^ n) # be_bytes n v"
proof (induction n arbitrary: v)
  case 0
  then show ?case by (simp add: be_bytes.simps(2))
next
  case (Suc n)
  show ?case
    by (subst be_bytes.simps(2), subst Suc) (simp add: div_mult2_eq be_bytes.simps(2))
qed

lemma bit_byte_low: "n < 64 \<Longrightarrow> bit (n :: nat) k \<Longrightarrow> k < 6"
  using bit_take_bit_iff [of 6 n k] by (simp add: take_bit_nat_eq_self)

lemma bit_byte_high: "bit (64 * t :: nat) k \<Longrightarrow> 6 \<le> k"
  using bit_push_bit_iff [of 6 t k] by (simp add: push_bit_eq_mult mult.commute)

lemma byte_or_tag:
  assumes "n < 64"
  shows "(word_of_nat n :: byte) OR word_of_nat (64 * t) = word_of_nat (n + 64 * t)"
proof -
  have "(word_of_nat n :: byte) AND word_of_nat (64 * t) = 0"
  proof (rule bit_eqI)
    fix k
    show "bit ((word_of_nat n :: byte) AND word_of_nat (64 * t)) k = bit 0 k"
      using bit_byte_low [OF assms, of k] bit_byte_high [of t k]
      by (auto simp: bit_and_iff bit_of_nat_iff simp del: of_nat_mult)
  qed
  then show ?thesis by (simp add: disjunctive_add_eq_or [symmetric] del: of_nat_mult)
qed

lemma length_varint_bytes [simp]: "length (varint_bytes n v) = n"
  by (simp add: varint_bytes_def)

subsection \<open>Writing and reading integers\<close>

lemma or_byte_be_bytes:
  assumes "0 < n" and "v < 64 * 256 ^ (n - 1)" and "i + n \<le> length xs"
  shows "(overwrite i (be_bytes n v) xs)
           [i := overwrite i (be_bytes n v) xs ! i OR word_of_nat (64 * t)]
       = overwrite i (be_bytes n (v + t * (64 * 256 ^ (n - 1)))) xs"
proof -
  obtain m where n: "n = Suc m" using assms(1) by (cases n) auto
  have hd: "v div 256 ^ m < 64" using assms(2) n by (simp add: less_mult_imp_div_less)
  have eq: "v + t * (64 * 256 ^ m) = v + (64 * t) * 256 ^ m" by simp
  have q: "(v + t * (64 * 256 ^ m)) div 256 ^ m = v div 256 ^ m + 64 * t"
    unfolding eq by (subst div_mult_self1) auto
  have "(v + t * (64 * 256 ^ m)) mod 256 ^ m = v mod 256 ^ m"
    unfolding eq by simp
  then have tl: "be_bytes m (v + t * (64 * 256 ^ m)) = be_bytes m v"
    by (metis be_bytes_mod order_refl)
  have "length (take i xs) = i" using assms(3) by simp
  then show ?thesis
    unfolding n diff_Suc_1 be_bytes_Cons q tl byte_or_tag [OF hd, symmetric] overwrite_def
    by (simp add: list_update_append nth_append del: of_nat_mult)
qed

lemma cap_as_ref: "cap b = length (as_ref b)"
  by (simp add: cap_def as_ref_def)

lemma put_u_write: "octets_ok b \<Longrightarrow> put_u n v b = write_bytes (be_bytes n v) b"
  by (auto simp: put_u_def write_bytes_def octets_ok_def cap_def)

lemma put_bytes_write: "put_bytes v b = write_bytes v b"
  by (auto simp: put_bytes_def write_bytes_def)

lemma get_u_be_bytes:
  "v < 256 ^ n \<Longrightarrow> as_ref b = be_bytes n v @ rest \<Longrightarrow> get_u n b = Ok (v, advance n b)"
  by (simp add: get_u_def peek_u_def be_val_be_bytes advance_def)

lemmas put_uN_defs = put_u8_def put_u16_def put_u24_def put_u32_def put_u64_def
lemmas get_uN_defs = get_u8_def get_u16_def get_u24_def get_u32_def get_u64_def

lemma put_varint_with_len_write:
  assumes b: "octets_ok b" and n: "n = 1 \<or> n = 2 \<or> n = 4 \<or> n = 8" and v: "v < 64 * 256 ^ (n - 1)"
  shows "put_varint_with_len v n b = write_bytes (varint_bytes n v) b"
proof (cases "cap b < n")
  case True
  then show ?thesis by (simp add: put_varint_with_len_def write_bytes_def)
next
  case False
  then have room: "o_off b + n \<le> length (o_buf b)" using b by (auto simp: octets_ok_def cap_def)
  have put: "put_u n v b = Ok (b\<lparr>o_buf := overwrite (o_off b) (be_bytes n v) (o_buf b), o_off := o_off b + n\<rparr>)"
    using room by (simp add: put_u_def)
  have or: "(overwrite (o_off b) (be_bytes n v) (o_buf b))
       [o_off b := overwrite (o_off b) (be_bytes n v) (o_buf b) ! o_off b OR word_of_nat (64 * t)]
       = overwrite (o_off b) (be_bytes n (v + t * (64 * 256 ^ (n - 1)))) (o_buf b)" for t
    by (rule or_byte_be_bytes) (use v room n in auto)
  from False n v put or [of 1] or [of 2] or [of 3] show ?thesis
    by (auto simp: put_varint_with_len_def put_uN_defs or_byte_def write_bytes_def varint_bytes_def
        varint_tag_def)
qed

lemma and_masks:
  "(v :: nat) AND 0x3fff = v mod 2 ^ 14"
  "(v :: nat) AND 0x3fffffff = v mod 2 ^ 30"
  "(v :: nat) AND 0x3fffffffffffffff = v mod 2 ^ 62"
  using take_bit_eq_mask [of 14 v] take_bit_eq_mask [of 30 v] take_bit_eq_mask [of 62 v]
  by (simp_all add: take_bit_eq_mod mask_eq_exp_minus_1)

lemma mod_tags:
  "v < 1073741824 \<Longrightarrow> (v + 2147483648) mod 1073741824 = (v :: nat)"
  "v < 4611686018427387904 \<Longrightarrow>
     (v + 13835058055282163712) mod 4611686018427387904 = (v :: nat)"
  using mod_mult_self1 [of v 2 1073741824] mod_mult_self1 [of v 3 4611686018427387904]
  by simp_all

lemma varint_bytes_Cons:
  assumes "0 < n" and "v < 64 * 256 ^ (n - 1)"
  shows "varint_bytes n v
     = word_of_nat (v div 256 ^ (n - 1) + 64 * varint_tag n) # be_bytes (n - 1) v"
proof -
  obtain m where n: "n = Suc m" using assms(1) by (cases n) auto
  let ?w = "v + varint_tag n * (64 * 256 ^ m)"
  have eq: "?w = v + (64 * varint_tag n) * 256 ^ m" by simp
  have "?w div 256 ^ m = v div 256 ^ m + 64 * varint_tag n"
    unfolding eq by (subst div_mult_self1) auto
  moreover have "be_bytes m ?w = be_bytes m v"
  proof -
    have "?w mod 256 ^ m = v mod 256 ^ m" unfolding eq by simp
    then show ?thesis by (metis be_bytes_mod order_refl)
  qed
  ultimately show ?thesis by (simp add: varint_bytes_def n be_bytes_Cons)
qed

lemma get_varint_varint_bytes:
  assumes n: "n = 1 \<or> n = 2 \<or> n = 4 \<or> n = 8" and v: "v < 64 * 256 ^ (n - 1)"
    and b: "as_ref b = varint_bytes n v @ rest"
  shows "get_varint b = Ok (v, advance n b)"
proof -
  have pos: "0 < n" using n by auto
  have hd: "v div 256 ^ (n - 1) < 64" using v by (simp add: less_mult_imp_div_less)
  have tag: "varint_tag n < 4" by (simp add: varint_tag_def)
  have "peek_u8 b = Ok (v div 256 ^ (n - 1) + 64 * varint_tag n)"
    using hd tag b varint_bytes_Cons [OF pos v]
    by (simp add: peek_u8_def peek_u_def be_val_def unat_word_of_nat_byte
        del: of_nat_add of_nat_mult)
  moreover have "varint_parse_len (v div 256 ^ (n - 1) + 64 * varint_tag n) = Some n"
    using hd n by (auto simp: varint_parse_len_def varint_tag_def drop_bit_eq_div)
  moreover have "\<not> n > cap b"
    using b by (simp add: cap_as_ref)
  moreover have "v + varint_tag n * (64 * 256 ^ (n - 1)) < 256 ^ n"
    using v n by (auto simp: varint_tag_def)
  then have "get_u n b = Ok (v + varint_tag n * (64 * 256 ^ (n - 1)), advance n b)"
    using b by (simp add: get_u_be_bytes varint_bytes_def)
  ultimately show ?thesis
    using n v by (auto simp: get_varint_def get_uN_defs varint_tag_def and_masks mod_tags)
qed

lemma varint_len_cases:
  assumes "is_varint v"
  obtains n where "varint_len v = Some n" and "n = 1 \<or> n = 2 \<or> n = 4 \<or> n = 8"
    and "v < 64 * 256 ^ (n - 1)"
proof (rule that [of "the (varint_len v)"])
qed (use assms in \<open>auto simp: varint_len_def is_varint_def\<close>)

lemma varint_len_None: "varint_len v = None \<longleftrightarrow> \<not> is_varint v"
  by (auto simp: varint_len_def is_varint_def)

lemma length_enc_varint: "varint_len v = Some n \<Longrightarrow> length (enc_varint v) = n"
  by (simp add: enc_varint_def)

subsection \<open>The integer codecs satisfy the interface\<close>

interpretation u8: wire_format "be_bytes 1" get_u8 put_u8 "\<lambda>v. v < 2 ^ 8"
  by unfold_locales (auto simp: get_u8_def put_u8_def put_u_write intro: get_u_be_bytes)

interpretation u16: wire_format "be_bytes 2" get_u16 put_u16 "\<lambda>v. v < 2 ^ 16"
  by unfold_locales (auto simp: get_u16_def put_u16_def put_u_write intro: get_u_be_bytes)

interpretation u24: wire_format "be_bytes 3" get_u24 put_u24 "\<lambda>v. v < 2 ^ 24"
  by unfold_locales (auto simp: get_u24_def put_u24_def put_u_write intro: get_u_be_bytes)

interpretation u32: wire_format "be_bytes 4" get_u32 put_u32 "\<lambda>v. v < 2 ^ 32"
  by unfold_locales (auto simp: get_u32_def put_u32_def put_u_write intro: get_u_be_bytes)

interpretation u64: wire_format "be_bytes 8" get_u64 put_u64 "\<lambda>v. v < 2 ^ 64"
  by unfold_locales (auto simp: get_u64_def put_u64_def put_u_write intro: get_u_be_bytes)

interpretation varint: wire_format enc_varint get_varint put_varint is_varint
proof unfold_locales
  fix v b rest
  assume "is_varint v" and b: "as_ref b = enc_varint v @ rest"
  then obtain n where n: "varint_len v = Some n" "n = 1 \<or> n = 2 \<or> n = 4 \<or> n = 8"
    "v < 64 * 256 ^ (n - 1)" by (blast elim: varint_len_cases)
  from get_varint_varint_bytes [OF n(2,3)] b n(1)
  show "get_varint b = Ok (v, advance (length (enc_varint v)) b)" by (simp add: enc_varint_def)
next
  fix b v
  assume "octets_ok b" and "is_varint v"
  then obtain n where n: "varint_len v = Some n" "n = 1 \<or> n = 2 \<or> n = 4 \<or> n = 8"
    "v < 64 * 256 ^ (n - 1)" by (blast elim: varint_len_cases)
  from put_varint_with_len_write [OF \<open>octets_ok b\<close> n(2,3)] n(1)
  show "put_varint v b = write_bytes (enc_varint v) b"
    by (simp add: put_varint_def enc_varint_def)
qed

subsection \<open>Runs of writes and reads\<close>

lemma octets_ok_with_slice [simp]: "octets_ok (with_slice bs)"
  by (simp add: octets_ok_def with_slice_def)

lemma as_ref_with_slice [simp]: "as_ref (with_slice bs) = bs"
  by (simp add: as_ref_def with_slice_def)

lemma as_ref_advance [simp]: "as_ref (advance n b) = drop n (as_ref b)"
  by (simp add: as_ref_def advance_def add.commute)

lemma advance_advance [simp]: "advance m (advance n b) = advance (n + m) b"
  by (simp add: advance_def add.assoc)

lemma advance_0 [simp]: "advance 0 b = b"
  by (simp add: advance_def)

lemma octets_ok_write:
  "octets_ok b \<Longrightarrow> write_bytes bs b = Ok b' \<Longrightarrow> octets_ok b'"
  by (auto simp: write_bytes_def octets_ok_def cap_def split: if_splits)

lemma write_bytes_append:
  assumes "octets_ok b"
  shows "and_then (write_bytes xs b) (write_bytes ys) = write_bytes (xs @ ys) b"
proof (cases "length xs \<le> cap b")
  case True
  then have fits: "o_off b + length xs \<le> length (o_buf b)"
    using assms by (auto simp: octets_ok_def cap_def)
  let ?b = "b\<lparr>o_buf := overwrite (o_off b) xs (o_buf b), o_off := o_off b + length xs\<rparr>"
  have "cap ?b = cap b - length xs" using fits by (simp add: cap_def)
  with True fits show ?thesis
    by (auto simp: write_bytes_def cap_def overwrite_overwrite)
next
  case False
  then show ?thesis by (simp add: write_bytes_def)
qed

lemma write_bytes_Nil [simp]: "write_bytes [] b = Ok b"
  by (simp add: write_bytes_def)

lemma get_bytes_append:
  "as_ref b = xs @ rest \<Longrightarrow> length xs = n \<Longrightarrow> get_bytes n b = Ok (with_slice xs, advance n b)"
  by (auto simp: get_bytes_def cap_as_ref seg_def with_slice_def advance_def as_ref_def)

lemma get_bytes_cases:
  "get_bytes n b = (if n \<le> length (as_ref b)
     then Ok (with_slice (take n (as_ref b)), advance n b) else Err BufferTooShortError)"
  by (auto simp: get_bytes_def cap_as_ref seg_def with_slice_def advance_def as_ref_def)

lemma get_u_cases:
  "get_u n b = (if n \<le> length (as_ref b)
     then Ok (be_val (take n (as_ref b)), advance n b) else Err BufferTooShortError)"
  by (auto simp: get_u_def peek_u_def advance_def)

lemma octets_ok_advance: "octets_ok b \<Longrightarrow> n \<le> length (as_ref b) \<Longrightarrow> octets_ok (advance n b)"
  by (auto simp: octets_ok_def advance_def as_ref_def)

text \<open>The parse length of a first byte is always one of the four encodings.\<close>

lemma varint_parse_len_byte:
  assumes "x < 256"
  shows "\<exists>n. varint_parse_len x = Some n \<and> (n = 1 \<and> x < 64 \<or> n = 2 \<or> n = 4 \<or> n = 8)"
proof -
  have "drop_bit 6 x < 4" using assms by (simp add: drop_bit_eq_div)
  moreover have "drop_bit 6 x = 0 \<Longrightarrow> x < 64" by (simp add: drop_bit_eq_div)
  ultimately show ?thesis by (auto simp: varint_parse_len_def Let_def)
qed

lemma get_varint_result:
  assumes "0 < length (as_ref b)"
  shows "get_varint b = Err BufferTooShortError
       \<or> (\<exists>v n. get_varint b = Ok (v, advance n b) \<and> is_varint v \<and> 0 < n
                \<and> n \<le> length (as_ref b))"
proof -
  let ?x = "be_val (take 1 (as_ref b))"
  have "length (take 1 (as_ref b)) = 1" using assms by (cases "as_ref b") auto
  then have x: "?x < 256" using be_val_less [of "take 1 (as_ref b)"] by simp
  obtain n where n: "varint_parse_len ?x = Some n"
      "n = 1 \<and> ?x < 64 \<or> n = 2 \<or> n = 4 \<or> n = 8"
    using varint_parse_len_byte [OF x] by blast
  have peek: "peek_u8 b = Ok ?x" using assms by (simp add: peek_u8_def peek_u_def)
  show ?thesis
  proof (cases "n \<le> length (as_ref b)")
    case True
    define w where "w = (if n = 1 then ?x else be_val (take n (as_ref b)) mod 2 ^ (8 * n - 2))"
    have "get_varint b = Ok (w, advance n b)"
      using n peek True unfolding w_def
      by (elim disjE conjE) (simp_all add: get_varint_def cap_as_ref get_uN_defs get_u_cases and_masks
          Suc_le_eq)
    moreover have "is_varint w" using n unfolding w_def is_varint_def
      by (elim disjE conjE) (simp_all add: less_trans [OF mod_less_divisor])
    moreover have "0 < n" using n by auto
    ultimately show ?thesis using True by blast
  next
    case False
    with n peek show ?thesis by (simp add: get_varint_def cap_as_ref)
  qed
qed

subsection \<open>Properties\<close>

text \<open>
  C32: a variable-length integer below \<open>2 ^ 62\<close> written at the cursor is read back from the same
  place, and reading leaves the cursor exactly where writing left it.
\<close>

theorem varint_round_trip:
  assumes "octets_ok b" and "v < 2 ^ 62" and "varint_len v = Some n" and "n \<le> cap b"
  shows "\<exists>b'. put_varint v b = Ok b' \<and> o_off b' = o_off b + n
           \<and> get_varint (b'\<lparr>o_off := o_off b\<rparr>) = Ok (v, b')"
  using varint.put_then_get [of b v] assms length_enc_varint [OF assms(3)]
  by (auto simp: is_varint_def)

theorem varint_round_trip_witness:
  "\<exists>b'. put_varint 15293 (with_slice [0, 0, 0]) = Ok b' \<and> o_off b' = 2
      \<and> get_varint (b'\<lparr>o_off := 0\<rparr>) = Ok (15293, b')"
  using varint_round_trip [of "with_slice [0, 0, 0]" 15293 2]
  by (simp add: varint_len_def cap_def with_slice_def octets_ok_def flip: numeral_2_eq_2)

text \<open>
  C33: reading a variable-length integer from any input ends with a value below \<open>2 ^ 62\<close> and
  a cursor that moved by one to eight bytes inside the buffer, or with the buffer-too-short
  error; it never panics.
\<close>

theorem get_varint_total:
  assumes "octets_ok b"
  shows "get_varint b = Err BufferTooShortError
       \<or> (\<exists>v n. get_varint b = Ok (v, b\<lparr>o_off := o_off b + n\<rparr>) \<and> v < 2 ^ 62 \<and> 0 < n
                \<and> o_off b + n \<le> length (o_buf b))"
proof (cases "0 < length (as_ref b)")
  case True
  have "n \<le> length (as_ref b) \<Longrightarrow> o_off b + n \<le> length (o_buf b)" for n
    using assms by (auto simp: as_ref_def octets_ok_def)
  then show ?thesis
    using get_varint_result [OF True] unfolding advance_def is_varint_def by blast
next
  case False
  then show ?thesis by (simp add: get_varint_def peek_u8_def peek_u_def)
qed

theorem get_varint_total_witness:
  "get_varint (with_slice [0xc0]) = Err BufferTooShortError
   \<or> (\<exists>v n. get_varint (with_slice [0xc0]) = Ok (v, (with_slice [0xc0])\<lparr>o_off := 0 + n\<rparr>)
            \<and> v < 2 ^ 62 \<and> 0 < n \<and> 0 + n \<le> (1 :: nat))"
  using get_varint_total [of "with_slice [0xc0]"] by (simp add: with_slice_def octets_ok_def)

text \<open>
  C34: \<^verbatim>\<open>slice_last(len)\<close> returns the last \<open>len\<close> bytes only while nothing has been consumed: it
  returns as many bytes too many as the cursor has already passed.
\<close>

theorem slice_last_length:
  assumes "octets_ok b" and "slice_last len b = Ok xs"
  shows "length xs = len + o_off b \<and> xs = drop (length (o_buf b) - length xs) (o_buf b)"
  using assms by (auto simp: slice_last_def octets_ok_def cap_def split: if_splits)

theorem slice_last_length_witness:
  "slice_last 1 \<lparr>o_buf = [7, 8, 9], o_off = 1\<rparr> = Ok [8, 9] \<and> length [8, 9 :: byte] = 1 + 1"
  using slice_last_length [of "\<lparr>o_buf = [7, 8, 9], o_off = 1\<rparr>" 1 "[8, 9]"]
  by (simp add: slice_last_def octets_ok_def cap_def)

end
