(* ===== verification/Codec.thy ===== *)
theory Codec
  imports Octets
begin

text \<open>
  How the frame and header codecs use the byte cursor.

  \<^item> \<open>q\<close> is the \<^verbatim>\<open>?\<close> operator on an octets result: the cursor's error becomes
    \<^verbatim>\<open>Error::BufferTooShort\<close>.
  \<^item> \<open>put_seq\<close> is a run of statements \<^verbatim>\<open>b.put_...(...)?;\<close>; \<open>writes p bs\<close> says that one such
    statement writes the bytes \<open>bs\<close>.
  \<^item> \<open>take_varint\<close>, \<open>take_u8\<close>, \<open>take_bytes\<close> and \<open>take_bytes_varint\<close> are \<^verbatim>\<open>let x = b.get_...()?;\<close>
    followed by the rest of the function.
  \<^item> \<open>cur pre rest\<close> is the cursor with \<open>rest\<close> ahead of it: reading an encoding at the front of
    \<open>rest\<close> moves it over to \<open>pre\<close>, which lets the simplifier run a parser over an encoding.
\<close>

definition q :: "(octets_error, 'a) res \<Rightarrow> (error, 'a) res" where
  "q r = map_err (\<lambda>_. BufferTooShort) r"

lemma q_simps [simp]: "q (Ok x) = Ok x" "q (Err e) = Err BufferTooShort" "q Panic = Panic"
  by (simp_all add: q_def)

subsection \<open>Writing\<close>

fun put_seq :: "(octets \<Rightarrow> (octets_error, octets) res) list \<Rightarrow> octets \<Rightarrow> (error, octets) res" where
  "put_seq [] b = Ok b"
| "put_seq (p # ps) b = and_then (q (p b)) (put_seq ps)"

definition writes :: "(octets \<Rightarrow> (octets_error, octets) res) \<Rightarrow> byte list \<Rightarrow> bool" where
  "writes p bs \<longleftrightarrow> (\<forall>b. octets_ok b \<longrightarrow> p b = write_bytes bs b)"

lemma put_seq_writes:
  "list_all2 writes ps es \<Longrightarrow> octets_ok b \<Longrightarrow> put_seq ps b = q (write_bytes (concat es) b)"
proof (induction ps es arbitrary: b rule: list_all2_induct)
  case (Cons p ps e es)
  have p: "p b = write_bytes e b" using Cons by (simp add: writes_def)
  show ?case
  proof (cases "write_bytes e b")
    case (Ok b')
    then have "octets_ok b'" using octets_ok_write Cons.prems by blast
    then have "put_seq ps b' = q (write_bytes (concat es) b')" by (rule Cons.IH)
    then show ?thesis
      using p Ok write_bytes_append [OF Cons.prems, of e "concat es"] by simp
  next
    case (Err e')
    have "write_bytes (e @ concat es) b = and_then (write_bytes e b) (write_bytes (concat es))"
      using write_bytes_append [OF Cons.prems, of e "concat es"] by (metis (no_types))
    then have "write_bytes (e @ concat es) b = Err e'" by (simp add: Err)
    then show ?thesis by (simp add: p Err)
  next
    case Panic
    then show ?thesis by (simp add: write_bytes_def split: if_splits)
  qed
qed simp

lemma put_seq_append: "put_seq (xs @ ys) b = and_then (put_seq xs b) (put_seq ys)"
proof (induction xs arbitrary: b)
  case (Cons p ps)
  then have "put_seq (ps @ ys) = (\<lambda>b. and_then (put_seq ps b) (put_seq ys))" by (rule ext)
  then show ?case by (simp add: and_then_assoc)
qed simp

lemma writes_put_varint [intro, simp]: "v < 2 ^ 62 \<Longrightarrow> writes (put_varint v) (enc_varint v)"
  using varint.put_enc by (auto simp: writes_def is_varint_def)

lemma writes_put_varint_2 [intro, simp]:
  "v < 2 ^ 14 \<Longrightarrow> writes (put_varint_with_len v 2) (varint_bytes 2 v)"
  using put_varint_with_len_write [of _ 2 v] by (simp add: writes_def)

lemma writes_put_bytes [intro, simp]: "writes (put_bytes bs) bs"
  by (simp add: writes_def put_bytes_write)

lemma writes_put_u8 [intro, simp]: "v < 2 ^ 8 \<Longrightarrow> writes (put_u8 v) (be_bytes (Suc 0) v)"
  using u8.put_enc by (auto simp: writes_def)

lemma writes_put_u32 [intro, simp]: "v < 2 ^ 32 \<Longrightarrow> writes (put_u32 v) (be_bytes 4 v)"
  using u32.put_enc by (auto simp: writes_def)

lemma write_bytes_fits:
  assumes "octets_ok b" "write_bytes bs b = Ok b'"
  shows "cap b - cap b' = length bs" "octets_ok b'" "o_off b' = o_off b + length bs"
    "seg (o_off b) (length bs) (o_buf b') = bs" "take (o_off b') (o_buf b') = take (o_off b) (o_buf b) @ bs"
proof -
  have b': "b' = b\<lparr>o_buf := overwrite (o_off b) bs (o_buf b), o_off := o_off b + length bs\<rparr>"
    and le: "length bs \<le> cap b"
    using assms(2) by (auto simp: write_bytes_def split: if_splits)
  have fit: "o_off b + length bs \<le> length (o_buf b)" using le assms(1) by (simp add: cap_def octets_ok_def)
  then show "cap b - cap b' = length bs" "octets_ok b'" "o_off b' = o_off b + length bs"
    "seg (o_off b) (length bs) (o_buf b') = bs" "take (o_off b') (o_buf b') = take (o_off b) (o_buf b) @ bs"
    unfolding b' by (simp_all add: cap_def octets_ok_def seg_def overwrite_def)
qed

subsection \<open>Reading\<close>

definition take_varint :: "octets \<Rightarrow> (u64 \<Rightarrow> octets \<Rightarrow> (error, 'a) res) \<Rightarrow> (error, 'a) res" where
  "take_varint b k = and_then (q (get_varint b)) (\<lambda>(v, b). k v b)"

definition take_u8 :: "octets \<Rightarrow> (nat \<Rightarrow> octets \<Rightarrow> (error, 'a) res) \<Rightarrow> (error, 'a) res" where
  "take_u8 b k = and_then (q (get_u8 b)) (\<lambda>(v, b). k v b)"

definition take_u32 :: "octets \<Rightarrow> (nat \<Rightarrow> octets \<Rightarrow> (error, 'a) res) \<Rightarrow> (error, 'a) res" where
  "take_u32 b k = and_then (q (get_u32 b)) (\<lambda>(v, b). k v b)"

definition take_bytes :: "usize \<Rightarrow> octets \<Rightarrow> (octets \<Rightarrow> octets \<Rightarrow> (error, 'a) res) \<Rightarrow> (error, 'a) res" where
  "take_bytes n b k = and_then (q (get_bytes n b)) (\<lambda>(d, b). k d b)"

definition take_bytes_varint :: "octets \<Rightarrow> (octets \<Rightarrow> octets \<Rightarrow> (error, 'a) res) \<Rightarrow> (error, 'a) res" where
  "take_bytes_varint b k = and_then (q (get_bytes_with_varint_length b)) (\<lambda>(d, b). k d b)"

definition cur :: "byte list \<Rightarrow> byte list \<Rightarrow> octets" where
  "cur pre rest = \<lparr>o_buf = pre @ rest, o_off = length pre\<rparr>"

lemma as_ref_cur [simp]: "as_ref (cur pre rest) = rest"
  by (simp add: cur_def as_ref_def)

lemma advance_cur: "advance (length xs) (cur pre (xs @ rest)) = cur (pre @ xs) rest"
  by (simp add: cur_def advance_def)

lemma cap_cur [simp]: "cap (cur pre rest) = length rest"
  by (simp add: cap_as_ref)

lemma octets_ok_cur [simp]: "octets_ok (cur pre rest)"
  by (simp add: octets_ok_def cur_def)

lemma cur_of_octets: "octets_ok b \<Longrightarrow> b = cur (take (o_off b) (o_buf b)) (as_ref b)"
  by (simp add: cur_def as_ref_def octets_ok_def)

lemma take_varint_cur [simp]:
  assumes "v < 2 ^ 62"
  shows "take_varint (cur pre (enc_varint v @ rest)) k = k v (cur (pre @ enc_varint v) rest)"
  using varint.dec_enc [of v "cur pre (enc_varint v @ rest)" rest] assms
  by (simp add: take_varint_def is_varint_def advance_cur)

lemma take_varint_cur_2 [simp]:
  assumes "v < 2 ^ 14"
  shows "take_varint (cur pre (varint_bytes 2 v @ rest)) k = k v (cur (pre @ varint_bytes 2 v) rest)"
  using get_varint_varint_bytes [of 2 v "cur pre (varint_bytes 2 v @ rest)" rest] assms
    advance_cur [of "varint_bytes 2 v" pre rest]
  by (simp add: take_varint_def)

lemma take_u8_cur [simp]:
  assumes "v < 2 ^ 8"
  shows "take_u8 (cur pre (be_bytes (Suc 0) v @ rest)) k = k v (cur (pre @ be_bytes (Suc 0) v) rest)"
  using u8.dec_enc [of v "cur pre (be_bytes 1 v @ rest)" rest] assms
    advance_cur [of "be_bytes 1 v" pre rest]
  by (simp add: take_u8_def)

lemma take_u32_cur [simp]:
  assumes "v < 2 ^ 32"
  shows "take_u32 (cur pre (be_bytes 4 v @ rest)) k = k v (cur (pre @ be_bytes 4 v) rest)"
  using u32.dec_enc [of v "cur pre (be_bytes 4 v @ rest)" rest] assms
    advance_cur [of "be_bytes 4 v" pre rest]
  by (simp add: take_u32_def)

lemma take_bytes_cur [simp]:
  assumes "length xs = n"
  shows "take_bytes n (cur pre (xs @ rest)) k = k (with_slice xs) (cur (pre @ xs) rest)"
  using get_bytes_append [of "cur pre (xs @ rest)" xs rest n] assms advance_cur [of xs pre rest]
  by (simp add: take_bytes_def)

lemma take_bytes_varint_cur [simp]:
  assumes "length xs < 2 ^ 62"
  shows "take_bytes_varint (cur pre (enc_varint (length xs) @ xs @ rest)) k
       = k (with_slice xs) (cur (pre @ enc_varint (length xs) @ xs) rest)"
proof -
  have "get_varint (cur pre (enc_varint (length xs) @ xs @ rest))
      = Ok (length xs, cur (pre @ enc_varint (length xs)) (xs @ rest))"
    using varint.dec_enc [of "length xs" "cur pre (enc_varint (length xs) @ xs @ rest)" "xs @ rest"] assms
      advance_cur [of "enc_varint (length xs)" pre "xs @ rest"]
    by (simp add: is_varint_def)
  moreover have "get_bytes (length xs) (cur (pre @ enc_varint (length xs)) (xs @ rest))
      = Ok (with_slice xs, cur (pre @ enc_varint (length xs) @ xs) rest)"
    using get_bytes_append [of "cur (pre @ enc_varint (length xs)) (xs @ rest)" xs rest "length xs"]
      advance_cur [of xs "pre @ enc_varint (length xs)" rest]
    by simp
  ultimately show ?thesis by (simp add: take_bytes_varint_def get_bytes_with_varint_length_def)
qed

lemma take_bytes_varint_cur_2 [simp]:
  assumes "length xs < 2 ^ 14"
  shows "take_bytes_varint (cur pre (varint_bytes 2 (length xs) @ xs @ rest)) k
       = k (with_slice xs) (cur (pre @ varint_bytes 2 (length xs) @ xs) rest)"
proof -
  have "get_varint (cur pre (varint_bytes 2 (length xs) @ xs @ rest))
      = Ok (length xs, cur (pre @ varint_bytes 2 (length xs)) (xs @ rest))"
    using get_varint_varint_bytes [of 2 "length xs" "cur pre (varint_bytes 2 (length xs) @ xs @ rest)" "xs @ rest"]
      advance_cur [of "varint_bytes 2 (length xs)" pre "xs @ rest"] assms
    by simp
  moreover have "get_bytes (length xs) (cur (pre @ varint_bytes 2 (length xs)) (xs @ rest))
      = Ok (with_slice xs, cur (pre @ varint_bytes 2 (length xs) @ xs) rest)"
    using get_bytes_append [of "cur (pre @ varint_bytes 2 (length xs)) (xs @ rest)" xs rest "length xs"]
      advance_cur [of xs "pre @ varint_bytes 2 (length xs)" rest]
    by simp
  ultimately show ?thesis by (simp add: take_bytes_varint_def get_bytes_with_varint_length_def)
qed

lemma with_slice_simps [simp]:
  "o_buf (with_slice xs) = xs" "o_off (with_slice xs) = 0" "to_vec (with_slice xs) = xs" "length (as_ref (with_slice xs)) = length xs"
  by (simp_all add: with_slice_def to_vec_def as_ref_def)

lemma length_enc_varint_len: "v < 2 ^ 62 \<Longrightarrow> varint_len v = Some (length (enc_varint v))"
  by (auto simp: enc_varint_def varint_len_def)

subsection \<open>No panic while reading\<close>

text \<open>
  \<open>holds P r\<close>: the result is not a panic, and a success satisfies \<open>P\<close>; \<open>after b b'\<close>: the cursor
  \<open>b'\<close> is over the same buffer as \<open>b\<close>, not before it and not past the end.  The rules walk a
  parser statement by statement.
\<close>

definition holds :: "('a \<Rightarrow> bool) \<Rightarrow> (error, 'a) res \<Rightarrow> bool" where
  "holds P r \<longleftrightarrow> r \<noteq> Panic \<and> (\<forall>x. r = Ok x \<longrightarrow> P x)"

definition after :: "octets \<Rightarrow> octets \<Rightarrow> bool" where
  "after b b' \<longleftrightarrow> octets_ok b' \<and> o_buf b' = o_buf b \<and> o_off b \<le> o_off b'"

lemma after_refl [simp]: "octets_ok b \<Longrightarrow> after b b"
  by (simp add: after_def)

lemma after_trans [trans]: "after a b \<Longrightarrow> after b c \<Longrightarrow> after a c"
  by (simp add: after_def)

lemma after_ok: "after b b' \<Longrightarrow> octets_ok b'"
  by (simp add: after_def)

lemma after_advance: "octets_ok b \<Longrightarrow> n \<le> length (as_ref b) \<Longrightarrow> after b (advance n b)"
  by (auto simp: after_def octets_ok_def advance_def as_ref_def)

lemma holds_simps [simp]: "holds P (Ok x) \<longleftrightarrow> P x" "holds P (Err e)" "\<not> holds P Panic"
  by (simp_all add: holds_def)

lemma holds_and_then: "holds Q m \<Longrightarrow> (\<And>x. Q x \<Longrightarrow> holds P (f x)) \<Longrightarrow> holds P (and_then m f)"
  by (cases m) (auto simp: holds_def)

lemma holds_if: "(c \<Longrightarrow> holds P x) \<Longrightarrow> (\<not> c \<Longrightarrow> holds P y) \<Longrightarrow> holds P (if c then x else y)"
  by simp

lemma holds_weaken: "holds Q r \<Longrightarrow> (\<And>x. Q x \<Longrightarrow> P x) \<Longrightarrow> holds P r"
  by (auto simp: holds_def)

lemma holds_get_varint: "octets_ok b \<Longrightarrow> holds (\<lambda>(v, b'). v < 2 ^ 62 \<and> after b b') (q (get_varint b))"
proof (cases "as_ref b = []")
  case True
  then show ?thesis by (simp add: get_varint_def peek_u8_def peek_u_def)
next
  case False
  assume b: "octets_ok b"
  from get_varint_result [of b] False
  consider "get_varint b = Err BufferTooShortError"
    | v n where "get_varint b = Ok (v, advance n b)" "is_varint v" "n \<le> length (as_ref b)" by auto
  then show ?thesis
    using after_advance [OF b] by cases (auto simp: is_varint_def)
qed

lemma holds_get_u:
  assumes "octets_ok b"
  shows "holds (\<lambda>(v, b'). v < 256 ^ n \<and> after b b') (q (get_u n b))"
proof (cases "n \<le> length (as_ref b)")
  case True
  have "be_val (take n (as_ref b)) < 256 ^ n" using be_val_less [of "take n (as_ref b)"] True by simp
  then show ?thesis using True after_advance [OF assms True] by (simp add: get_u_cases)
qed (simp add: get_u_cases)

lemma holds_get_bytes:
  "octets_ok b \<Longrightarrow>
     holds (\<lambda>(d, b'). octets_ok d \<and> o_off d = 0 \<and> length (to_vec d) = n \<and> after b b') (q (get_bytes n b))"
  using after_advance [of b n] by (simp add: get_bytes_cases)

lemma holds_get_bytes_varint:
  assumes "octets_ok b"
  shows "holds (\<lambda>(d, b'). octets_ok d \<and> after b b') (q (get_bytes_with_varint_length b))"
proof -
  have "q (get_bytes_with_varint_length b)
      = and_then (q (get_varint b)) (\<lambda>(n, b). q (get_bytes n b))"
    by (cases "get_varint b") (auto simp: get_bytes_with_varint_length_def)
  also have "holds (\<lambda>(d, b'). octets_ok d \<and> after b b') \<dots>"
  proof (rule holds_and_then [OF holds_get_varint [OF assms]])
    fix x :: "nat \<times> octets"
    assume "case x of (v, b') \<Rightarrow> v < 2 ^ 62 \<and> after b b'"
    then obtain n b1 where x: "x = (n, b1)" and b1: "after b b1" by (cases x) auto
    have "holds (\<lambda>(d, b'). octets_ok d \<and> o_off d = 0 \<and> length (to_vec d) = n \<and> after b1 b')
        (q (get_bytes n b1))"
      by (rule holds_get_bytes [OF after_ok [OF b1]])
    then show "holds (\<lambda>(d, b'). octets_ok d \<and> after b b') (case x of (n, b) \<Rightarrow> q (get_bytes n b))"
      unfolding x prod.case by (rule holds_weaken) (use after_trans [OF b1] in auto)
  qed
  finally show ?thesis .
qed

lemma holds_take_varint:
  assumes "octets_ok b" and "\<And>v b'. v < 2 ^ 62 \<Longrightarrow> after b b' \<Longrightarrow> holds P (k v b')"
  shows "holds P (take_varint b k)"
  unfolding take_varint_def
  by (rule holds_and_then [OF holds_get_varint [OF assms(1)]]) (use assms(2) in auto)

lemma holds_take_u8:
  assumes "octets_ok b" and "\<And>v b'. v < 256 \<Longrightarrow> after b b' \<Longrightarrow> holds P (k v b')"
  shows "holds P (take_u8 b k)"
  unfolding take_u8_def get_u8_def
  by (rule holds_and_then [OF holds_get_u [OF assms(1)]]) (use assms(2) in auto)

lemma holds_take_u32:
  assumes "octets_ok b" and "\<And>v b'. v < 2 ^ 32 \<Longrightarrow> after b b' \<Longrightarrow> holds P (k v b')"
  shows "holds P (take_u32 b k)"
  unfolding take_u32_def get_u32_def
  by (rule holds_and_then [OF holds_get_u [OF assms(1)]]) (use assms(2) in auto)

lemma holds_take_bytes:
  assumes "octets_ok b"
    and "\<And>d b'. octets_ok d \<Longrightarrow> o_off d = 0 \<Longrightarrow> length (to_vec d) = n \<Longrightarrow> after b b'
           \<Longrightarrow> holds P (k d b')"
  shows "holds P (take_bytes n b k)"
  unfolding take_bytes_def
  by (rule holds_and_then [OF holds_get_bytes [OF assms(1)]]) (use assms(2) in auto)

lemma holds_take_bytes_varint:
  assumes "octets_ok b" and "\<And>d b'. octets_ok d \<Longrightarrow> after b b' \<Longrightarrow> holds P (k d b')"
  shows "holds P (take_bytes_varint b k)"
  unfolding take_bytes_varint_def
  by (rule holds_and_then [OF holds_get_bytes_varint [OF assms(1)]]) (use assms(2) in auto)

lemmas holds_take = holds_take_varint holds_take_u8 holds_take_u32 holds_take_bytes
  holds_take_bytes_varint

end
