(* ===== verification/BTreeMap.thy ===== *)
theory BTreeMap
  imports Quiche_Prelude
begin

text \<open>
  The ordered map of the standard library (\<^verbatim>\<open>std::collections::BTreeMap\<close>) as
  \<^verbatim>\<open>ranges.rs\<close> and \<^verbatim>\<open>recv_buf.rs\<close> use it: an association list in strictly increasing key
  order.  The locale \<open>ordered_map\<close> is the contract its users rely on; the association list
  is shown to satisfy it.
\<close>

type_synonym 'v btree = "(u64 \<times> 'v) list"

fun bt_insert :: "u64 \<Rightarrow> 'v \<Rightarrow> 'v btree \<Rightarrow> 'v btree" where
  "bt_insert k v [] = [(k, v)]"
| "bt_insert k v ((k', v') # m) =
     (if k < k' then (k, v) # (k', v') # m
      else if k = k' then (k, v) # m
      else (k', v') # bt_insert k v m)"

definition bt_remove :: "u64 \<Rightarrow> 'v btree \<Rightarrow> 'v btree" where
  "bt_remove k m = filter (\<lambda>(k', _). k' \<noteq> k) m"

definition bt_range_from :: "u64 \<Rightarrow> 'v btree \<Rightarrow> 'v btree" where
  "bt_range_from k m = filter (\<lambda>(k', _). k \<le> k') m"

definition bt_range_to :: "u64 \<Rightarrow> 'v btree \<Rightarrow> 'v btree" where
  "bt_range_to k m = filter (\<lambda>(k', _). k' \<le> k) m"

fun bt_first :: "'v btree \<Rightarrow> (u64 \<times> 'v) option" where
  "bt_first [] = None"
| "bt_first (kv # m) = Some kv"

definition bt_last :: "'v btree \<Rightarrow> (u64 \<times> 'v) option" where
  "bt_last m = (if m = [] then None else Some (last m))"

definition bt_pop_first :: "'v btree \<Rightarrow> 'v btree" where
  "bt_pop_first m = tl m"

definition bt_ok :: "'v btree \<Rightarrow> bool" where
  "bt_ok m \<longleftrightarrow> sorted_wrt (\<lambda>(k1, _) (k2, _). k1 < k2) m"

text \<open>What the users of the map rely on.\<close>

locale ordered_map =
  fixes insert :: "nat \<Rightarrow> 'v \<Rightarrow> 'm \<Rightarrow> 'm"
    and remove :: "nat \<Rightarrow> 'm \<Rightarrow> 'm"
    and entries :: "'m \<Rightarrow> (nat \<times> 'v) list"
    and inv :: "'m \<Rightarrow> bool"
  assumes entries_sorted: "inv m \<Longrightarrow> sorted_wrt (\<lambda>(k1, _) (k2, _). k1 < k2) (entries m)"
    and entries_insert: "inv m \<Longrightarrow> entries (insert k v m) =
        filter (\<lambda>(k', _). k' < k) (entries m) @ (k, v) # filter (\<lambda>(k', _). k < k') (entries m)"
    and entries_remove: "inv m \<Longrightarrow> entries (remove k m) = filter (\<lambda>(k', _). k' \<noteq> k) (entries m)"
    and inv_insert: "inv m \<Longrightarrow> inv (insert k v m)"
    and inv_remove: "inv m \<Longrightarrow> inv (remove k m)"
begin

lemma distinct_keys: "inv m \<Longrightarrow> distinct (map fst (entries m))"
proof -
  have "sorted_wrt (\<lambda>(k1, _) (k2, _). k1 < k2) kvs \<Longrightarrow> distinct (map fst kvs)"
    for kvs :: "(nat \<times> 'v) list"
    by (induction kvs) fastforce+
  then show "inv m \<Longrightarrow> distinct (map fst (entries m))" using entries_sorted by blast
qed

lemma set_insert:
  "inv m \<Longrightarrow> set (entries (insert k v m))
     = Set.insert (k, v) {(k', v') \<in> set (entries m). k' \<noteq> k}"
  by (auto simp: entries_insert)

lemma set_remove: "inv m \<Longrightarrow> set (entries (remove k m)) = {(k', v') \<in> set (entries m). k' \<noteq> k}"
  by (auto simp: entries_remove)

end

lemma bt_ok_Cons: "bt_ok ((k, v) # m) \<longleftrightarrow> (\<forall>k' v'. (k', v') \<in> set m \<longrightarrow> k < k') \<and> bt_ok m"
  by (auto simp: bt_ok_def)

lemma bt_ok_Nil [simp]: "bt_ok []"
  by (simp add: bt_ok_def)

lemma bt_ok_filter: "bt_ok m \<Longrightarrow> bt_ok (filter P m)"
  by (simp add: bt_ok_def sorted_wrt_filter)

lemma bt_insert_split:
  "bt_ok m \<Longrightarrow> bt_insert k v m =
     filter (\<lambda>(k', _). k' < k) m @ (k, v) # filter (\<lambda>(k', _). k < k') m"
proof (induction k v m rule: bt_insert.induct)
  case (2 k v k' v' m)
  have "k \<le> k' \<Longrightarrow> filter (\<lambda>(k'', _). k'' < k) m = []"
    and "k \<le> k' \<Longrightarrow> filter (\<lambda>(k'', _). k < k'') m = m"
    using "2.prems" by (fastforce simp: bt_ok_Cons filter_empty_conv filter_id_conv)+
  with 2 show ?case by (auto simp: bt_ok_Cons)
qed simp

lemma bt_ok_append:
  "bt_ok (xs @ ys) \<longleftrightarrow> bt_ok xs \<and> bt_ok ys
     \<and> (\<forall>k v k' v'. (k, v) \<in> set xs \<longrightarrow> (k', v') \<in> set ys \<longrightarrow> k < k')"
  by (fastforce simp: bt_ok_def sorted_wrt_append)

lemma bt_ok_insert: "bt_ok m \<Longrightarrow> bt_ok (bt_insert k v m)"
  by (auto simp: bt_insert_split bt_ok_append bt_ok_Cons bt_ok_filter)

interpretation bt: ordered_map bt_insert bt_remove "\<lambda>m. m" bt_ok
proof unfold_locales
  show "bt_ok m \<Longrightarrow> sorted_wrt (\<lambda>(k1, _) (k2, _). k1 < k2) m" for m :: "'v btree"
    by (simp add: bt_ok_def)
qed (simp_all add: bt_insert_split [symmetric] bt_ok_insert bt_remove_def bt_ok_filter)

end
