(* ===== verification/Ranges.thy ===== *)
theory Ranges
  imports BTreeMap
begin

text \<open>
  The range set of \<^verbatim>\<open>quiche/src/ranges.rs\<close>: a sorted collection of non-touching half-open
  ranges of \<^verbatim>\<open>u64\<close>, held inline while it is small and in a \<^verbatim>\<open>BTreeMap\<close> otherwise.  It
  records acknowledged packet numbers and acknowledged stream offsets.

  A range is the pair of its start and its end.  \<open>None\<close> is a panic of the source.
  Below the operations, \<open>insert_spec\<close> is the reference insertion both representations
  are proved to compute.
\<close>

type_synonym range = "u64 \<times> u64"

definition MAX_INLINE_CAPACITY :: usize where "MAX_INLINE_CAPACITY = 4"
definition MIN_TO_INLINE :: usize where "MIN_TO_INLINE = 2"

datatype range_set =
    Inline (rs_inner: "range list") (rs_capacity: usize)
  | BTree (rs_inner: "u64 btree") (rs_capacity: usize)

subsection \<open>Vectors\<close>

definition vec_insert :: "usize \<Rightarrow> 'a \<Rightarrow> 'a list \<Rightarrow> 'a list" where
  "vec_insert i x xs = take i xs @ x # drop i xs"

definition vec_remove :: "usize \<Rightarrow> 'a list \<Rightarrow> 'a list" where
  "vec_remove i xs = take i xs @ drop (Suc i) xs"

lemma length_vec_remove: "i < length xs \<Longrightarrow> length (vec_remove i xs) = length xs - 1"
  by (simp add: vec_remove_def)

subsection \<open>The inline representation\<close>

function inline_skip :: "u64 \<Rightarrow> range list \<Rightarrow> usize \<Rightarrow> usize" where
  "inline_skip start inner pos =
     (if pos < length inner \<and> start > snd (inner ! pos)
      then inline_skip start inner (pos + 1) else pos)"
  by pat_completeness auto
termination by (relation "measure (\<lambda>(start, inner, pos). length inner - pos)") auto

function inline_merge :: "range list \<Rightarrow> usize \<Rightarrow> u64 \<Rightarrow> range list" where
  "inline_merge inner pos end =
     (if pos + 1 < length inner
      then (let (s, e) = inner ! (pos + 1)
            in if end < s then inner
               else (let new_e = max e end
                     in inline_merge
                          (vec_remove (pos + 1) (inner[pos := (fst (inner ! pos), new_e)]))
                          pos new_e))
      else inner)"
  by pat_completeness auto
termination
  by (relation "measure (\<lambda>(inner, pos, end). length inner)") (auto simp: length_vec_remove)

declare inline_skip.simps [simp del] inline_merge.simps [simp del]

definition inline_insert :: "range \<Rightarrow> range list \<Rightarrow> usize \<Rightarrow> range list option" where
  "inline_insert item inner capacity =
     (let (start, end) = item; pos = inline_skip start inner 0
      in if pos < length inner
         then (let (s, e) = inner ! pos
               in if end < s
                  then (if length inner = capacity
                        then (if pos = 0 then None
                              else Some (vec_insert (pos - 1) (start, end) (vec_remove 0 inner)))
                        else Some (vec_insert pos (start, end) inner))
                  else (let s' = (if start < s then start else s)
                        in if end > e
                           then Some (inline_merge (inner[pos := (s', end)]) pos end)
                           else Some (inner[pos := (s', e)])))
         else if length inner = capacity
              then (if inner = [] then None
                    else Some (vec_remove 0 inner @ [(start, end)]))
              else Some (inner @ [(start, end)]))"

fun inline_remove_until :: "u64 \<Rightarrow> range list \<Rightarrow> range list" where
  "inline_remove_until largest [] = []"
| "inline_remove_until largest ((s, e) # rest) =
     (if largest \<ge> e then inline_remove_until largest rest
      else (let s' = max (largest + 1) s
            in if s' = e then rest else (s', e) # rest))"

subsection \<open>The tree representation\<close>

definition range_overlaps :: "range \<Rightarrow> range \<Rightarrow> bool" where
  "range_overlaps r other =
     (fst other \<ge> fst r \<and> fst other \<le> snd r \<or> snd other \<ge> fst r \<and> snd other \<le> snd r)"

definition range_contains :: "range \<Rightarrow> u64 \<Rightarrow> bool" where
  "range_contains r x = (fst r \<le> x \<and> x < snd r)"

definition prev_to :: "u64 \<Rightarrow> u64 btree \<Rightarrow> range option" where
  "prev_to item m = bt_last (bt_range_to item m)"

definition next_to :: "u64 \<Rightarrow> u64 btree \<Rightarrow> range option" where
  "next_to item m = bt_first (bt_range_from item m)"

lemma next_to_mem: "next_to item m = Some r \<Longrightarrow> r \<in> set m"
  by (cases "bt_range_from item m") (auto simp: next_to_def bt_range_from_def filter_eq_Cons_iff)

lemma length_bt_remove_less: "(k, v) \<in> set m \<Longrightarrow> length (bt_remove k m) < length m"
  unfolding bt_remove_def by (rule length_filter_less) auto

function btree_absorb ::
  "range \<Rightarrow> u64 \<Rightarrow> u64 \<Rightarrow> u64 btree \<Rightarrow> u64 \<times> u64 \<times> u64 btree" where
  "btree_absorb item start end m =
     (case next_to start m of
        None \<Rightarrow> (start, end, m)
      | Some r \<Rightarrow>
          if range_contains item (fst r) \<and> range_contains item (snd r)
          then btree_absorb item start end (bt_remove (fst r) m)
          else if \<not> range_overlaps r item then (start, end, m)
          else btree_absorb item (min start (fst r)) (max end (snd r)) (bt_remove (fst r) m))"
  by pat_completeness auto
termination
  by (relation "measure (\<lambda>(item, start, end, m). length m)")
    (auto dest!: next_to_mem intro: length_bt_remove_less)

declare btree_absorb.simps [simp del]

definition btree_insert :: "range \<Rightarrow> u64 btree \<Rightarrow> usize \<Rightarrow> u64 btree" where
  "btree_insert item m capacity =
     (let (start, end, m) =
            (case prev_to (fst item) m of
               Some r \<Rightarrow> if range_overlaps r item
                        then (min (fst item) (fst r), max (snd item) (snd r), bt_remove (fst r) m)
                        else (fst item, snd item, m)
             | None \<Rightarrow> (fst item, snd item, m));
          (start, end, m) = btree_absorb item start end m;
          m = (if length m \<ge> capacity then bt_pop_first m else m)
      in bt_insert start end m)"

fun btree_remove_loop :: "u64 \<Rightarrow> range list \<Rightarrow> u64 btree \<Rightarrow> usize \<Rightarrow> u64 btree option" where
  "btree_remove_loop largest [] m capacity = Some m"
| "btree_remove_loop largest (r # rs) m capacity =
     do {
       next \<leftarrow> u64_add largest 1;
       let m = bt_remove (fst r) m;
       btree_remove_loop largest rs
         (if snd r > next then btree_insert (next, snd r) m capacity else m) capacity
     }"

definition btree_remove_until :: "u64 \<Rightarrow> u64 btree \<Rightarrow> usize \<Rightarrow> u64 btree option" where
  "btree_remove_until largest m capacity =
     btree_remove_loop largest (bt_range_to largest m) m capacity"

subsection \<open>The range set\<close>

definition rs_new :: "usize \<Rightarrow> range_set" where
  "rs_new capacity = Inline [] capacity"

definition rs_default :: range_set where
  "rs_default = Inline [] usize_max"

definition rs_len :: "range_set \<Rightarrow> usize" where
  "rs_len r = (case r of Inline i _ \<Rightarrow> length i | BTree m _ \<Rightarrow> length m)"

fun fixup :: "range_set \<Rightarrow> range_set" where
  "fixup (Inline i c) =
     (if length i = MAX_INLINE_CAPACITY
      then BTree (foldl (\<lambda>m (s, e). bt_insert s e m) [] i) c else Inline i c)"
| "fixup (BTree m c) = (if length m \<le> MIN_TO_INLINE then Inline m c else BTree m c)"

fun rs_insert :: "range \<Rightarrow> range_set \<Rightarrow> range_set option" where
  "rs_insert item (Inline i c) =
     map_option (\<lambda>i. fixup (Inline i c)) (inline_insert item i c)"
| "rs_insert item (BTree m c) = Some (fixup (BTree (btree_insert item m c) c))"

fun rs_remove_until :: "u64 \<Rightarrow> range_set \<Rightarrow> range_set option" where
  "rs_remove_until largest (Inline i c) = Some (fixup (Inline (inline_remove_until largest i) c))"
| "rs_remove_until largest (BTree m c) =
     map_option (\<lambda>m. fixup (BTree m c)) (btree_remove_until largest m c)"

definition rs_push_item :: "u64 \<Rightarrow> range_set \<Rightarrow> range_set option" where
  "rs_push_item item r = do { next \<leftarrow> u64_add item 1; rs_insert (item, next) r }"

definition rs_iter :: "range_set \<Rightarrow> range list" where
  "rs_iter r = (case r of BTree m _ \<Rightarrow> m | Inline i _ \<Rightarrow> i)"

definition rs_flatten :: "range_set \<Rightarrow> u64 list" where
  "rs_flatten r = concat (map (\<lambda>(s, e). [s..<e]) (rs_iter r))"

definition rs_first :: "range_set \<Rightarrow> u64 option" where
  "rs_first r = (case r of
       Inline i _ \<Rightarrow> map_option fst (case i of [] \<Rightarrow> None | x # _ \<Rightarrow> Some x)
     | BTree m _ \<Rightarrow> map_option fst (bt_first m))"

definition rs_last :: "range_set \<Rightarrow> (error, u64 option) res" where
  "rs_last r =
     (case (case r of
              Inline i _ \<Rightarrow> (if i = [] then None else Some (last i))
            | BTree m _ \<Rightarrow> bt_last m) of
        None \<Rightarrow> Ok None
      | Some (_, e) \<Rightarrow> and_then (or_panic (u64_sub e 1)) (\<lambda>l. Ok (Some l)))"

definition rs_eq_range :: "range_set \<Rightarrow> range \<Rightarrow> bool" where
  "rs_eq_range r other = (if rs_len r \<noteq> 1 then False else hd (rs_iter r) = other)"

subsection \<open>Specification\<close>

definition ranges_wf :: "range list \<Rightarrow> bool" where
  "ranges_wf rs \<longleftrightarrow> sorted_wrt (\<lambda>(_, e) (s', _). e < s') rs \<and> (\<forall>(s, e) \<in> set rs. s \<le> e)"

definition ranges_nonempty :: "range list \<Rightarrow> bool" where
  "ranges_nonempty rs \<longleftrightarrow> (\<forall>(s, e) \<in> set rs. s < e)"

definition covered :: "range list \<Rightarrow> u64 set" where
  "covered rs = (\<Union>(s, e) \<in> set rs. {s..<e})"

definition left_of :: "range \<Rightarrow> range list \<Rightarrow> range list" where
  "left_of item rs = filter (\<lambda>(_, e). e < fst item) rs"

definition touching :: "range \<Rightarrow> range list \<Rightarrow> range list" where
  "touching item rs = filter (\<lambda>(s, e). fst item \<le> e \<and> s \<le> snd item) rs"

definition right_of :: "range \<Rightarrow> range list \<Rightarrow> range list" where
  "right_of item rs = filter (\<lambda>(s, _). snd item < s) rs"

definition insert_spec :: "range \<Rightarrow> range list \<Rightarrow> range list" where
  "insert_spec item rs =
     left_of item rs
     @ [(foldr min (map fst (touching item rs)) (fst item),
         foldr max (map snd (touching item rs)) (snd item))]
     @ right_of item rs"

definition trim_spec :: "u64 \<Rightarrow> range list \<Rightarrow> range list" where
  "trim_spec largest rs =
     map (\<lambda>(s, e). (max s (largest + 1), e)) (filter (\<lambda>(_, e). largest + 1 < e) rs)"

definition rs_wf :: "range_set \<Rightarrow> bool" where
  "rs_wf r \<longleftrightarrow> ranges_wf (rs_inner r) \<and> length (rs_inner r) \<le> rs_capacity r
     \<and> (case r of Inline i _ \<Rightarrow> length i < MAX_INLINE_CAPACITY
        | BTree m _ \<Rightarrow> MIN_TO_INLINE < length m)"

subsection \<open>Well-formed lists of ranges\<close>

lemma ranges_wf_Nil [simp]: "ranges_wf []"
  by (simp add: ranges_wf_def)

lemma ranges_wf_Cons:
  "ranges_wf ((s, e) # rs) \<longleftrightarrow> s \<le> e \<and> (\<forall>s' e'. (s', e') \<in> set rs \<longrightarrow> e < s') \<and> ranges_wf rs"
  by (auto simp: ranges_wf_def)

lemma ranges_wfD: "ranges_wf rs \<Longrightarrow> (s, e) \<in> set rs \<Longrightarrow> s \<le> e"
  by (auto simp: ranges_wf_def)

lemma ranges_wf_append:
  "ranges_wf (xs @ ys) \<longleftrightarrow>
     ranges_wf xs \<and> ranges_wf ys 
     \<and> (\<forall>s e s' e'. (s, e) \<in> set xs \<longrightarrow> (s', e') \<in> set ys \<longrightarrow> e < s')"
  by (fastforce simp: ranges_wf_def sorted_wrt_append)

lemma ranges_wf_filter: "ranges_wf rs \<Longrightarrow> ranges_wf (filter P rs)"
  by (auto simp: ranges_wf_def sorted_wrt_filter)

lemma ranges_wf_bt_ok: "ranges_wf rs \<Longrightarrow> bt_ok rs"
  by (induction rs) (fastforce simp: ranges_wf_Cons bt_ok_Cons)+

lemma covered_Cons [simp]: "covered ((s, e) # rs) = {s..<e} \<union> covered rs"
  by (simp add: covered_def)

lemma covered_Nil [simp]: "covered [] = {}"
  by (simp add: covered_def)

lemma covered_append [simp]: "covered (xs @ ys) = covered xs \<union> covered ys"
  by (simp add: covered_def)

lemma coveredI: "(s, e) \<in> set rs \<Longrightarrow> s \<le> x \<Longrightarrow> x < e \<Longrightarrow> x \<in> covered rs"
  by (force simp: covered_def)

lemmas parts_defs = left_of_def touching_def right_of_def

text \<open>A well-formed list falls into the ranges before the item, those it touches and those after it.\<close>

lemma ranges_split:
  assumes "ranges_wf rs" and "fst item \<le> snd item"
  shows "rs = left_of item rs @ touching item rs @ right_of item rs"
  using assms
proof (induction rs)
  case Nil
  then show ?case by (simp add: parts_defs)
next
  case (Cons r rs)
  obtain s e where r: "r = (s, e)" by (cases r)
  from Cons have IH: "rs = left_of item rs @ touching item rs @ right_of item rs"
    and later: "\<forall>(s', e') \<in> set rs. e < s' \<and> s' \<le> e'" and se: "s \<le> e"
    by (auto simp: r ranges_wf_Cons ranges_wf_def)
  consider "e < fst item" | "fst item \<le> e" "s \<le> snd item" | "snd item < s" by linarith
  then show ?case
  proof cases
    case 1
    with se Cons.prems(2) IH show ?thesis by (simp add: r parts_defs)
  next
    case 2
    then have "left_of item rs = []"
      using later by (fastforce simp: left_of_def filter_empty_conv)
    with 2 IH show ?thesis by (simp add: r parts_defs)
  next
    case 3
    then have "left_of item rs = []" "touching item rs = []"
      using later se Cons.prems(2) by (fastforce simp: parts_defs filter_empty_conv)+
    with 3 se Cons.prems(2) IH show ?thesis by (simp add: r parts_defs)
  qed
qed

subsection \<open>The reference insertion\<close>

lemma foldr_max_ge: "(e :: nat) \<le> foldr max xs e" "x \<in> set xs \<Longrightarrow> x \<le> foldr max xs e"
  by (induction xs) (auto simp: le_max_iff_disj)

lemma foldr_max_cases: "foldr max xs (e :: nat) = e \<or> foldr max xs e \<in> set xs"
  by (induction xs) (auto simp: max_def)

lemma foldr_min_le: "foldr min xs (s :: nat) \<le> s" "x \<in> set xs \<Longrightarrow> foldr min xs s \<le> x"
  by (induction xs) (auto simp: min_le_iff_disj)

lemma foldr_min_cases: "foldr min xs (s :: nat) = s \<or> foldr min xs s \<in> set xs"
  by (induction xs) (auto simp: min_def)

lemma foldr_min_sorted: "\<forall>x \<in> set xs. a \<le> x \<Longrightarrow> min a (foldr min xs (s :: nat)) = min a s"
  by (induction xs) (auto simp: min.assoc [symmetric] min_absorb1)

lemma foldr_max_out: "foldr max xs (max a b) = max b (foldr max xs (a :: nat))"
  by (induction xs) (auto simp: max.left_commute max.commute)

lemma touching_iff: "(s, e) \<in> set (touching item rs) \<longleftrightarrow>
    (s, e) \<in> set rs \<and> fst item \<le> e \<and> s \<le> snd item"
  by (auto simp: touching_def)

lemma covered_merged:
  assumes "fst item \<le> snd item"
  shows "{foldr min (map fst (touching item rs)) (fst item)
          ..<foldr max (map snd (touching item rs)) (snd item)}
       = covered (touching item rs) \<union> {fst item..<snd item}" (is "{?lo..<?hi} = ?rhs")
proof (intro equalityI subsetI)
  fix x assume x: "x \<in> {?lo..<?hi}"
  consider "x < fst item" | "x \<in> {fst item..<snd item}" | "snd item \<le> x" by force
  then show "x \<in> ?rhs"
  proof cases
    case 1
    with x foldr_min_cases [of "map fst (touching item rs)" "fst item"]
    obtain e where "(?lo, e) \<in> set (touching item rs)" by (auto simp: image_iff)
    moreover from this have "fst item \<le> e" by (simp add: touching_iff)
    ultimately show ?thesis using 1 x by (auto intro: coveredI)
  next
    case 3
    with x foldr_max_cases [of "map snd (touching item rs)" "snd item"]
    obtain s where "(s, ?hi) \<in> set (touching item rs)" by (auto simp: image_iff)
    moreover from this have "s \<le> snd item" by (simp add: touching_iff)
    ultimately show ?thesis using 3 x by (auto intro: coveredI)
  qed auto
next
  fix x assume "x \<in> ?rhs"
  then show "x \<in> {?lo..<?hi}"
  proof
    assume "x \<in> covered (touching item rs)"
    then obtain s e where "(s, e) \<in> set (touching item rs)" "s \<le> x" "x < e"
      by (auto simp: covered_def)
    then have "?lo \<le> s" "e \<le> ?hi" by (auto intro!: foldr_min_le foldr_max_ge rev_image_eqI)
    with \<open>s \<le> x\<close> \<open>x < e\<close> show ?thesis by simp
  next
    assume "x \<in> {fst item..<snd item}"
    with foldr_min_le(1) foldr_max_ge(1) show ?thesis by (auto intro: order_trans order_less_le_trans)
  qed
qed

lemma covered_insert_spec:
  assumes "ranges_wf rs" and "fst item \<le> snd item"
  shows "covered (insert_spec item rs) = covered rs \<union> {fst item..<snd item}"
proof -
  have "covered rs = covered (left_of item rs @ touching item rs @ right_of item rs)"
    using ranges_split [OF assms] by simp
  then show ?thesis
    using covered_merged [OF assms(2), of rs] by (auto simp: insert_spec_def)
qed

lemma insert_spec_wf:
  assumes "ranges_wf rs" and "fst item \<le> snd item"
  shows "ranges_wf (insert_spec item rs)"
proof -
  let ?M = "touching item rs"
  let ?lo = "foldr min (map fst ?M) (fst item)" and ?hi = "foldr max (map snd ?M) (snd item)"
  have wf: "ranges_wf (left_of item rs @ ?M @ right_of item rs)"
    using assms(1) ranges_split [OF assms] by simp
  have lo: "e < ?lo" if l: "(s, e) \<in> set (left_of item rs)" for s e
    using foldr_min_cases [of "map fst ?M" "fst item"]
  proof
    assume "?lo = fst item"
    with l show ?thesis by (simp add: left_of_def)
  next
    assume "?lo \<in> set (map fst ?M)"
    with l wf show ?thesis by (fastforce simp: ranges_wf_append)
  qed
  have hi: "?hi < s" if r: "(s, e) \<in> set (right_of item rs)" for s e
    using foldr_max_cases [of "map snd ?M" "snd item"]
  proof
    assume "?hi = snd item"
    with r show ?thesis by (simp add: right_of_def)
  next
    assume "?hi \<in> set (map snd ?M)"
    with r wf show ?thesis by (fastforce simp: ranges_wf_append)
  qed
  have "?lo \<le> ?hi"
    using foldr_min_le(1) assms(2) foldr_max_ge(1) by (rule order_trans [OF order_trans])
  with wf lo hi show ?thesis
    by (fastforce simp: insert_spec_def ranges_wf_append ranges_wf_Cons)
qed

subsection \<open>The inline representation computes it\<close>

lemma inline_skip_prefix:
  assumes "\<forall>(_, e) \<in> set L. e < start" and "T \<noteq> [] \<Longrightarrow> start \<le> snd (hd T)" and "pos \<le> length L"
  shows "inline_skip start (L @ T) pos = length L"
  using assms(3)
proof (induction "length L - pos" arbitrary: pos)
  case 0
  then have "pos = length L" by simp
  with assms(2) show ?case by (subst inline_skip.simps) (cases T, auto)
next
  case (Suc n)
  then have "pos < length L" by simp
  moreover from this have "snd ((L @ T) ! pos) < start"
    using assms(1) nth_mem [of pos L] by (cases "L ! pos") (auto simp: nth_append)
  ultimately show ?case using Suc by (subst inline_skip.simps) auto
qed

lemma inline_merge_absorbs:
  assumes "\<forall>(s, _) \<in> set M. s \<le> end" and "\<forall>(s, _) \<in> set R. foldr max (map snd M) end < s"
  shows "inline_merge (L @ (s0, end) # M @ R) (length L) end = L @ (s0, foldr max (map snd M) end) # R"
  using assms
proof (induction M arbitrary: "end")
  case Nil
  then show ?case by (subst inline_merge.simps) (cases R, auto simp: nth_append)
next
  case (Cons m M)
  obtain s e where m: "m = (s, e)" by (cases m)
  have step: "inline_merge (L @ (s0, end) # (m # M) @ R) (length L) end
      = inline_merge (L @ (s0, max e end) # M @ R) (length L) (max e end)"
    using Cons.prems(1)
    by (subst inline_merge.simps)
      (auto simp: m nth_append vec_remove_def list_update_append Let_def)
  have fold: "foldr max (map snd M) (max e end) = max e (foldr max (map snd M) end)"
    by (induction M) (auto simp: max.left_commute)
  show ?case
    unfolding step using Cons.IH [of "max e end"] Cons.prems
    by (fastforce simp: m fold)
qed

lemma inline_skip_parts:
  assumes "ranges_wf rs" and "fst item \<le> snd item"
  shows "inline_skip (fst item) rs 0 = length (left_of item rs)"
proof -
  let ?T = "touching item rs @ right_of item rs"
  have wf: "ranges_wf (left_of item rs @ ?T)" using assms(1) ranges_split [OF assms] by simp
  have "fst item \<le> snd (hd ?T)" if "?T \<noteq> []"
  proof -
    obtain s e where hd: "hd ?T = (s, e)" by (cases "hd ?T")
    then have "(s, e) \<in> set ?T" using that by (metis hd_in_set)
    moreover from this have "s \<le> e" using wf by (auto simp: ranges_wf_append ranges_wf_def)
    ultimately show ?thesis
      using assms(2) unfolding hd by (auto simp: touching_iff right_of_def)
  qed
  moreover have "\<forall>(_, e) \<in> set (left_of item rs). e < fst item" by (auto simp: left_of_def)
  ultimately show ?thesis
    using inline_skip_prefix [of "left_of item rs" "fst item" ?T 0] ranges_split [OF assms] by simp
qed

lemma vec_remove_0: "vec_remove 0 xs = tl xs"
  by (simp add: vec_remove_def drop_Suc)

lemma inline_insert_touching:
  assumes wf: "ranges_wf rs" and item: "fst item \<le> snd item" and t: "touching item rs \<noteq> []"
  shows "inline_insert item rs c = Some (insert_spec item rs)"
proof -
  let ?L = "left_of item rs" and ?R = "right_of item rs"
  obtain s1 e1 M where M: "touching item rs = (s1, e1) # M" using t by (cases "touching item rs") auto
  have rs: "rs = ?L @ (s1, e1) # M @ ?R" using ranges_split [OF wf item] M by simp
  have wf': "ranges_wf ((s1, e1) # M @ ?R)" using wf rs ranges_wf_append by metis
  have hd: "fst item \<le> e1" "s1 \<le> snd item" "(s1, e1) \<in> set rs"
    using M touching_iff [of s1 e1 item rs] by auto
  have at: "rs ! length ?L = (s1, e1)" and upd: "rs[length ?L := r] = ?L @ r # M @ ?R" for r
    using rs by (metis nth_append_length, metis list_update_length)
  have len: "length ?L < length rs" using rs by (metis length_append less_add_same_cancel1 list.size(4) zero_less_Suc add_Suc_right)
  have Mt: "fst item \<le> e" "s \<le> snd item" if "(s, e) \<in> set M" for s e
    using that touching_iff [of s e item rs] M by auto
  show ?thesis
  proof (cases "e1 < snd item")
    case True
    have "\<forall>(s, _) \<in> set ?R. foldr max (map snd M) (snd item) < s"
      using foldr_max_cases [of "map snd M" "snd item"] wf'
      by (fastforce simp: right_of_def ranges_wf_Cons ranges_wf_append)
    with Mt have merge: "inline_merge (?L @ (s, snd item) # M @ ?R) (length ?L) (snd item)
        = ?L @ (s, foldr max (map snd M) (snd item)) # ?R" for s
      by (intro inline_merge_absorbs) auto
    have "\<forall>x \<in> set (map fst M). s1 \<le> x" using wf' by (fastforce simp: ranges_wf_Cons)
    then have "foldr min (map fst ((s1, e1) # M)) (fst item) = min s1 (fst item)"
      by (simp add: foldr_min_sorted)
    moreover have "e1 \<le> foldr max (map snd M) (snd item)"
      using True foldr_max_ge(1) [of "snd item" "map snd M"] by simp
    ultimately show ?thesis
      using True hd len
      by (auto simp: inline_insert_def insert_spec_def inline_skip_parts [OF wf item] M at upd merge
          Let_def split_beta max_def min_def)
  next
    case False
    then have "M = []" using Mt wf' by (cases M) (fastforce simp: ranges_wf_Cons)+
    with False hd len show ?thesis
      by (auto simp: inline_insert_def insert_spec_def inline_skip_parts [OF wf item] M at upd
          Let_def split_beta max_def min_def)
  qed
qed

lemma inline_insert_apart:
  assumes wf: "ranges_wf rs" and item: "fst item \<le> snd item" and t: "touching item rs = []"
  shows "inline_insert item rs c =
    (if length rs \<noteq> c then Some (insert_spec item rs)
     else if left_of item rs = [] then None
     else Some (insert_spec item (tl rs)))"
proof -
  let ?L = "left_of item rs" and ?R = "right_of item rs"
  have rs: "rs = ?L @ ?R" using ranges_split [OF wf item] t by simp
  have skip: "inline_skip (fst item) rs 0 = length ?L" by (rule inline_skip_parts [OF wf item])
  have R: "snd item < fst (rs ! length ?L)" if "length ?L < length rs"
  proof -
    have "rs ! length ?L \<in> set ?R" using that rs
      by (metis append_eq_conv_conj drop_eq_Nil hd_drop_conv_nth hd_in_set leD)
    then show ?thesis by (auto simp: right_of_def)
  qed
  have len: "length ?L < length rs \<longleftrightarrow> ?R \<noteq> []" using rs
    by (metis append_Nil2 length_append length_greater_0_conv less_add_same_cancel1)
  have spec: "insert_spec item rs = ?L @ item # ?R" using t by (simp add: insert_spec_def)
  have tl: "insert_spec item (tl rs) = tl ?L @ item # ?R" if ne: "?L \<noteq> []"
  proof -
    obtain s e L' where L: "?L = (s, e) # L'" using ne by (metis neq_Nil_conv surj_pair)
    then obtain rs' where rs': "rs = (s, e) # rs'" using rs by (metis append_Cons)
    have "e < fst item" using L by (auto simp: left_of_def dest: filter_eq_ConsD)
    moreover have "s \<le> e" using wf rs' by (simp add: ranges_wf_Cons)
    ultimately have "left_of item rs' = L'" "touching item rs' = []" "right_of item rs' = ?R"
      using L t item unfolding rs' by (simp_all add: parts_defs)
    then show ?thesis using L by (simp add: insert_spec_def rs')
  qed
  have tk: "take (length ?L) rs = ?L" and dr: "drop (length ?L) rs = ?R"
    using rs by (metis append_eq_conv_conj)+
  have tk': "take (length ?L - 1) (tl rs) = tl ?L" by (metis tk tl_take)
  have dr': "drop (length ?L - 1) (tl rs) = ?R" if "?L \<noteq> []"
    by (metis dr drop_Suc Suc_diff_1 length_greater_0_conv that)
  show ?thesis
  proof (cases "?R = []")
    case True
    then show ?thesis using rs len spec skip tl
      by (auto simp: inline_insert_def Let_def split_beta vec_remove_0)
  next
    case False
    with R len tl spec skip tk dr tk' dr' show ?thesis
      by (auto simp: inline_insert_def Let_def split_beta vec_insert_def vec_remove_0)
  qed
qed

subsection \<open>The tree representation computes it\<close>

lemma bt_remove_mid:
  "bt_ok (xs @ (k, v) # ys) \<Longrightarrow> bt_remove k (xs @ (k, v) # ys) = xs @ ys"
proof -
  assume ok: "bt_ok (xs @ (k, v) # ys)"
  have "filter (\<lambda>(k', _). k' \<noteq> k) xs = xs" "filter (\<lambda>(k', _). k' \<noteq> k) ys = ys"
    using ok by (intro filter_True ballI; fastforce simp: bt_ok_append bt_ok_Cons)+
  then show ?thesis by (simp add: bt_remove_def)
qed

lemma next_to_append:
  assumes "\<forall>(k, _) \<in> set L. k < start" and "\<forall>(k, _) \<in> set T. start \<le> k"
  shows "next_to start (L @ T) = (case T of [] \<Rightarrow> None | r # _ \<Rightarrow> Some r)"
proof -
  have "bt_range_from start L = []" using assms(1)
    by (auto simp: bt_range_from_def filter_empty_conv)
  moreover have "bt_range_from start T = T" using assms(2)
    by (auto simp: bt_range_from_def filter_id_conv)
  ultimately show ?thesis
    by (cases T) (simp_all add: next_to_def bt_range_from_def)
qed

lemma btree_absorb_parts:
  assumes "bt_ok (L @ M @ R)" and "\<forall>(k, _) \<in> set L. k < start"
    and "\<forall>(s, e) \<in> set M. fst item \<le> s \<and> s \<le> snd item \<and> s \<le> e"
    and "\<forall>(s, e) \<in> set R. snd item < s"
    and "start \<le> fst item" and "fst item \<le> snd item" and "snd item \<le> end"
  shows "btree_absorb item start end (L @ M @ R) = (start, foldr max (map snd M) end, L @ R)"
  using assms
proof (induction M arbitrary: "end")
  case Nil
  have "next_to start (L @ R) = (case R of [] \<Rightarrow> None | r # _ \<Rightarrow> Some r)"
    using Nil.prems by (intro next_to_append) auto
  then show ?case
    using Nil.prems by (subst btree_absorb.simps)
      (auto simp: range_contains_def range_overlaps_def split: list.splits)
next
  case (Cons m M)
  obtain s e where m: "m = (s, e)" by (cases m)
  have "next_to start (L @ m # M @ R) = Some m"
    using Cons.prems by (subst next_to_append) fastforce+
  moreover have "bt_remove s (L @ m # M @ R) = L @ M @ R"
    using Cons.prems(1) unfolding m by (simp add: bt_remove_mid)
  moreover have "range_overlaps m item \<or> range_contains item s \<and> range_contains item e"
    using Cons.prems(3) by (auto simp: m range_overlaps_def range_contains_def)
  moreover have "bt_ok (L @ M @ R)" using Cons.prems(1) by (auto simp: bt_ok_append m bt_ok_Cons)
  moreover have "min start s = start" using Cons.prems(3,5) by (auto simp: m)
  moreover have "foldr max (map snd M) (max end e) = max e (foldr max (map snd M) end)" for "end"
    by (induction M) (auto simp: max.left_commute max.commute)
  moreover have "range_contains item e \<Longrightarrow> max e (foldr max (map snd M) end) = foldr max (map snd M) end"
    using foldr_max_ge(1) [of "end" "map snd M"] Cons.prems(7)
    by (simp add: range_contains_def max_absorb2)
  ultimately show ?case
    using Cons.IH [of "end"] Cons.IH [of "max end e"] Cons.prems(2-7)
    by (subst btree_absorb.simps) (auto simp: m max.coboundedI1)
qed

lemma prev_to_parts:
  assumes wf: "ranges_wf rs" and item: "fst item \<le> snd item"
  shows "prev_to (fst item) rs =
    (case touching item rs of
       (s1, e1) # _ \<Rightarrow> if s1 \<le> fst item then Some (s1, e1) else bt_last (left_of item rs)
     | [] \<Rightarrow> bt_last (left_of item rs))"
proof -
  let ?L = "left_of item rs" and ?R = "right_of item rs"
  have rs: "rs = ?L @ touching item rs @ ?R" by (rule ranges_split [OF wf item])
  have L: "bt_range_to (fst item) ?L = ?L"
    unfolding bt_range_to_def
    by (rule filter_True) (auto simp: left_of_def dest!: ranges_wfD [OF wf])
  have R: "bt_range_to (fst item) ?R = []"
    using item by (auto simp: bt_range_to_def right_of_def filter_empty_conv)
  have app: "bt_range_to k (xs @ ys) = bt_range_to k xs @ bt_range_to k ys" for k and xs ys :: "u64 btree"
    by (simp add: bt_range_to_def)
  show ?thesis
  proof (cases "touching item rs")
    case Nil
    with L R show ?thesis by (subst rs) (simp add: prev_to_def app)
  next
    case (Cons m M)
    obtain s1 e1 where m: "m = (s1, e1)" by (cases m)
    have "fst item \<le> e1" using touching_iff [of s1 e1 item rs] Cons m by simp
    moreover have "ranges_wf (touching item rs)" using wf by (simp add: touching_def ranges_wf_filter)
    ultimately have "bt_range_to (fst item) M = []"
      using Cons m by (fastforce simp: bt_range_to_def filter_empty_conv ranges_wf_Cons)
    then have T: "bt_range_to (fst item) (touching item rs) = (if s1 \<le> fst item then [m] else [])"
      by (simp add: Cons m bt_range_to_def)
    have "bt_range_to (fst item) rs = ?L @ (if s1 \<le> fst item then [m] else [])"
      by (subst rs) (simp only: app L R T append_Nil2)
    then show ?thesis by (simp add: prev_to_def bt_last_def Cons m)
  qed
qed

lemma range_overlaps_touching:
  "fst item \<le> snd item \<Longrightarrow> s1 \<le> fst item \<Longrightarrow> fst item \<le> e1 \<Longrightarrow> range_overlaps (s1, e1) item"
  by (simp add: range_overlaps_def)

lemma range_overlaps_left:
  "fst item \<le> snd item \<Longrightarrow> r \<in> set (left_of item rs) \<Longrightarrow> \<not> range_overlaps r item"
  by (auto simp: range_overlaps_def left_of_def)

lemma bt_insert_parts:
  assumes "\<forall>(k, _) \<in> set L. k < s" and "\<forall>(k, _) \<in> set R. s < k"
  shows "bt_insert s e (L @ R) = L @ (s, e) # R"
  using assms by (induction L) (cases R, auto)+

lemma ranges_wf_tl: "ranges_wf rs \<Longrightarrow> ranges_wf (tl rs)"
  by (cases rs) (auto simp: ranges_wf_Cons)

lemma touching_tl: "touching item rs = [] \<Longrightarrow> touching item (tl rs) = []"
  by (cases rs) (auto simp: touching_def split: if_splits)

lemma bt_insert_apart:
  assumes wf: "ranges_wf rs" and item: "fst item \<le> snd item" and "touching item rs = []"
  shows "bt_insert (fst item) (snd item) rs = insert_spec item rs"
proof -
  have "rs = left_of item rs @ right_of item rs"
    using ranges_split [OF wf item] assms(3) by simp
  moreover have "\<forall>(k, _) \<in> set (left_of item rs). k < fst item"
    by (auto simp: left_of_def dest!: ranges_wfD [OF wf])
  moreover have "\<forall>(k, _) \<in> set (right_of item rs). fst item < k"
    using item by (auto simp: right_of_def)
  ultimately show ?thesis
    using bt_insert_parts [of "left_of item rs" "fst item" "right_of item rs" "snd item"] assms(3)
    by (simp add: insert_spec_def)
qed

lemma btree_insert_eq:
  assumes wf: "ranges_wf rs" and item: "fst item \<le> snd item" and c: "length rs \<le> c"
  shows "btree_insert item rs c =
    (if touching item rs = [] \<and> length rs = c then insert_spec item (tl rs)
     else insert_spec item rs)"
proof -
  let ?L = "left_of item rs" and ?R = "right_of item rs" and ?T = "touching item rs"
  have rs: "rs = ?L @ ?T @ ?R" by (rule ranges_split [OF wf item])
  have ok: "bt_ok (?L @ ?T @ ?R)" using ranges_wf_bt_ok [OF wf] rs by simp
  have L: "\<forall>(k, _) \<in> set ?L. k < fst item"
    by (auto simp: left_of_def dest!: ranges_wfD [OF wf])
  have R: "\<forall>(s, e) \<in> set ?R. snd item < s" by (auto simp: right_of_def)
  have Twf: "ranges_wf ?T" using wf by (simp add: touching_def ranges_wf_filter)
  have prevL: "\<not> range_overlaps r item" if "bt_last ?L = Some r" for r
    using that range_overlaps_left [OF item, of r rs] by (auto simp: bt_last_def split: if_splits)
  show ?thesis
  proof (cases "\<exists>s1 e1 M. ?T = (s1, e1) # M \<and> s1 \<le> fst item")
    case True
    then obtain s1 e1 M where T: "?T = (s1, e1) # M" "s1 \<le> fst item" by blast
    have e1: "fst item \<le> e1" using touching_iff [of s1 e1 item rs] T by simp
    have "\<forall>(k, _) \<in> set ?L. k < s1" using ok T by (auto simp: bt_ok_append)
    moreover have "\<forall>(s, e) \<in> set M. fst item \<le> s \<and> s \<le> snd item \<and> s \<le> e"
      using Twf T e1 touching_iff [of _ _ item rs] by (fastforce simp: ranges_wf_Cons dest: ranges_wfD)
    moreover have "bt_ok (?L @ M @ ?R)" using ok T by (auto simp: bt_ok_append bt_ok_Cons)
    ultimately have absorb: "btree_absorb item s1 (max (snd item) e1) (?L @ M @ ?R)
        = (s1, foldr max (map snd M) (max (snd item) e1), ?L @ ?R)"
      using R T(2) item by (intro btree_absorb_parts) auto
    have rem: "bt_remove s1 rs = ?L @ M @ ?R"
      using ok T by (subst rs) (simp add: bt_remove_mid)
    have len: "length (?L @ ?R) < c" using c arg_cong [OF rs, of length] T by simp
    have ins: "bt_insert s1 h (?L @ ?R) = ?L @ (s1, h) # ?R" for h
      using \<open>\<forall>(k, _) \<in> set ?L. k < s1\<close> R T(2) item by (intro bt_insert_parts) auto
    have "\<forall>x \<in> set (map fst M). s1 \<le> x" using Twf T(1) by (fastforce simp: ranges_wf_Cons)
    then have lo: "min s1 (foldr min (map fst M) (fst item)) = s1"
      using T by (simp add: foldr_min_sorted min_absorb1)
    have hi: "foldr max (map snd M) (max (snd item) e1) = foldr max (map snd ?T) (snd item)"
      by (subst T(1)) (simp add: foldr_max_out)
    show ?thesis
      using prev_to_parts [OF wf item] T range_overlaps_touching [OF item T(2) e1] absorb rem len ins
      by (simp add: btree_insert_def insert_spec_def lo hi Let_def min_absorb2)
  next
    case False
    have T: "\<forall>(s, e) \<in> set ?T. fst item \<le> s \<and> s \<le> snd item \<and> s \<le> e"
    proof (cases ?T)
      case (Cons m M)
      obtain s1 e1 where m: "m = (s1, e1)" by (cases m)
      have lt: "fst item < s1" using False Cons m by auto
      have "fst item \<le> s \<and> s \<le> snd item \<and> s \<le> e" if t: "(s, e) \<in> set ?T" for s e
      proof -
        have "s1 \<le> s" using Twf t ranges_wfD [OF Twf t] unfolding Cons m
          by (fastforce simp: ranges_wf_Cons)
        with lt t ranges_wfD [OF Twf t] show ?thesis by (simp add: touching_iff)
      qed
      then show ?thesis by blast
    qed simp
    have prev: "prev_to (fst item) rs = bt_last ?L"
      using prev_to_parts [OF wf item] False by (auto split: list.splits)
    have absorb: "btree_absorb item (fst item) (snd item) rs
        = (fst item, foldr max (map snd ?T) (snd item), ?L @ ?R)"
      using btree_absorb_parts [OF ok L T R order_refl item order_refl] rs by simp
    have lo: "foldr min (map fst ?T) (fst item) = fst item"
      using T foldr_min_cases [of "map fst ?T" "fst item"] foldr_min_le(1) [of "map fst ?T" "fst item"]
      by fastforce
    have ins: "bt_insert (fst item) h (?L @ ?R) = ?L @ (fst item, h) # ?R" for h
      using L R item by (intro bt_insert_parts) auto
    show ?thesis
    proof (cases "?T = [] \<and> length rs = c")
      case True
      then have "bt_insert (fst item) (snd item) (tl rs) = insert_spec item (tl rs)"
        using ranges_wf_tl [OF wf] item touching_tl [of item rs] by (intro bt_insert_apart) auto
      with True rs absorb prev prevL show ?thesis
        by (auto simp: btree_insert_def Let_def bt_pop_first_def split: option.splits)
    next
      case False
      then have "length (?L @ ?R) < c" using c arg_cong [OF rs, of length] by (cases ?T) auto
      with False absorb prev prevL ins lo show ?thesis
        by (auto simp: btree_insert_def insert_spec_def Let_def split: option.splits)
    qed
  qed
qed

subsection \<open>Removing a prefix\<close>

lemma trim_spec_beyond:
  assumes "\<forall>(s, e) \<in> set rs. largest < s \<and> s < e"
  shows "trim_spec largest rs = rs"
proof -
  have "filter (\<lambda>(_, e). largest + 1 < e) rs = rs" using assms by (intro filter_True) auto
  then show ?thesis
    using assms by (auto simp: trim_spec_def max_def intro!: map_idI)
qed

lemma inline_remove_until_eq:
  "ranges_wf rs \<Longrightarrow> ranges_nonempty rs \<Longrightarrow> inline_remove_until largest rs = trim_spec largest rs"
proof (induction largest rs rule: inline_remove_until.induct)
  case (2 largest s e rest)
  show ?case
  proof (cases "largest \<ge> e")
    case True
    with 2 show ?thesis by (simp add: ranges_wf_Cons ranges_nonempty_def trim_spec_def)
  next
    case False
    have "trim_spec largest rest = rest"
      using 2 False by (intro trim_spec_beyond) (fastforce simp: ranges_wf_Cons ranges_nonempty_def)
    with 2 False show ?thesis
      by (auto simp: trim_spec_def ranges_nonempty_def Let_def max_def)
  qed
qed (simp add: trim_spec_def)

lemma covered_trim_spec: "covered (trim_spec largest rs) = covered rs \<inter> {largest<..}"
  by (auto simp: covered_def trim_spec_def)

lemma trim_spec_wf: "ranges_wf rs \<Longrightarrow> ranges_wf (trim_spec largest rs)"
proof (induction rs)
  case (Cons r rs)
  then show ?case
    by (cases r) (fastforce simp: trim_spec_def ranges_wf_Cons less_max_iff_disj)
qed (simp add: trim_spec_def)

lemma btree_remove_loop_eq:
  assumes "ranges_wf (P @ Q)" and "ranges_nonempty (P @ Q)" and "length (P @ Q) \<le> c"
    and "\<forall>(s, _) \<in> set P. s \<le> largest" and "\<forall>(s, _) \<in> set Q. largest < s" and "largest < u64_max"
  shows "btree_remove_loop largest P (P @ Q) c = Some (trim_spec largest P @ Q)"
  using assms
proof (induction P)
  case Nil
  then show ?case by (simp add: trim_spec_def)
next
  case (Cons r P)
  obtain s e where r: "r = (s, e)" by (cases r)
  have rem: "bt_remove s (r # P @ Q) = P @ Q"
    using bt_remove_mid [of "[]" s e "P @ Q"] ranges_wf_bt_ok [OF Cons.prems(1)] by (simp add: r)
  have add: "u64_add largest 1 = Some (largest + 1)" using Cons.prems(6) by simp
  show ?case
  proof (cases "e > largest + 1")
    case True
    then have P: "P = []"
      using Cons.prems(1,4) by (cases P) (fastforce simp: r ranges_wf_Cons)+
    have t: "touching (largest + 1, e) Q = []" "left_of (largest + 1, e) Q = []"
        "right_of (largest + 1, e) Q = Q"
      using Cons.prems(1,2,5) unfolding P r parts_defs
      by (force simp: ranges_wf_Cons ranges_nonempty_def filter_empty_conv filter_id_conv)+
    have "btree_insert (largest + 1, e) Q c = (largest + 1, e) # Q"
      using btree_insert_eq [of Q "(largest + 1, e)" c] t Cons.prems True
      by (simp add: insert_spec_def r P ranges_wf_Cons)
    with True rem add P Cons.prems(4) show ?thesis
      by (simp add: r trim_spec_def max_def)
  next
    case False
    then have "trim_spec largest (r # P) = trim_spec largest P" by (simp add: trim_spec_def r)
    with Cons False rem add show ?thesis
      by (simp add: r ranges_wf_Cons ranges_nonempty_def)
  qed
qed

lemma ranges_wf_partition:
  "ranges_wf rs \<Longrightarrow> rs = bt_range_to x rs @ filter (\<lambda>(s, _). x < s) rs"
proof (induction rs)
  case (Cons r rs)
  obtain s e where r: "r = (s, e)" by (cases r)
  show ?case
  proof (cases "s \<le> x")
    case True
    with Cons show ?thesis by (simp add: r bt_range_to_def ranges_wf_Cons)
  next
    case False
    then have "\<forall>p \<in> set rs. x < fst p"
      using Cons.prems by (fastforce simp: r ranges_wf_Cons)
    then have "bt_range_to x rs = []" "filter (\<lambda>(s, _). x < s) rs = rs"
      by (auto simp: bt_range_to_def filter_empty_conv filter_id_conv)
    with False show ?thesis by (simp add: r bt_range_to_def)
  qed
qed (simp add: bt_range_to_def)

lemma btree_remove_until_eq:
  assumes wf: "ranges_wf rs" and ne: "ranges_nonempty rs" and "length rs \<le> c" and "largest < u64_max"
  shows "btree_remove_until largest rs c = Some (trim_spec largest rs)"
proof -
  let ?P = "bt_range_to largest rs" and ?Q = "filter (\<lambda>(s, _). largest < s) rs"
  have split: "rs = ?P @ ?Q" by (rule ranges_wf_partition [OF wf])
  have Q: "trim_spec largest ?Q = ?Q"
    using ne by (intro trim_spec_beyond) (auto simp: ranges_nonempty_def)
  have "btree_remove_loop largest ?P (?P @ ?Q) c = Some (trim_spec largest ?P @ ?Q)"
    by (rule btree_remove_loop_eq)
      (use assms split in \<open>auto simp: bt_range_to_def\<close>)
  moreover have "trim_spec largest rs = trim_spec largest ?P @ trim_spec largest ?Q"
    by (subst split) (simp add: trim_spec_def)
  ultimately show ?thesis using split Q by (simp add: btree_remove_until_def)
qed

subsection \<open>The range set as a whole\<close>

lemma foldl_bt_insert:
  "bt_ok (m @ rs) \<Longrightarrow> foldl (\<lambda>m (s, e). bt_insert s e m) m rs = m @ rs"
proof (induction rs arbitrary: m)
  case (Cons r rs)
  obtain s e where r: "r = (s, e)" by (cases r)
  have "bt_insert s e (m @ []) = m @ [(s, e)]"
    using Cons.prems by (intro bt_insert_parts) (auto simp: r bt_ok_append)
  with Cons.IH [of "m @ [r]"] Cons.prems show ?case by (simp add: r)
qed simp

lemma rs_iter_inner: "rs_iter r = rs_inner r"
  by (cases r) (simp_all add: rs_iter_def)

lemma fixup_iter:
  assumes "ranges_wf (rs_inner r)"
  shows "rs_inner (fixup r) = rs_inner r" and "rs_capacity (fixup r) = rs_capacity r"
  using foldl_bt_insert [of "[]"] ranges_wf_bt_ok [OF assms] by (cases r; auto)+

lemma fixup_wf:
  assumes "ranges_wf (rs_inner r)" and "length (rs_inner r) \<le> rs_capacity r"
    and "is_Inline r \<Longrightarrow> length (rs_inner r) \<le> MAX_INLINE_CAPACITY"
  shows "rs_wf (fixup r)"
proof (cases r)
  case (Inline i c)
  then show ?thesis
    using assms foldl_bt_insert [of "[]" i] ranges_wf_bt_ok [of i]
    by (auto simp: rs_wf_def MAX_INLINE_CAPACITY_def MIN_TO_INLINE_def)
next
  case (BTree m c)
  then show ?thesis using assms
    by (auto simp: rs_wf_def MAX_INLINE_CAPACITY_def MIN_TO_INLINE_def)
qed

lemma length_parts:
  assumes "ranges_wf rs" and "fst item \<le> snd item"
  shows "length rs = length (left_of item rs) + length (touching item rs) + length (right_of item rs)"
  using arg_cong [OF ranges_split [OF assms], of length] by simp

lemma length_insert_spec:
  assumes "ranges_wf rs" and "fst item \<le> snd item"
  shows "length (insert_spec item rs) \<le> (if touching item rs = [] then Suc (length rs) else length rs)"
  using length_parts [OF assms] by (cases "touching item rs") (auto simp: insert_spec_def)

lemma rs_insert_spec:
  assumes wf: "rs_wf r" and item: "fst item \<le> snd item"
    and room: "touching item (rs_iter r) \<noteq> [] \<or> length (rs_iter r) < rs_capacity r"
  shows "\<exists>r'. rs_insert item r = Some r' \<and> rs_wf r' \<and> rs_capacity r' = rs_capacity r
           \<and> rs_iter r' = insert_spec item (rs_iter r)"
proof -
  let ?rs = "rs_inner r"
  have rs: "ranges_wf ?rs" "length ?rs \<le> rs_capacity r" using wf by (simp_all add: rs_wf_def)
  have new: "ranges_wf (insert_spec item ?rs)" using insert_spec_wf [OF rs(1) item] .
  have len: "length (insert_spec item ?rs) \<le> rs_capacity r"
    using length_insert_spec [OF rs(1) item] room rs(2) by (auto simp: rs_iter_inner split: if_splits)
  show ?thesis
  proof (cases r)
    case (Inline i c)
    have "inline_insert item i c = Some (insert_spec item i)"
      using inline_insert_touching [of i item c] inline_insert_apart [of i item c] rs item room Inline
      by (cases "touching item i = []") (auto simp: rs_iter_inner)
    moreover have "length (insert_spec item i) \<le> MAX_INLINE_CAPACITY"
      using length_insert_spec [OF rs(1) item] wf Inline by (auto simp: rs_wf_def split: if_splits)
    ultimately show ?thesis
      using Inline new len fixup_wf [of "Inline (insert_spec item i) c"]
        fixup_iter [of "Inline (insert_spec item i) c"]
      by (simp add: rs_iter_inner)
  next
    case (BTree m c)
    have "btree_insert item m c = insert_spec item m"
      using btree_insert_eq [of m item c] rs item room BTree by (auto simp: rs_iter_inner)
    then show ?thesis
      using BTree new len fixup_wf [of "BTree (insert_spec item m) c"]
        fixup_iter [of "BTree (insert_spec item m) c"]
      by (simp add: rs_iter_inner)
  qed
qed

lemma rs_insert_full:
  assumes wf: "rs_wf r" and item: "fst item \<le> snd item"
    and full: "length (rs_iter r) = rs_capacity r" and apart: "touching item (rs_iter r) = []"
    and r': "rs_insert item r = Some r'"
  shows "rs_iter r' = insert_spec item (tl (rs_iter r))"
proof -
  let ?rs = "rs_inner r"
  have rs: "ranges_wf ?rs" "length ?rs = rs_capacity r" "touching item ?rs = []"
    using wf full apart by (simp_all add: rs_wf_def rs_iter_inner)
  have new: "ranges_wf (insert_spec item (tl ?rs))"
    by (rule insert_spec_wf [OF ranges_wf_tl [OF rs(1)] item])
  show ?thesis
  proof (cases r)
    case (Inline i c)
    then have "fixup (Inline (insert_spec item (tl i)) c) = r'"
      using r' inline_insert_apart [of i item c] rs item by (auto split: if_splits)
    with new Inline show ?thesis
      using fixup_iter(1) [of "Inline (insert_spec item (tl i)) c"] by (simp add: rs_iter_inner)
  next
    case (BTree m c)
    have "btree_insert item m c = insert_spec item (tl m)"
      using btree_insert_eq [of m item c] rs item BTree by auto
    then have "fixup (BTree (insert_spec item (tl m)) c) = r'"
      using r' BTree by simp
    with new BTree show ?thesis
      using fixup_iter(1) [of "BTree (insert_spec item (tl m)) c"] by (simp add: rs_iter_inner)
  qed
qed

lemma sorted_flatten:
  "ranges_wf rs \<Longrightarrow> sorted_wrt (<) (concat (map (\<lambda>(s, e). [s..<e]) rs))"
proof (induction rs)
  case (Cons r rs)
  then show ?case
    by (cases r) (fastforce simp: ranges_wf_Cons sorted_wrt_append)
qed simp

lemma rs_iter_new [simp]: "rs_iter (rs_new c) = []" "rs_iter rs_default = []"
  by (simp_all add: rs_iter_def rs_new_def rs_default_def)

lemma rs_wf_new [simp]: "rs_wf (rs_new c)" "rs_wf rs_default"
  by (simp_all add: rs_wf_def rs_new_def rs_default_def MAX_INLINE_CAPACITY_def)

subsection \<open>Properties\<close>

text \<open>
  C28: inserting a range into a well-formed set with room for it (or that it touches) does
  not panic, keeps the set well-formed, and adds exactly the values of the range.
\<close>

theorem rs_insert_adds_range:
  assumes "rs_wf r" and "s \<le> e"
    and "length (rs_iter r) < rs_capacity r \<or> touching (s, e) (rs_iter r) \<noteq> []"
  shows "\<exists>r'. rs_insert (s, e) r = Some r' \<and> rs_wf r' \<and> rs_capacity r' = rs_capacity r
           \<and> covered (rs_iter r') = covered (rs_iter r) \<union> {s..<e}"
proof -
  obtain r' where "rs_insert (s, e) r = Some r'" "rs_wf r'" "rs_capacity r' = rs_capacity r"
    "rs_iter r' = insert_spec (s, e) (rs_iter r)"
    using rs_insert_spec [of r "(s, e)"] assms by auto
  moreover have "ranges_wf (rs_iter r)" using assms(1) by (simp add: rs_wf_def rs_iter_inner)
  ultimately show ?thesis using covered_insert_spec [of "rs_iter r" "(s, e)"] assms(2) by auto
qed

theorem rs_insert_adds_range_witness:
  "\<exists>r'. rs_insert (2, 9) (Inline [(1, 3), (8, 10), (20, 21)] 68) = Some r' \<and> rs_wf r'
     \<and> rs_capacity r' = 68
     \<and> covered (rs_iter r') = covered [(1, 3), (8, 10), (20, 21)] \<union> {2..<9}"
  using rs_insert_adds_range [of "Inline [(1, 3), (8, 10), (20, 21)] 68" 2 9]
  by (simp add: rs_wf_def ranges_wf_def MAX_INLINE_CAPACITY_def rs_iter_def)

text \<open>
  C29: on every well-formed list of ranges, below capacity or touched by the new range, the
  inline insertion and the tree insertion compute the same list.
\<close>

theorem inline_insert_btree_insert:
  assumes "ranges_wf rs" and "s \<le> e" and "length rs \<le> c"
    and "length rs < c \<or> touching (s, e) rs \<noteq> []"
  shows "inline_insert (s, e) rs c = Some (btree_insert (s, e) rs c)"
  using assms inline_insert_touching [of rs "(s, e)" c] inline_insert_apart [of rs "(s, e)" c]
    btree_insert_eq [of rs "(s, e)" c]
  by (cases "touching (s, e) rs = []") auto

theorem inline_insert_btree_insert_witness:
  "inline_insert (2, 9) [(1, 3), (8, 10)] 68 = Some (btree_insert (2, 9) [(1, 3), (8, 10)] 68)"
  by (rule inline_insert_btree_insert) (simp_all add: ranges_wf_def)

text \<open>
  C31: a full set treats a range that touches nothing in two ways.  The inline form panics
  (its insertion index underflows) exactly when the range lies below all stored ones; the
  tree form drops the lowest stored range and keeps the new one, even when the new one is
  lower still.
\<close>

theorem insert_into_full_set:
  assumes "ranges_wf rs" and "s \<le> e" and "length rs = c" and "touching (s, e) rs = []"
  shows "(inline_insert (s, e) rs c = None \<longleftrightarrow> left_of (s, e) rs = [])
         \<and> btree_insert (s, e) rs c = insert_spec (s, e) (tl rs)"
  using assms inline_insert_apart [of rs "(s, e)" c] btree_insert_eq [of rs "(s, e)" c] by auto

theorem insert_into_full_set_witness:
  "inline_insert (1, 2) [(10, 11), (20, 21)] 2 = None
   \<and> btree_insert (1, 2) [(10, 11), (20, 21)] 2 = insert_spec (1, 2) [(20, 21)]"
  using insert_into_full_set [of "[(10, 11), (20, 21)]" 1 2 2]
  by (simp add: ranges_wf_def touching_def left_of_def)

text \<open>
  C30: removing everything up to \<open>largest\<close> leaves exactly the larger values, in either
  representation, and keeps the set well-formed.
\<close>

theorem rs_remove_until_keeps_larger:
  assumes wf: "rs_wf r" and ne: "ranges_nonempty (rs_iter r)" and "largest < u64_max"
  shows "\<exists>r'. rs_remove_until largest r = Some r' \<and> rs_wf r'
           \<and> covered (rs_iter r') = covered (rs_iter r) \<inter> {largest<..}"
proof -
  let ?rs = "rs_inner r"
  have rs: "ranges_wf ?rs" "ranges_nonempty ?rs" "length ?rs \<le> rs_capacity r"
    using wf ne by (simp_all add: rs_wf_def rs_iter_inner)
  have t: "ranges_wf (trim_spec largest ?rs)" "length (trim_spec largest ?rs) \<le> length ?rs"
    using trim_spec_wf [OF rs(1)] by (simp_all add: trim_spec_def)
  show ?thesis
  proof (cases r)
    case (Inline i c)
    with wf rs t show ?thesis
      using fixup_wf [of "Inline (trim_spec largest i) c"] fixup_iter(1) [of "Inline (trim_spec largest i) c"]
      by (auto simp: inline_remove_until_eq rs_iter_inner covered_trim_spec rs_wf_def)
  next
    case (BTree m c)
    with rs t assms(3) show ?thesis
      using fixup_wf [of "BTree (trim_spec largest m) c"] fixup_iter(1) [of "BTree (trim_spec largest m) c"]
      by (auto simp: btree_remove_until_eq rs_iter_inner covered_trim_spec)
  qed
qed

theorem rs_remove_until_keeps_larger_witness:
  "\<exists>r'. rs_remove_until 12 (BTree [(1, 3), (8, 10), (12, 21)] 68) = Some r' \<and> rs_wf r'
     \<and> covered (rs_iter r') = covered [(1, 3), (8, 10), (12, 21)] \<inter> {12<..}"
  using rs_remove_until_keeps_larger [of "BTree [(1, 3), (8, 10), (12, 21)] 68" 12]
  by (simp add: rs_wf_def ranges_wf_def ranges_nonempty_def MIN_TO_INLINE_def rs_iter_def)

text \<open>
  \<^verbatim>\<open>flatten\<close> enumerates the covered values once each, in increasing order.
\<close>

theorem rs_flatten_enumerates:
  assumes "rs_wf r"
  shows "sorted_wrt (<) (rs_flatten r) \<and> set (rs_flatten r) = covered (rs_iter r)"
  using assms sorted_flatten [of "rs_iter r"]
  by (auto simp: rs_flatten_def rs_wf_def rs_iter_inner covered_def)

theorem rs_flatten_enumerates_witness:
  "sorted_wrt (<) (rs_flatten (Inline [(4, 7), (9, 12)] 68))
   \<and> set (rs_flatten (Inline [(4, 7), (9, 12)] 68)) = covered [(4, 7), (9, 12)]"
  using rs_flatten_enumerates [of "Inline [(4, 7), (9, 12)] 68"]
  by (simp add: rs_wf_def ranges_wf_def MAX_INLINE_CAPACITY_def rs_iter_def)

end
