(* ===== verification/FlowControl.thy ===== *)
theory FlowControl
  imports Quiche_Prelude
begin

text \<open>
  Receiver-side flow control: the window, the advertised limit and the autotuning of
  \<^verbatim>\<open>quiche/src/flowcontrol.rs\<close>.  Instants and durations are natural numbers of
  nanoseconds (the difference of two instants saturates at zero, as
  \<^verbatim>\<open>Instant - Instant\<close> does).  An operation whose arithmetic can leave \<^verbatim>\<open>u64\<close> returns an
  option, \<open>None\<close> being the overflow panic.
\<close>

type_synonym instant = nat
type_synonym duration = nat

definition WINDOW_INCREASE_FACTOR :: u64 where "WINDOW_INCREASE_FACTOR = 2"

definition WINDOW_TRIGGER_FACTOR :: nat where "WINDOW_TRIGGER_FACTOR = 2"

record flow_control =
  fc_consumed :: u64
  fc_max_data :: u64
  fc_window :: u64
  fc_max_window :: u64
  fc_last_update :: "instant option"

definition fc_new :: "u64 \<Rightarrow> u64 \<Rightarrow> u64 \<Rightarrow> flow_control" where
  "fc_new max_data window max_window =
     \<lparr>fc_consumed = 0, fc_max_data = max_data, fc_window = window,
      fc_max_window = max_window, fc_last_update = None\<rparr>"

definition fc_add_consumed :: "u64 \<Rightarrow> flow_control \<Rightarrow> flow_control option" where
  "fc_add_consumed n fc =
     map_option (\<lambda>c. fc\<lparr>fc_consumed := c\<rparr>) (u64_add (fc_consumed fc) n)"

definition fc_should_update_max_data :: "flow_control \<Rightarrow> bool option" where
  "fc_should_update_max_data fc =
     map_option (\<lambda>available_window. available_window < fc_window fc div 2)
       (u64_sub (fc_max_data fc) (fc_consumed fc))"

definition fc_max_data_next :: "flow_control \<Rightarrow> u64 option" where
  "fc_max_data_next fc = u64_add (fc_consumed fc) (fc_window fc)"

definition fc_update_max_data :: "instant \<Rightarrow> flow_control \<Rightarrow> flow_control option" where
  "fc_update_max_data now fc =
     map_option (\<lambda>m. fc\<lparr>fc_max_data := m, fc_last_update := Some now\<rparr>)
       (fc_max_data_next fc)"

definition fc_autotune_window ::
  "instant \<Rightarrow> duration \<Rightarrow> flow_control \<Rightarrow> flow_control option" where
  "fc_autotune_window now rtt fc =
     (case fc_last_update fc of
        None \<Rightarrow> Some fc
      | Some last_update \<Rightarrow>
          if now - last_update < rtt * WINDOW_TRIGGER_FACTOR
          then map_option (\<lambda>w. fc\<lparr>fc_window := min w (fc_max_window fc)\<rparr>)
                 (u64_mul (fc_window fc) WINDOW_INCREASE_FACTOR)
          else Some fc)"

definition fc_ensure_window_lower_bound :: "u64 \<Rightarrow> flow_control \<Rightarrow> flow_control" where
  "fc_ensure_window_lower_bound min_window fc =
     (if min_window > fc_window fc then fc\<lparr>fc_window := min_window\<rparr> else fc)"

subsection \<open>Invariant\<close>

text \<open>
  The peer never gets past the limit, and the numbers stay in the range of QUIC
  variable-length integers, far from the end of \<^verbatim>\<open>u64\<close>.
\<close>

definition fc_ok :: "flow_control \<Rightarrow> bool" where
  "fc_ok fc \<longleftrightarrow>
     fc_consumed fc \<le> fc_max_data fc \<and> fc_max_data fc < 2 ^ 62
     \<and> fc_window fc < 2 ^ 62 \<and> fc_max_window fc < 2 ^ 62"

lemma fc_new_ok [keeps_inv]:
  "max_data < 2 ^ 62 \<Longrightarrow> window < 2 ^ 62 \<Longrightarrow> max_window < 2 ^ 62 \<Longrightarrow>
   fc_ok (fc_new max_data window max_window)"
  by (simp add: fc_ok_def fc_new_def)

lemma fc_add_consumed_ok [keeps_inv]:
  "fc_ok fc \<Longrightarrow> fc_consumed fc + n \<le> fc_max_data fc \<Longrightarrow>
   fc_add_consumed n fc = Some (fc\<lparr>fc_consumed := fc_consumed fc + n\<rparr>)
   \<and> fc_ok (fc\<lparr>fc_consumed := fc_consumed fc + n\<rparr>)"
  by (simp add: fc_ok_def fc_add_consumed_def)

lemma fc_should_update_ok [panic_free]:
  "fc_ok fc \<Longrightarrow>
   fc_should_update_max_data fc
     = Some (fc_max_data fc - fc_consumed fc < fc_window fc div 2)"
  by (simp add: fc_ok_def fc_should_update_max_data_def)

lemma fc_autotune_eq:
  "fc_ok fc \<Longrightarrow>
   fc_autotune_window now rtt fc =
     Some (case fc_last_update fc of
             None \<Rightarrow> fc
           | Some t \<Rightarrow> if now - t < 2 * rtt
                        then fc\<lparr>fc_window := min (2 * fc_window fc) (fc_max_window fc)\<rparr> else fc)"
  by (simp add: fc_autotune_window_def fc_ok_def u64_mul_def WINDOW_INCREASE_FACTOR_def
      WINDOW_TRIGGER_FACTOR_def mult.commute split: option.split)

subsection \<open>Properties\<close>



text \<open>
  Autotuning doubles the window, up to its cap, exactly when the previous limit was
  committed less than two round trips ago; otherwise nothing changes.
\<close>

theorem fc_autotune_doubles_window:
  assumes "fc_ok fc" and "fc_last_update fc = Some t"
  shows "fc_autotune_window now rtt fc =
           Some (if now - t < 2 * rtt
                 then fc\<lparr>fc_window := min (2 * fc_window fc) (fc_max_window fc)\<rparr> else fc)"
  using assms by (simp add: fc_autotune_eq)

theorem fc_autotune_doubles_window_witness:
  "fc_autotune_window 7 5
     \<lparr>fc_consumed = 60, fc_max_data = 100, fc_window = 100,
      fc_max_window = 150, fc_last_update = Some 0\<rparr>
   = Some \<lparr>fc_consumed = 60, fc_max_data = 100, fc_window = 150,
           fc_max_window = 150, fc_last_update = Some 0\<rparr>"
  using fc_autotune_doubles_window
    [of "\<lparr>fc_consumed = 60, fc_max_data = 100, fc_window = 100,
          fc_max_window = 150, fc_last_update = Some 0\<rparr>" 0 7 5]
  by (simp add: fc_ok_def)

end
