(* ===== verification/RangeBuf.thy ===== *)
theory RangeBuf
  imports Quiche_Prelude
begin

text \<open>
  \<^verbatim>\<open>RangeBuf\<close> of \<^verbatim>\<open>quiche/src/stream/mod.rs\<close>: a view into a shared byte vector, together
  with its offset in the stream.  The data of an \<^verbatim>\<open>Arc<Vec<u8>>\<close> is never mutated, so
  sharing it is copying it.

  Every buffer the code makes (by \<open>rb_from\<close>, \<open>rb_split_off\<close> and a \<open>rb_consume\<close> of at most
  \<open>rb_length\<close> bytes) satisfies \<open>rb_ok\<close>, under which no subtraction below goes under zero.
  A buffer is \<open>fresh\<close> until bytes of it are consumed.  \<open>rb_map\<close> is what a buffer says about
  its stream: the partial map from stream offsets to bytes, and \<open>span\<close> its domain.
\<close>

record range_buf =
  rb_data :: "byte list"
  rb_start :: usize
  rb_pos :: usize
  rb_len :: usize
  rb_offset :: u64
  rb_fin :: bool

definition rb_from :: "byte list \<Rightarrow> u64 \<Rightarrow> bool \<Rightarrow> range_buf" where
  "rb_from buf off fin =
     \<lparr>rb_data = buf, rb_start = 0, rb_pos = 0, rb_len = length buf, rb_offset = off, rb_fin = fin\<rparr>"

definition rb_off :: "range_buf \<Rightarrow> u64" where
  "rb_off b = (rb_offset b - rb_start b) + rb_pos b"

definition rb_length :: "range_buf \<Rightarrow> usize" where
  "rb_length b = rb_len b - (rb_pos b - rb_start b)"

definition rb_max_off :: "range_buf \<Rightarrow> u64" where
  "rb_max_off b = rb_off b + rb_length b"

definition rb_is_empty :: "range_buf \<Rightarrow> bool" where
  "rb_is_empty b \<longleftrightarrow> rb_length b = 0"

definition rb_consume :: "usize \<Rightarrow> range_buf \<Rightarrow> range_buf" where
  "rb_consume count b = b\<lparr>rb_pos := rb_pos b + count\<rparr>"

text \<open>The pair is the shortened \<^verbatim>\<open>self\<close> and the returned buffer; \<open>None\<close> is the assertion.\<close>

definition rb_split_off :: "usize \<Rightarrow> range_buf \<Rightarrow> (range_buf \<times> range_buf) option" where
  "rb_split_off at b =
     (if at \<le> rb_len b
      then Some
        (b\<lparr>rb_pos := min (rb_pos b) (rb_start b + at), rb_len := at, rb_fin := False\<rparr>,
         \<lparr>rb_data = rb_data b, rb_start = rb_start b + at,
          rb_pos = max (rb_pos b) (rb_start b + at), rb_len = rb_len b - at,
          rb_offset = rb_offset b + at, rb_fin = rb_fin b\<rparr>)
      else None)"

definition rb_deref :: "range_buf \<Rightarrow> byte list" where
  "rb_deref b = seg (rb_pos b) (rb_start b + rb_len b - rb_pos b) (rb_data b)"

subsection \<open>Invariant and contents\<close>

definition rb_ok :: "range_buf \<Rightarrow> bool" where
  "rb_ok b \<longleftrightarrow>
     rb_start b \<le> rb_pos b \<and> rb_pos b \<le> rb_start b + rb_len b
     \<and> rb_start b + rb_len b \<le> length (rb_data b) \<and> rb_start b \<le> rb_offset b"

definition fresh :: "range_buf \<Rightarrow> bool" where
  "fresh b \<longleftrightarrow> rb_ok b \<and> rb_pos b = rb_start b"

definition rb_map :: "range_buf \<Rightarrow> u64 \<rightharpoonup> byte" where
  "rb_map b = (\<lambda>i. if rb_off b \<le> i \<and> i < rb_max_off b
                   then Some (rb_deref b ! (i - rb_off b)) else None)"

definition span :: "range_buf \<Rightarrow> u64 set" where
  "span b = {rb_off b..<rb_max_off b}"

lemma fresh_ok: "fresh b \<Longrightarrow> rb_ok b"
  by (simp add: fresh_def)

lemma rb_length_deref: "rb_ok b \<Longrightarrow> length (rb_deref b) = rb_length b"
  by (auto simp: rb_ok_def rb_deref_def rb_length_def)

lemma dom_rb_map: "dom (rb_map b) = {rb_off b..<rb_max_off b}"
  by (auto simp: rb_map_def dom_def)

lemma rb_off_le_max_off [simp]: "rb_off b \<le> rb_max_off b"
  by (simp add: rb_max_off_def)

lemma rb_is_empty_iff: "rb_is_empty b \<longleftrightarrow> rb_max_off b = rb_off b"
  by (simp add: rb_is_empty_def rb_max_off_def)

lemma rb_map_nth:
  "rb_ok b \<Longrightarrow> rb_off b \<le> i \<Longrightarrow> i < rb_max_off b \<Longrightarrow>
   rb_map b i = Some (rb_data b ! (rb_pos b + (i - rb_off b)))"
  unfolding rb_map_def rb_deref_def rb_max_off_def rb_length_def rb_ok_def
  by (subst nth_seg) auto

lemma rb_from_simps [simp]:
  "rb_off (rb_from d off fin) = off"
  "rb_length (rb_from d off fin) = length d"
  "rb_max_off (rb_from d off fin) = off + length d"
  "rb_deref (rb_from d off fin) = d"
  "rb_fin (rb_from d off fin) = fin"
  "fresh (rb_from d off fin)"
  "rb_ok (rb_from d off fin)"
  by (simp_all add: rb_from_def rb_off_def rb_length_def rb_max_off_def rb_deref_def fresh_def
      rb_ok_def seg_def)

subsection \<open>Splitting and consuming\<close>

lemma split_off_fresh:
  assumes "fresh b" and "at \<le> rb_length b"
  obtains l r where "rb_split_off at b = Some (l, r)" "fresh l" "fresh r"
    "rb_off l = rb_off b" "rb_max_off l = rb_off b + at" "rb_off r = rb_off b + at"
    "rb_max_off r = rb_max_off b" "rb_map l = rb_map b |` {..<rb_off b + at}"
    "rb_map r = rb_map b |` {rb_off b + at..}" "\<not> rb_fin l" "rb_fin r = rb_fin b"
proof -
  let ?l = "fst (the (rb_split_off at b))" and ?r = "snd (the (rb_split_off at b))"
  have at: "at \<le> rb_len b" using assms by (simp add: fresh_def rb_length_def)
  have p: "rb_split_off at b = Some (?l, ?r)" "fresh ?l" "fresh ?r"
    "rb_off ?l = rb_off b" "rb_max_off ?l = rb_off b + at" "rb_off ?r = rb_off b + at"
    "rb_max_off ?r = rb_max_off b" "\<not> rb_fin ?l" "rb_fin ?r = rb_fin b"
    "rb_data ?l = rb_data b" "rb_data ?r = rb_data b" "rb_pos ?l = rb_pos b"
    "rb_pos ?r = rb_pos b + at"
    using assms at
    by (auto simp: rb_split_off_def fresh_def rb_ok_def rb_off_def rb_max_off_def rb_length_def)
  have "rb_map ?l = rb_map b |` {..<rb_off b + at}"
  proof
    fix i show "rb_map ?l i = (rb_map b |` {..<rb_off b + at}) i"
    proof (cases "rb_off b \<le> i \<and> i < rb_off b + at")
      case True
      moreover from this have "i < rb_max_off b" using assms by (simp add: rb_max_off_def)
      ultimately show ?thesis
        using p assms(1) by (simp add: rb_map_nth fresh_ok)
    next
      case False then show ?thesis using p by (auto simp: rb_map_def restrict_map_def)
    qed
  qed
  moreover have "rb_map ?r = rb_map b |` {rb_off b + at..}"
  proof
    fix i show "rb_map ?r i = (rb_map b |` {rb_off b + at..}) i"
    proof (cases "rb_off b + at \<le> i \<and> i < rb_max_off b")
      case True
      moreover from this have "rb_pos b + at + (i - (rb_off b + at)) = rb_pos b + (i - rb_off b)"
        by simp
      ultimately show ?thesis
        using p assms(1) by (simp add: rb_map_nth fresh_ok)
    next
      case False then show ?thesis using p by (auto simp: rb_map_def restrict_map_def)
    qed
  qed
  ultimately show thesis using p that by blast
qed

lemma rb_consume_props:
  assumes "rb_ok b" and "n \<le> rb_length b"
  shows "rb_ok (rb_consume n b)" "rb_off (rb_consume n b) = rb_off b + n"
    "rb_max_off (rb_consume n b) = rb_max_off b"
    "rb_deref (rb_consume n b) = drop n (rb_deref b)"
  using assms
  by (auto simp: rb_ok_def rb_consume_def rb_off_def rb_max_off_def rb_length_def rb_deref_def
      drop_seg)

lemma rb_map_consume:
  assumes "rb_ok b" and "n \<le> rb_length b"
  shows "rb_map (rb_consume n b) = rb_map b |` {rb_off b + n..}"
proof
  fix i
  have "length (rb_deref b) = rb_length b" using rb_length_deref [OF assms(1)] .
  then show "rb_map (rb_consume n b) i = (rb_map b |` {rb_off b + n..}) i"
    using rb_consume_props [OF assms] assms(2)
    by (auto simp: rb_map_def restrict_map_def rb_max_off_def)
qed

text \<open>
  C40: splitting a buffer (of which nothing was consumed) at an index inside it gives two
  buffers that carry exactly the bytes before and after the index, at the same stream
  offsets, with the end-of-stream flag on the second.
\<close>

theorem split_off_partitions:
  assumes "fresh b" and "at \<le> rb_length b"
  shows "\<exists>l r. rb_split_off at b = Some (l, r)
     \<and> rb_deref l @ rb_deref r = rb_deref b \<and> rb_length l = at
     \<and> rb_off l = rb_off b \<and> rb_off r = rb_off b + at
     \<and> \<not> rb_fin l \<and> rb_fin r = rb_fin b \<and> fresh l \<and> fresh r"
  using assms seg_append_seg [of "rb_start b" at "rb_data b" "rb_len b - at"]
  by (auto simp: rb_split_off_def fresh_def rb_ok_def rb_off_def rb_length_def rb_deref_def)

theorem split_off_partitions_witness:
  "\<exists>l r. rb_split_off 2 (rb_from [1, 2, 3, 4, 5] 10 True) = Some (l, r)
     \<and> rb_deref l @ rb_deref r = [1, 2, 3, 4, 5] \<and> rb_length l = 2
     \<and> rb_off l = 10 \<and> rb_off r = 12 \<and> \<not> rb_fin l \<and> rb_fin r \<and> fresh l \<and> fresh r"
  using split_off_partitions [of "rb_from [1, 2, 3, 4, 5] 10 True" 2] by simp

end
