(* ===== verification/RecvBuf.thy ===== *)
theory RecvBuf
  imports BTreeMap RangeBuf FlowControl
begin

text \<open>
  The receive side of a stream: \<^verbatim>\<open>RecvBuf\<close> of \<^verbatim>\<open>quiche/src/stream/recv_buf.rs\<close>, the
  reassembly buffer that turns STREAM data arriving out of order, overlapping and
  repeated into the contiguous bytes the application reads.

  The state is the record \<open>recv_buf\<close>, field by field.  An operation that can fail returns
  the new state with its result.  The retry loop of \<^verbatim>\<open>write\<close> (\<^verbatim>\<open>'tmp: while let\<close>) is
  \<open>write_loop\<close>, a total function: each chunk that is put back is a proper part of the chunk
  taken out.  Its inner loop over the stored chunks is \<open>write_scan\<close>.

  The specification is the map from stream offsets to bytes: \<open>rv_content\<close> of the buffer and
  \<open>rb_map\<close> of an incoming chunk.
\<close>

definition DEFAULT_STREAM_WINDOW :: u64 where "DEFAULT_STREAM_WINDOW = 32 * 1024"

record recv_buf =
  rv_data :: "range_buf btree"
  rv_off :: u64
  rv_len :: u64
  rv_flow_control :: flow_control
  rv_fin_off :: "u64 option"
  rv_error :: "u64 option"
  rv_drain :: bool

definition rv_new :: "u64 \<Rightarrow> u64 \<Rightarrow> recv_buf" where
  "rv_new max_data max_window =
     \<lparr>rv_data = [], rv_off = 0, rv_len = 0,
      rv_flow_control = fc_new max_data (min max_data DEFAULT_STREAM_WINDOW) max_window,
      rv_fin_off = None, rv_error = None, rv_drain = False\<rparr>"

definition rv_max_data :: "recv_buf \<Rightarrow> u64" where
  "rv_max_data r = fc_max_data (rv_flow_control r)"

definition rv_off_front :: "recv_buf \<Rightarrow> u64" where
  "rv_off_front r = rv_off r"

definition rv_max_off :: "recv_buf \<Rightarrow> u64" where
  "rv_max_off r = rv_len r"

text \<open>How the pass over the stored chunks ends, with the queue of chunks left to do:
  the chunk is dropped (\<^verbatim>\<open>continue 'tmp\<close>), stored, or an assertion fails.\<close>

datatype scan_result =
    Skip "range_buf list"
  | Store range_buf "range_buf list"
  | Abort

fun write_scan :: "range_buf btree \<Rightarrow> range_buf \<Rightarrow> range_buf list \<Rightarrow> scan_result" where
  "write_scan [] buf tmp_bufs = Store buf tmp_bufs"
| "write_scan ((k, b) # bs) buf tmp_bufs =
     (let off = rb_off buf in
      if rb_off b > rb_max_off buf then Store buf tmp_bufs
      else if off \<ge> rb_off b \<and> rb_max_off buf \<le> rb_max_off b then Skip tmp_bufs
      else
        case (if off \<ge> rb_off b \<and> off < rb_max_off b
              then map_option snd (rb_split_off (rb_max_off b - off) buf) else Some buf) of
          None \<Rightarrow> Abort
        | Some buf \<Rightarrow>
            if off < rb_off b \<and> rb_max_off buf > rb_off b
            then case rb_split_off (rb_off b - off) buf of
                   None \<Rightarrow> Abort
                 | Some (buf, tail) \<Rightarrow> write_scan bs buf (tmp_bufs @ [tail])
            else write_scan bs buf tmp_bufs)"

definition write_discard :: "u64 \<Rightarrow> range_buf \<Rightarrow> range_buf option" where
  "write_discard off_front buf =
     (if off_front > rb_off buf
      then map_option snd (rb_split_off (off_front - rb_off buf) buf) else Some buf)"

definition write_store :: "range_buf \<Rightarrow> recv_buf \<Rightarrow> recv_buf" where
  "write_store buf r =
     (let r = r\<lparr>rv_len := max (rv_len r) (rb_max_off buf)\<rparr>
      in if rv_drain r then r
         else r\<lparr>rv_data := bt_insert (rb_max_off buf) buf (rv_data r)\<rparr>)"

definition write_place :: "recv_buf \<Rightarrow> range_buf \<Rightarrow> range_buf list \<Rightarrow> scan_result" where
  "write_place r buf tmp_bufs =
     (if rb_off buf < rv_max_off r \<or> rb_is_empty buf
      then write_scan (bt_range_from (rb_off buf) (rv_data r)) buf tmp_bufs
      else Store buf tmp_bufs)"

subsection \<open>The pass over the stored chunks ends\<close>

text \<open>The five ways an incoming chunk can lie relative to a stored one.\<close>

lemma chunk_cases [case_names past contained start tail apart]:
  fixes buf b :: range_buf
  obtains "rb_max_off buf < rb_off b"
    | "rb_off b \<le> rb_off buf" "rb_max_off buf \<le> rb_max_off b"
    | "rb_off b \<le> rb_off buf" "rb_off buf < rb_max_off b" "rb_max_off b < rb_max_off buf"
    | "rb_off buf < rb_off b" "rb_off b < rb_max_off buf"
    | "rb_max_off b \<le> rb_off buf \<and> rb_max_off b < rb_max_off buf
       \<or> rb_off buf < rb_off b \<and> rb_max_off buf = rb_off b"
  using rb_off_le_max_off [of b] rb_off_le_max_off [of buf]
  by (metis le_neq_implies_less linorder_not_le order.trans)

lemma write_scan_past:
  "rb_max_off buf < rb_off b \<Longrightarrow> write_scan ((k, b) # bs) buf tmp = Store buf tmp"
  by (simp add: Let_def)

lemma write_scan_contained:
  "rb_off b \<le> rb_off buf \<Longrightarrow> rb_max_off buf \<le> rb_max_off b \<Longrightarrow>
   write_scan ((k, b) # bs) buf tmp = Skip tmp"
  using rb_off_le_max_off [of buf] by (auto simp: Let_def simp del: rb_off_le_max_off)

lemma write_scan_start:
  "rb_off b \<le> rb_off buf \<Longrightarrow> rb_off buf < rb_max_off b \<Longrightarrow> rb_max_off b < rb_max_off buf \<Longrightarrow>
   write_scan ((k, b) # bs) buf tmp =
     (case rb_split_off (rb_max_off b - rb_off buf) buf of
        None \<Rightarrow> Abort | Some (l, r) \<Rightarrow> write_scan bs r tmp)"
  by (simp add: Let_def split: option.split)

lemma write_scan_tail:
  "rb_off buf < rb_off b \<Longrightarrow> rb_off b < rb_max_off buf \<Longrightarrow>
   write_scan ((k, b) # bs) buf tmp =
     (case rb_split_off (rb_off b - rb_off buf) buf of
        None \<Rightarrow> Abort | Some (l, r) \<Rightarrow> write_scan bs l (tmp @ [r]))"
  by (simp add: Let_def)

lemma write_scan_apart:
  assumes "rb_max_off b \<le> rb_off buf \<and> rb_max_off b < rb_max_off buf
       \<or> rb_off buf < rb_off b \<and> rb_max_off buf = rb_off b"
  shows "write_scan ((k, b) # bs) buf tmp = write_scan bs buf tmp"
proof -
  have "\<not> rb_max_off buf < rb_off b" "\<not> (rb_off b \<le> rb_off buf \<and> rb_max_off buf \<le> rb_max_off b)"
    "\<not> (rb_off b \<le> rb_off buf \<and> rb_off buf < rb_max_off b)"
    "\<not> (rb_off buf < rb_off b \<and> rb_off b < rb_max_off buf)"
    using assms rb_off_le_max_off [of b] by linarith+
  then show ?thesis by (auto simp: Let_def)
qed

lemmas write_scan_rules =
  write_scan_past write_scan_contained write_scan_start write_scan_tail write_scan_apart

declare write_scan.simps(2) [simp del]

text \<open>The chunks that a pass puts back are proper parts of the chunk it was given.\<close>

abbreviation raw_len :: "range_buf list \<Rightarrow> nat" where
  "raw_len bs \<equiv> sum_list (map rb_len bs)"

lemma split_off_raw_len:
  "rb_split_off at b = Some (l, r) \<Longrightarrow> rb_len l = at \<and> rb_len l + rb_len r = rb_len b"
  by (auto simp: rb_split_off_def split: if_splits)

lemma write_scan_raw_len:
  "(write_scan bs buf tmp = Skip tmp' \<or> write_scan bs buf tmp = Store buf' tmp') \<Longrightarrow>
   length tmp' = length tmp \<and> raw_len tmp' = raw_len tmp
   \<or> raw_len tmp' < raw_len tmp + rb_len buf"
proof (induction bs arbitrary: buf tmp)
  case (Cons kb bs)
  obtain k b where kb: "kb = (k, b)" by fastforce
  show ?case
  proof (cases buf b rule: chunk_cases)
    case start
    then obtain l r where s: "rb_split_off (rb_max_off b - rb_off buf) buf = Some (l, r)"
      using Cons.prems by (auto simp: kb write_scan_start split: option.splits)
    with start Cons.IH [of r tmp] Cons.prems split_off_raw_len [OF s] show ?thesis
      by (auto simp: kb write_scan_start)
  next
    case tail
    then obtain l r where s: "rb_split_off (rb_off b - rb_off buf) buf = Some (l, r)"
      using Cons.prems by (auto simp: kb write_scan_tail split: option.splits)
    have "rb_off b - rb_off buf < rb_len buf" "0 < rb_off b - rb_off buf"
      using tail by (simp_all add: rb_max_off_def rb_length_def)
    with tail s Cons.IH [of l "tmp @ [r]"] Cons.prems split_off_raw_len [OF s] show ?thesis
      by (auto simp: kb write_scan_tail)
  next
    case apart
    with Cons.IH [of buf tmp] Cons.prems show ?thesis by (simp add: kb write_scan_apart)
  qed (use Cons.prems in \<open>auto simp: kb write_scan_past write_scan_contained\<close>)
qed auto

lemma write_place_raw_len:
  "(write_place r buf tmp = Skip tmp' \<or> write_place r buf tmp = Store buf' tmp') \<Longrightarrow>
   length tmp' = length tmp \<and> raw_len tmp' = raw_len tmp
   \<or> raw_len tmp' < raw_len tmp + rb_len buf"
  using write_scan_raw_len [of "bt_range_from (rb_off buf) (rv_data r)" buf tmp tmp' buf']
  by (auto simp: write_place_def split: if_splits)

lemma write_discard_raw_len: "write_discard n b = Some b' \<Longrightarrow> rb_len b' \<le> rb_len b"
  by (auto simp: write_discard_def dest!: split_off_raw_len split: if_splits)

subsection \<open>The operations\<close>

function (sequential) write_loop :: "recv_buf \<Rightarrow> range_buf list \<Rightarrow> recv_buf option" where
  "write_loop r [] = Some r"
| "write_loop r (buf # tmp_bufs) =
     (case write_discard (rv_off_front r) buf of
        None \<Rightarrow> None
      | Some buf \<Rightarrow>
          (case write_place r buf tmp_bufs of
             Skip tmp_bufs \<Rightarrow> write_loop r tmp_bufs
           | Store buf tmp_bufs \<Rightarrow> write_loop (write_store buf r) tmp_bufs
           | Abort \<Rightarrow> None))"
  by pat_completeness auto
termination
proof (relation "measures [\<lambda>(r, bs). raw_len bs, \<lambda>(r, bs). length bs]")
qed (auto dest!: write_place_raw_len [OF disjI1] write_place_raw_len [OF disjI2]
      write_discard_raw_len)

definition rv_write :: "range_buf \<Rightarrow> recv_buf \<Rightarrow> recv_buf \<times> (error, unit) res" where
  "rv_write buf r =
     (if rb_max_off buf > rv_max_data r then (r, Err FlowControl)
      else if (case rv_fin_off r of None \<Rightarrow> False | Some f \<Rightarrow> rb_max_off buf > f) then (r, Err FinalSize)
      else if (case rv_fin_off r of None \<Rightarrow> False | Some f \<Rightarrow> rb_fin buf \<and> f \<noteq> rb_max_off buf)
      then (r, Err FinalSize)
      else if rb_fin buf \<and> rb_max_off buf < rv_len r then (r, Err FinalSize)
      else if rv_fin_off r \<noteq> None \<and> rb_is_empty buf then (r, Ok ())
      else
        let r = (if rb_fin buf then r\<lparr>rv_fin_off := Some (rb_max_off buf)\<rparr> else r) in
        if \<not> rb_fin buf \<and> rb_is_empty buf then (r, Ok ())
        else if rv_off r \<ge> rb_max_off buf \<and> \<not> rb_is_empty buf then (r, Ok ())
        else case write_loop r [buf] of None \<Rightarrow> (r, Panic) | Some r \<Rightarrow> (r, Ok ()))"

definition rv_is_fin :: "recv_buf \<Rightarrow> bool" where
  "rv_is_fin r \<longleftrightarrow> rv_fin_off r = Some (rv_off r)"

definition rv_ready :: "recv_buf \<Rightarrow> bool" where
  "rv_ready r = (case bt_first (rv_data r) of None \<Rightarrow> False | Some (_, buf) \<Rightarrow> rb_off buf = rv_off r)"

text \<open>
  The copy loop of \<^verbatim>\<open>emit\<close>, over the stored chunks: it stops when the output is full or the
  next chunk does not start at the read offset, takes part of a chunk that does not fit
  and removes a chunk that does.  It returns the bytes copied, the new read offset and
  the chunks left.
\<close>

fun emit_loop :: "usize \<Rightarrow> u64 \<Rightarrow> range_buf btree \<Rightarrow> byte list \<times> u64 \<times> range_buf btree" where
  "emit_loop cap off [] = ([], off, [])"
| "emit_loop cap off ((k, buf) # bs) =
     (if cap > 0 \<and> rb_off buf = off then
        let buf_len = min (rb_length buf) cap; out = take buf_len (rb_deref buf) in
        if buf_len < rb_length buf
        then (out, off + buf_len, (k, rb_consume buf_len buf) # bs)
        else let (out', off', bs') = emit_loop (cap - buf_len) (off + buf_len) bs
             in (out @ out', off', bs')
      else ([], off, (k, buf) # bs))"

text \<open>\<open>rv_emit cap\<close> is \<^verbatim>\<open>emit\<close> on an output slice of \<open>cap\<close> bytes; the bytes copied to the front of
  the slice are part of the result.\<close>

definition rv_emit :: "usize \<Rightarrow> recv_buf \<Rightarrow> recv_buf \<times> (error, byte list \<times> bool) res" where
  "rv_emit cap r =
     (if \<not> rv_ready r then (r, Err Done)
      else case rv_error r of
        Some e \<Rightarrow> (r\<lparr>rv_data := []\<rparr>, Err (StreamReset e))
      | None \<Rightarrow>
          let (out, off, data) = emit_loop cap (rv_off r) (rv_data r);
              r = r\<lparr>rv_off := off, rv_data := data\<rparr>
          in case fc_add_consumed (length out) (rv_flow_control r) of
               None \<Rightarrow> (r, Panic)
             | Some fc \<Rightarrow> let r = r\<lparr>rv_flow_control := fc\<rparr> in (r, Ok (out, rv_is_fin r)))"

definition rv_reset :: "u64 \<Rightarrow> u64 \<Rightarrow> recv_buf \<Rightarrow> recv_buf \<times> (error, usize) res" where
  "rv_reset error_code final_size r =
     (if (case rv_fin_off r of None \<Rightarrow> False | Some f \<Rightarrow> f \<noteq> final_size) then (r, Err FinalSize)
      else if final_size < rv_len r then (r, Err FinalSize)
      else
        let max_data_delta = final_size - rv_len r in
        if rv_error r \<noteq> None then (r, Ok max_data_delta)
        else
          let r = r\<lparr>rv_error := Some error_code, rv_off := final_size, rv_data := []\<rparr> in
          case rv_write (rb_from [] final_size True) r of
            (r, Ok _) \<Rightarrow> (r, Ok max_data_delta)
          | (r, Err e) \<Rightarrow> (r, Err e)
          | (r, Panic) \<Rightarrow> (r, Panic))"

definition rv_update_max_data :: "instant \<Rightarrow> recv_buf \<Rightarrow> recv_buf option" where
  "rv_update_max_data now r =
     map_option (\<lambda>fc. r\<lparr>rv_flow_control := fc\<rparr>) (fc_update_max_data now (rv_flow_control r))"

definition rv_max_data_next :: "recv_buf \<Rightarrow> u64 option" where
  "rv_max_data_next r = fc_max_data_next (rv_flow_control r)"

definition rv_autotune_window :: "instant \<Rightarrow> duration \<Rightarrow> recv_buf \<Rightarrow> recv_buf option" where
  "rv_autotune_window now rtt r =
     map_option (\<lambda>fc. r\<lparr>rv_flow_control := fc\<rparr>) (fc_autotune_window now rtt (rv_flow_control r))"

definition rv_shutdown :: "recv_buf \<Rightarrow> recv_buf \<times> (error, unit) res" where
  "rv_shutdown r =
     (if rv_drain r then (r, Err Done)
      else (let r = r\<lparr>rv_drain := True, rv_data := []\<rparr> in (r\<lparr>rv_off := rv_max_off r\<rparr>, Ok ())))"

definition rv_almost_full :: "recv_buf \<Rightarrow> bool option" where
  "rv_almost_full r =
     (if rv_fin_off r = None then fc_should_update_max_data (rv_flow_control r) else Some False)"

subsection \<open>Invariant and contents\<close>

definition chunks_ok :: "u64 \<Rightarrow> range_buf btree \<Rightarrow> bool" where
  "chunks_ok off bs \<longleftrightarrow> bt_ok bs
     \<and> (\<forall>k b. (k, b) \<in> set bs \<longrightarrow> k = rb_max_off b \<and> rb_ok b \<and> off \<le> rb_off b)
     \<and> (\<forall>k1 b1 k2 b2. (k1, b1) \<in> set bs \<longrightarrow> (k2, b2) \<in> set bs \<longrightarrow> k1 < k2 \<longrightarrow> k1 \<le> rb_off b2)"

definition rv_core :: "recv_buf \<Rightarrow> bool" where
  "rv_core r \<longleftrightarrow> chunks_ok (rv_off r) (rv_data r)
     \<and> (\<forall>k b. (k, b) \<in> set (rv_data r) \<longrightarrow> k \<le> rv_len r)
     \<and> rv_off r \<le> rv_len r \<and> (rv_drain r \<longrightarrow> rv_data r = [])
     \<and> fc_consumed (rv_flow_control r) \<le> rv_off r \<and> rv_len r \<le> u64_max"

definition rv_ok :: "recv_buf \<Rightarrow> bool" where
  "rv_ok r \<longleftrightarrow> rv_core r \<and> rv_max_data r \<le> u64_max
     \<and> (rv_fin_off r = None \<or> rv_fin_off r = Some (rv_len r))"

definition content :: "range_buf btree \<Rightarrow> u64 \<rightharpoonup> byte" where
  "content bs = foldr (\<lambda>(_, b) m. m ++ rb_map b) bs Map.empty"

abbreviation rv_content :: "recv_buf \<Rightarrow> u64 \<rightharpoonup> byte" where
  "rv_content r \<equiv> content (rv_data r)"

lemma content_simps [simp]:
  "content [] = Map.empty"
  "content ((k, b) # bs) = content bs ++ rb_map b"
  by (simp_all add: content_def)

lemma chunks_ok_Nil [simp]: "chunks_ok off []"
  by (simp add: chunks_ok_def)

lemma chunks_okD:
  assumes "chunks_ok off bs"
  shows "bt_ok bs" "(k, b) \<in> set bs \<Longrightarrow> k = rb_max_off b" "(k, b) \<in> set bs \<Longrightarrow> rb_ok b"
    "(k, b) \<in> set bs \<Longrightarrow> off \<le> rb_off b"
    "(k1, b1) \<in> set bs \<Longrightarrow> (k2, b2) \<in> set bs \<Longrightarrow> k1 < k2 \<Longrightarrow> k1 \<le> rb_off b2"
  using assms by (auto simp: chunks_ok_def)

lemma dom_content: "dom (content bs) = (\<Union>(k, b)\<in>set bs. dom (rb_map b))"
proof (induction bs)
  case (Cons kb bs) then show ?case by (cases kb) simp
qed simp

lemma chunks_ok_Cons:
  "chunks_ok off ((k, b) # bs) \<longleftrightarrow>
     k = rb_max_off b \<and> rb_ok b \<and> off \<le> rb_off b \<and> chunks_ok off bs
     \<and> (\<forall>k' b'. (k', b') \<in> set bs \<longrightarrow> k < k' \<and> k \<le> rb_off b')"
  unfolding chunks_ok_def bt_ok_Cons by (auto dest: less_asym')

lemma chunks_ok_mono: "chunks_ok off bs \<Longrightarrow> off' \<le> off \<Longrightarrow> chunks_ok off' bs"
  unfolding chunks_ok_def by (meson order.trans)

lemma content_eq_Some:
  "chunks_ok off bs \<Longrightarrow> content bs i = Some v \<longleftrightarrow> (\<exists>k b. (k, b) \<in> set bs \<and> rb_map b i = Some v)"
proof (induction bs)
  case (Cons kb bs)
  obtain k b where [simp]: "kb = (k, b)" by fastforce
  have "rb_map b i = None" if "(k', b') \<in> set bs" "rb_map b' i = Some w" for k' b' w
  proof -
    have "rb_max_off b \<le> rb_off b'" using Cons.prems that(1) by (auto simp: chunks_ok_Cons)
    moreover have "rb_off b' \<le> i" using that(2) by (simp add: rb_map_def split: if_splits)
    ultimately show ?thesis by (simp add: rb_map_def)
  qed
  then show ?case using Cons by (fastforce simp: chunks_ok_Cons map_add_Some_iff)
qed simp

lemma content_insert:
  assumes "chunks_ok off bs" "rb_ok buf" "off \<le> rb_off buf"
    and apart: "\<And>k b. (k, b) \<in> set bs \<Longrightarrow> k \<le> rb_off buf \<or> rb_max_off buf \<le> rb_off b"
    and clash: "\<And>b. (rb_max_off buf, b) \<in> set bs \<Longrightarrow> rb_is_empty b"
  shows "chunks_ok off (bt_insert (rb_max_off buf) buf bs)"
    and "content (bt_insert (rb_max_off buf) buf bs) = content bs ++ rb_map buf"
proof -
  let ?bs' = "bt_insert (rb_max_off buf) buf bs"
  note ok = chunks_okD [OF assms(1)]
  have set': "(k, b) \<in> set ?bs' \<longleftrightarrow>
      k = rb_max_off buf \<and> b = buf \<or> (k, b) \<in> set bs \<and> k \<noteq> rb_max_off buf" for k b
    using bt.set_insert [OF ok(1)] by auto
  have low: "k \<le> rb_off buf" if "(k, b) \<in> set bs" "k < rb_max_off buf" for k b
    using apart [OF that(1)] ok(2) [OF that(1)] that(2) rb_off_le_max_off [of b] by linarith
  have high: "rb_max_off buf \<le> rb_off b" if "(k, b) \<in> set bs" "rb_max_off buf < k" for k b
    using apart [OF that(1)] that(2) rb_off_le_max_off [of buf] by linarith
  show chunks: "chunks_ok off ?bs'"
    unfolding chunks_ok_def set'
    using bt_ok_insert [OF ok(1)] ok(2-5) assms(2,3) low high by blast
  show "content ?bs' = content bs ++ rb_map buf"
  proof
    fix i
    have e: "rb_map b i = None" if "(rb_max_off buf, b) \<in> set bs" for b
      using clash [OF that] by (simp add: rb_map_def rb_is_empty_iff)
    have d: "rb_map buf i = None" if "(k, b) \<in> set bs" "rb_map b i = Some w" for k b w
      using apart [OF that(1)] ok(2) [OF that(1)] that(2) by (auto simp: rb_map_def split: if_splits)
    have "content ?bs' i = Some v \<longleftrightarrow> (content bs ++ rb_map buf) i = Some v" for v
      unfolding content_eq_Some [OF chunks] map_add_Some_iff content_eq_Some [OF assms(1)] set'
      using e d by (metis option.distinct(1))
    then show "content ?bs' i = (content bs ++ rb_map buf) i" by (metis not_Some_eq)
  qed
qed

subsection \<open>What one pass over the stored chunks does\<close>

definition part_of :: "range_buf \<Rightarrow> range_buf \<Rightarrow> bool" where
  "part_of p buf \<longleftrightarrow> fresh p \<and> rb_off buf \<le> rb_off p \<and> rb_max_off p \<le> rb_max_off buf
     \<and> rb_map p \<subseteq>\<^sub>m rb_map buf"

definition spans :: "range_buf btree \<Rightarrow> u64 set" where
  "spans bs = (\<Union>(k, b)\<in>set bs. span b)"

lemma spans_Cons: "spans ((k, b) # bs) = span b \<union> spans bs"
  by (simp add: spans_def)

lemma dom_content_spans: "dom (content bs) = spans bs"
  by (simp add: dom_content spans_def span_def dom_rb_map)

abbreviation pspan :: "range_buf list \<Rightarrow> u64 set" where
  "pspan P \<equiv> (\<Union>p\<in>set P. span p)"

text \<open>\<open>reached bs P m\<close>: the end \<open>m\<close> of the chunk is inside a stored chunk or in a part put back.\<close>

definition reached :: "range_buf btree \<Rightarrow> range_buf list \<Rightarrow> u64 \<Rightarrow> bool" where
  "reached bs P m \<longleftrightarrow> (\<exists>p\<in>set P. rb_max_off p = m) \<or> (\<exists>k b. (k, b) \<in> set bs \<and> m \<le> k)"

definition skip_post :: "range_buf btree \<Rightarrow> range_buf \<Rightarrow> range_buf list \<Rightarrow> bool" where
  "skip_post bs buf P \<longleftrightarrow> (\<forall>p\<in>set P. part_of p buf)
     \<and> span buf \<subseteq> spans bs \<union> pspan P \<and> reached bs P (rb_max_off buf)"

definition store_post :: "range_buf btree \<Rightarrow> range_buf \<Rightarrow> range_buf \<Rightarrow> range_buf list \<Rightarrow> bool" where
  "store_post bs buf buf' P \<longleftrightarrow> (\<forall>p\<in>set P. part_of p buf) \<and> part_of buf' buf
     \<and> (rb_off buf < rb_max_off buf \<longrightarrow> rb_off buf' < rb_max_off buf')
     \<and> span buf \<subseteq> span buf' \<union> spans bs \<union> pspan P
     \<and> (reached bs P (rb_max_off buf) \<or> rb_max_off buf' = rb_max_off buf)
     \<and> (\<forall>k b. (k, b) \<in> set bs \<longrightarrow> (k \<le> rb_off buf' \<or> rb_max_off buf' \<le> rb_off b)
          \<and> (k = rb_max_off buf' \<longrightarrow> rb_is_empty b))"

lemma part_of_refl: "fresh b \<Longrightarrow> part_of b b"
  by (simp add: part_of_def)

lemma part_of_trans: "part_of a b \<Longrightarrow> part_of b c \<Longrightarrow> part_of a c"
  unfolding part_of_def using map_le_trans by fastforce

lemma split_parts:
  assumes "fresh b" "rb_off b \<le> m" "m \<le> rb_max_off b"
  obtains l r where "rb_split_off (m - rb_off b) b = Some (l, r)" "part_of l b" "part_of r b"
    "rb_off l = rb_off b" "rb_max_off l = m" "rb_off r = m" "rb_max_off r = rb_max_off b"
    "rb_map r = rb_map b |` {m..}" "span b = span l \<union> span r"
proof -
  have at: "m - rb_off b \<le> rb_length b" "rb_off b + (m - rb_off b) = m"
    using assms(2,3) by (simp_all add: rb_max_off_def)
  obtain l r where s: "rb_split_off (m - rb_off b) b = Some (l, r)" "fresh l" "fresh r"
    "rb_off l = rb_off b" "rb_max_off l = m" "rb_off r = m"
    "rb_max_off r = rb_max_off b" "rb_map l = rb_map b |` {..<m}" "rb_map r = rb_map b |` {m..}"
    using split_off_fresh [OF assms(1) at(1)] unfolding at(2) by metis
  moreover have "rb_map l \<subseteq>\<^sub>m rb_map b" "rb_map r \<subseteq>\<^sub>m rb_map b"
    unfolding s(8,9) by (auto simp: map_le_def)
  moreover have "span b = span l \<union> span r"
    using s assms by (auto simp: span_def)
  ultimately show thesis using assms by (intro that [of l r]) (simp_all add: part_of_def)
qed

lemma write_scan_post:
  assumes "chunks_ok 0 bs" "fresh buf" "\<forall>k b. (k, b) \<in> set bs \<longrightarrow> rb_off buf \<le> k"
  shows "\<exists>P. write_scan bs buf tmp = Skip (tmp @ P) \<and> skip_post bs buf P
     \<or> (\<exists>buf'. write_scan bs buf tmp = Store buf' (tmp @ P) \<and> store_post bs buf buf' P)"
  using assms
proof (induction bs arbitrary: buf tmp)
  case Nil
  have "store_post [] buf buf []" using Nil by (simp add: store_post_def part_of_refl)
  then show ?case by (intro exI [of _ "[]"]) auto
next
  case (Cons kb bs)
  obtain k b where kb [simp]: "kb = (k, b)" by fastforce
  have k: "k = rb_max_off b" "rb_off buf \<le> k" and bs: "chunks_ok 0 bs"
    "\<And>k' b'. (k', b') \<in> set bs \<Longrightarrow> k < k' \<and> k \<le> rb_off b'"
    using Cons.prems by (auto simp: chunks_ok_Cons)
  show ?case
  proof (cases buf b rule: chunk_cases)
    case past
    have "rb_max_off buf \<le> rb_off b' \<and> k' \<noteq> rb_max_off buf" if "(k', b') \<in> set (kb # bs)" for k' b'
    proof (cases "(k', b') \<in> set bs")
      case True
      then show ?thesis using bs(2) [OF True] past k(1) rb_off_le_max_off [of b] by linarith
    next
      case False
      moreover have "rb_max_off buf \<le> rb_off b \<and> k \<noteq> rb_max_off buf"
        using past k(1) rb_off_le_max_off [of b] by linarith
      ultimately show ?thesis using that by auto
    qed
    then have "store_post (kb # bs) buf buf []"
      using part_of_refl [OF Cons.prems(2)] unfolding store_post_def by simp
    then show ?thesis using past by (intro exI [of _ "[]"]) (auto simp: write_scan_past)
  next
    case contained
    have "skip_post (kb # bs) buf []"
      using contained k(1) by (auto simp: skip_post_def span_def spans_Cons reached_def)
    then show ?thesis
      using contained by (intro exI [of _ "[]"]) (auto simp: write_scan_contained)
  next
    case start
    then have "rb_off buf \<le> rb_max_off b" "rb_max_off b \<le> rb_max_off buf" by simp_all
    then obtain l r where s: "rb_split_off (rb_max_off b - rb_off buf) buf = Some (l, r)"
      "part_of l buf" "part_of r buf" "rb_off l = rb_off buf" "rb_max_off l = rb_max_off b"
      "rb_off r = rb_max_off b" "rb_max_off r = rb_max_off buf"
      "span buf = span l \<union> span r"
      using split_parts [OF Cons.prems(2)] by metis
    have d: "span buf \<subseteq> span b \<union> span r"
      using s start by (auto simp: span_def)
    have keys: "\<forall>k b. (k, b) \<in> set bs \<longrightarrow> rb_off r \<le> k" using bs(2) s(6) k(1) by fastforce
    obtain P where P: "write_scan bs r tmp = Skip (tmp @ P) \<and> skip_post bs r P
      \<or> (\<exists>buf'. write_scan bs r tmp = Store buf' (tmp @ P) \<and> store_post bs r buf' P)"
      using Cons.IH [OF bs(1) _ keys, of tmp] s(3) by (auto simp: part_of_def)
    have "skip_post bs r P \<Longrightarrow> skip_post (kb # bs) buf P"
      using s(3,7) d unfolding skip_post_def
      by (auto simp: reached_def spans_Cons intro: part_of_trans)
    moreover have "store_post (kb # bs) buf buf' P" if "store_post bs r buf' P" for buf'
    proof -
      have ne: "rb_off r \<le> rb_off buf'" "rb_off buf' < rb_max_off buf'"
        using that s(6,7) start by (auto simp: store_post_def part_of_def)
      then have "k \<le> rb_off buf'" "k \<noteq> rb_max_off buf'" using k(1) s(6) by auto
      with that s(3,7) d ne(2) show ?thesis unfolding store_post_def
        by (auto simp: reached_def spans_Cons intro: part_of_trans)
    qed
    ultimately show ?thesis using P start s(1) by (auto simp: write_scan_start)
  next
    case tail
    then have "rb_off buf \<le> rb_off b" "rb_off b \<le> rb_max_off buf" by simp_all
    then obtain l r where s: "rb_split_off (rb_off b - rb_off buf) buf = Some (l, r)"
      "part_of l buf" "part_of r buf" "rb_off l = rb_off buf" "rb_max_off l = rb_off b"
      "rb_max_off r = rb_max_off buf" "span buf = span l \<union> span r"
      using split_parts [OF Cons.prems(2)] by metis
    have keys: "\<forall>k b. (k, b) \<in> set bs \<longrightarrow> rb_off l \<le> k" using Cons.prems(3) s(4) by auto
    obtain P where P: "write_scan bs l (tmp @ [r]) = Skip ((tmp @ [r]) @ P) \<and> skip_post bs l P
      \<or> (\<exists>buf'. write_scan bs l (tmp @ [r]) = Store buf' ((tmp @ [r]) @ P) \<and> store_post bs l buf' P)"
      using Cons.IH [OF bs(1) _ keys, of "tmp @ [r]"] s(2) by (auto simp: part_of_def)
    have "skip_post bs l P \<Longrightarrow> skip_post (kb # bs) buf (r # P)"
      using s(2,3,6,7) unfolding skip_post_def by (auto simp: reached_def spans_Cons intro: part_of_trans)
    moreover have "store_post (kb # bs) buf buf' (r # P)" if "store_post bs l buf' P" for buf'
    proof -
      have ne: "rb_max_off buf' \<le> rb_off b" "rb_off buf' < rb_max_off buf'"
        using that s(4,5) tail by (auto simp: store_post_def part_of_def)
      then have "k = rb_max_off buf' \<longrightarrow> rb_is_empty b"
        using k(1) rb_off_le_max_off [of b] unfolding rb_is_empty_iff by linarith
      with that s(2,3,6,7) ne show ?thesis unfolding store_post_def
        by (auto simp: reached_def spans_Cons intro: part_of_trans)
    qed
    ultimately show ?thesis
      using P tail s(1) by (intro exI [of _ "r # P"]) (auto simp: write_scan_tail)
  next
    case apart
    have keys: "\<forall>k b. (k, b) \<in> set bs \<longrightarrow> rb_off buf \<le> k" using Cons.prems(3) by auto
    obtain P where P: "write_scan bs buf tmp = Skip (tmp @ P) \<and> skip_post bs buf P
      \<or> (\<exists>buf'. write_scan bs buf tmp = Store buf' (tmp @ P) \<and> store_post bs buf buf' P)"
      using Cons.IH [OF bs(1) Cons.prems(2) keys, of tmp] by blast
    have "skip_post bs buf P \<Longrightarrow> skip_post (kb # bs) buf P"
      unfolding skip_post_def by (auto simp: reached_def spans_Cons)
    moreover have "store_post (kb # bs) buf buf' P" if sp: "store_post bs buf buf' P" for buf'
    proof -
      have b': "rb_off buf \<le> rb_off buf'" "rb_max_off buf' \<le> rb_max_off buf"
        "rb_off buf < rb_max_off buf \<longrightarrow> rb_off buf' < rb_max_off buf'"
        using sp by (auto simp: store_post_def part_of_def)
      have "(k \<le> rb_off buf' \<or> rb_max_off buf' \<le> rb_off b) \<and> (k = rb_max_off buf' \<longrightarrow> rb_is_empty b)"
        using apart b' k rb_off_le_max_off [of b] rb_off_le_max_off [of buf]
        unfolding rb_is_empty_iff by linarith
      with sp show ?thesis unfolding store_post_def by (auto simp: reached_def spans_Cons)
    qed
    ultimately show ?thesis using P apart by (auto simp: write_scan_apart)
  qed
qed

lemma reached_mono: "reached bs P m \<Longrightarrow> set bs \<subseteq> set bs' \<Longrightarrow> reached bs' P m"
  by (auto simp: reached_def)

lemma spans_mono: "set bs \<subseteq> set bs' \<Longrightarrow> spans bs \<subseteq> spans bs'"
  by (auto simp: spans_def)

lemma write_place_post:
  assumes "rv_core r" "fresh buf"
  shows "\<exists>P. write_place r buf tmp = Skip (tmp @ P) \<and> skip_post (rv_data r) buf P
     \<or> (\<exists>buf'. write_place r buf tmp = Store buf' (tmp @ P) \<and> store_post (rv_data r) buf buf' P)"
proof (cases "rb_off buf < rv_max_off r \<or> rb_is_empty buf")
  case True
  let ?bs = "bt_range_from (rb_off buf) (rv_data r)"
  have sub: "set ?bs \<subseteq> set (rv_data r)" by (auto simp: bt_range_from_def)
  have in_bs: "(k, b) \<in> set ?bs \<longleftrightarrow> (k, b) \<in> set (rv_data r) \<and> rb_off buf \<le> k" for k b
    by (auto simp: bt_range_from_def)
  have "chunks_ok 0 ?bs"
    using assms(1) unfolding rv_core_def chunks_ok_def in_bs
    by (auto simp: bt_range_from_def bt_ok_filter)
  then obtain P where P: "write_scan ?bs buf tmp = Skip (tmp @ P) \<and> skip_post ?bs buf P
     \<or> (\<exists>buf'. write_scan ?bs buf tmp = Store buf' (tmp @ P) \<and> store_post ?bs buf buf' P)"
    using write_scan_post [of ?bs buf tmp] assms(2) in_bs by blast
  have "skip_post ?bs buf P \<Longrightarrow> skip_post (rv_data r) buf P"
    using reached_mono [OF _ sub] spans_mono [OF sub] unfolding skip_post_def by blast
  moreover have "store_post (rv_data r) buf buf' P" if sp: "store_post ?bs buf buf' P" for buf'
  proof -
    have "rb_off buf \<le> rb_off buf'" using sp by (simp add: store_post_def part_of_def)
    then have low: "k \<le> rb_off buf' \<and> k \<noteq> rb_max_off buf'" if "k < rb_off buf" for k
      using that rb_off_le_max_off [of buf'] by linarith
    have "(k \<le> rb_off buf' \<or> rb_max_off buf' \<le> rb_off b) \<and> (k = rb_max_off buf' \<longrightarrow> rb_is_empty b)"
      if "(k, b) \<in> set (rv_data r)" for k b
      using sp low [of k] that in_bs [of k b] unfolding store_post_def by (cases "k < rb_off buf") auto
    moreover have "span buf \<subseteq> span buf' \<union> spans (rv_data r) \<union> pspan P"
      using sp spans_mono [OF sub] unfolding store_post_def by blast
    moreover have "reached (rv_data r) P (rb_max_off buf) \<or> rb_max_off buf' = rb_max_off buf"
      using sp reached_mono [OF _ sub] unfolding store_post_def by blast
    ultimately show ?thesis using sp unfolding store_post_def by simp
  qed
  ultimately show ?thesis using P True by (auto simp: write_place_def)
next
  case False
  have "k \<le> rb_off buf \<and> k \<noteq> rb_max_off buf" if "(k, b) \<in> set (rv_data r)" for k b
  proof -
    have "k \<le> rv_len r" using assms(1) that by (auto simp: rv_core_def)
    then show ?thesis
      using False rb_off_le_max_off [of buf] unfolding rv_max_off_def rb_is_empty_iff by linarith
  qed
  then have "store_post (rv_data r) buf buf []"
    using part_of_refl [OF assms(2)] by (auto simp: store_post_def)
  then show ?thesis using False by (intro exI [of _ "[]"]) (auto simp: write_place_def)
qed

lemma write_store_post:
  assumes core: "rv_core r" and sp: "store_post (rv_data r) buf buf' P"
    and buf: "rv_off r \<le> rb_off buf" "rb_max_off buf \<le> u64_max"
  shows "rv_core (write_store buf' r)"
    and "\<not> rv_drain r \<Longrightarrow> rv_content (write_store buf' r) = rv_content r ++ rb_map buf'"
    and "span buf' \<inter> dom (rv_content r) = {}"
proof -
  have p: "part_of buf' buf" and apart:
    "\<And>k b. (k, b) \<in> set (rv_data r) \<Longrightarrow> k \<le> rb_off buf' \<or> rb_max_off buf' \<le> rb_off b"
    "\<And>b. (rb_max_off buf', b) \<in> set (rv_data r) \<Longrightarrow> rb_is_empty b"
    using sp by (auto simp: store_post_def)
  have chunks: "chunks_ok (rv_off r) (rv_data r)" using core by (simp add: rv_core_def)
  have b': "rb_ok buf'" "rv_off r \<le> rb_off buf'" "rb_max_off buf' \<le> u64_max"
    using p buf by (simp_all add: part_of_def fresh_def)
  note ins = content_insert [OF chunks b'(1,2) apart]
  have "k \<le> max (rv_len r) (rb_max_off buf')"
    if "(k, b) \<in> set (bt_insert (rb_max_off buf') buf' (rv_data r))" for k b
    using that core bt.set_insert [OF chunks_okD(1) [OF chunks]]
    by (auto simp: rv_core_def le_max_iff_disj)
  then show "rv_core (write_store buf' r)"
    using core ins(1) b'(3)
    by (auto simp: write_store_def rv_core_def Let_def le_max_iff_disj)
  show "\<not> rv_drain r \<Longrightarrow> rv_content (write_store buf' r) = rv_content r ++ rb_map buf'"
    using ins(2) by (simp add: write_store_def Let_def)
  show "span buf' \<inter> dom (rv_content r) = {}"
  proof -
    have "span buf' \<inter> span b = {}" if "(k, b) \<in> set (rv_data r)" for k b
      using apart(1) [OF that] chunks_okD(2) [OF chunks that] by (auto simp: span_def)
    then show ?thesis unfolding dom_content_spans spans_def by auto
  qed
qed

lemma write_discard_post:
  assumes "fresh buf" "off \<le> rb_max_off buf"
  shows "\<exists>buf1. write_discard off buf = Some buf1 \<and> part_of buf1 buf \<and> off \<le> rb_off buf1
     \<and> rb_max_off buf1 = rb_max_off buf \<and> span buf1 = span buf \<inter> {off..}"
proof (cases "off > rb_off buf")
  case True
  then obtain l r where s: "rb_split_off (off - rb_off buf) buf = Some (l, r)" "part_of l buf"
    "part_of r buf" "rb_off r = off" "rb_max_off r = rb_max_off buf"
    using split_parts [of buf off] assms by (metis less_imp_le)
  then show ?thesis using True by (auto simp: write_discard_def span_def)
next
  case False
  then show ?thesis
    using assms part_of_refl [of buf] by (auto simp: write_discard_def span_def)
qed

lemma overlay_cong:
  assumes "S \<union> dom C = T \<union> dom C"
  shows "(M |` S) ++ C = (M |` T) ++ C"
proof
  fix i have "i \<in> dom C \<or> (i \<in> S \<longleftrightarrow> i \<in> T)" using assms by blast
  then show "((M |` S) ++ C) i = ((M |` T) ++ C) i"
    by (auto simp: map_add_def restrict_map_def split: option.split)
qed

lemma overlay_stored:
  assumes "m \<subseteq>\<^sub>m M" "dom m \<inter> dom C = {}" "S \<union> dom m \<union> dom C = T \<union> dom C"
  shows "(M |` S) ++ (C ++ m) = (M |` T) ++ C"
proof -
  have "C ++ m = m ++ C" using assms(2) map_add_comm by (metis inf_commute)
  moreover have "(M |` S) ++ m = M |` (S \<union> dom m)"
  proof
    fix i show "((M |` S) ++ m) i = (M |` (S \<union> dom m)) i"
      using assms(1) by (cases "i \<in> dom m") (auto simp: map_le_def map_add_dom_app_simps restrict_map_def)
  qed
  ultimately show ?thesis using overlay_cong [OF assms(3)] by (simp add: map_add_assoc [symmetric])
qed

subsection \<open>The whole write loop\<close>

definition queue_ok :: "(u64 \<rightharpoonup> byte) \<Rightarrow> u64 \<Rightarrow> range_buf list \<Rightarrow> bool" where
  "queue_ok M off Q \<longleftrightarrow>
     (\<forall>p\<in>set Q. fresh p \<and> off \<le> rb_max_off p \<and> rb_max_off p \<le> u64_max \<and> rb_map p \<subseteq>\<^sub>m M)"

text \<open>\<open>extent Q l\<close>: the furthest offset that the buffer and the queue reach.\<close>

definition extent :: "range_buf list \<Rightarrow> u64 \<Rightarrow> u64" where
  "extent Q l = Max (insert l (rb_max_off ` set Q))"

lemma extent_le_iff: "extent Q l \<le> u \<longleftrightarrow> l \<le> u \<and> (\<forall>p\<in>set Q. rb_max_off p \<le> u)"
  by (simp add: extent_def)

lemma extent_eqI: "(\<And>u. extent Q l \<le> u \<longleftrightarrow> extent Q' l' \<le> u) \<Longrightarrow> extent Q l = extent Q' l'"
  by (meson order.antisym order.refl)

lemma queue_ok_parts:
  assumes "queue_ok M off (b # Q)" "\<forall>p\<in>set P. part_of p b'" "part_of b' b" "off \<le> rb_off b'"
  shows "queue_ok M off (Q @ P)"
  unfolding queue_ok_def
proof
  fix p assume p: "p \<in> set (Q @ P)"
  show "fresh p \<and> off \<le> rb_max_off p \<and> rb_max_off p \<le> u64_max \<and> rb_map p \<subseteq>\<^sub>m M"
  proof (cases "p \<in> set Q")
    case True then show ?thesis using assms(1) by (simp add: queue_ok_def)
  next
    case False
    with p assms(2) have "part_of p b'" by auto
    moreover from this have "part_of p b" using part_of_trans assms(3) by blast
    ultimately have "fresh p" "rb_off b' \<le> rb_off p" "rb_max_off p \<le> rb_max_off b"
      "rb_map p \<subseteq>\<^sub>m rb_map b"
      by (simp_all add: part_of_def)
    moreover have "rb_max_off b \<le> u64_max" "rb_map b \<subseteq>\<^sub>m M"
      using assms(1) by (simp_all add: queue_ok_def)
    ultimately show ?thesis
      using assms(4) rb_off_le_max_off [of p] map_le_trans by (meson order.trans)
  qed
qed

lemma extent_parts:
  assumes "\<forall>p\<in>set P. part_of p b'" "rb_max_off b' = rb_max_off b"
    and "reached bs P (rb_max_off b) \<or> rb_max_off b \<le> l'" "\<forall>k c. (k, c) \<in> set bs \<longrightarrow> k \<le> l"
    and "l \<le> l'" "l' \<le> max l (rb_max_off b)"
  shows "extent (Q @ P) l' = extent (b # Q) l"
proof (rule extent_eqI)
  fix u
  have "\<forall>p\<in>set P. rb_max_off p \<le> rb_max_off b" using assms(1,2) by (auto simp: part_of_def)
  moreover have "rb_max_off b \<le> u" if "l' \<le> u" "\<forall>p\<in>set P. rb_max_off p \<le> u"
    using assms(3) that assms(4,5) unfolding reached_def by (metis order.trans)
  ultimately show "extent (Q @ P) l' \<le> u \<longleftrightarrow> extent (b # Q) l \<le> u"
    using assms(5,6) unfolding extent_le_iff by fastforce
qed

lemma write_loop_spec:
  assumes "rv_core r" "queue_ok M (rv_off r) Q"
  shows "\<exists>r'. write_loop r Q = Some r' \<and> rv_core r'
     \<and> r' = r\<lparr>rv_data := rv_data r', rv_len := extent Q (rv_len r)\<rparr>
     \<and> (\<not> rv_drain r \<longrightarrow> rv_content r' = (M |` (pspan Q \<inter> {rv_off r..})) ++ rv_content r)"
  using assms
proof (induction r Q rule: write_loop.induct)
  case (1 r)
  then show ?case by (intro exI [of _ r]) (simp add: extent_def)
next
  case (2 r buf tmp)
  have buf: "fresh buf" "rv_off r \<le> rb_max_off buf" "rb_max_off buf \<le> u64_max" "rb_map buf \<subseteq>\<^sub>m M"
    using "2.prems"(2) by (simp_all add: queue_ok_def)
  obtain b1 where b1: "write_discard (rv_off_front r) buf = Some b1" "part_of b1 buf"
    "rv_off r \<le> rb_off b1" "rb_max_off b1 = rb_max_off buf" "span b1 = span buf \<inter> {rv_off r..}"
    using write_discard_post [OF buf(1,2)] by (auto simp: rv_off_front_def)
  have fresh1: "fresh b1" using b1(2) by (simp add: part_of_def)
  have keys: "\<forall>k c. (k, c) \<in> set (rv_data r) \<longrightarrow> k \<le> rv_len r"
    using "2.prems"(1) by (auto simp: rv_core_def)
  obtain P where "write_place r b1 tmp = Skip (tmp @ P) \<and> skip_post (rv_data r) b1 P
     \<or> (\<exists>b2. write_place r b1 tmp = Store b2 (tmp @ P) \<and> store_post (rv_data r) b1 b2 P)"
    using write_place_post [OF "2.prems"(1) fresh1, of tmp] by blast
  then consider (skip) "write_place r b1 tmp = Skip (tmp @ P)" "skip_post (rv_data r) b1 P"
    | (store) b2 where "write_place r b1 tmp = Store b2 (tmp @ P)" "store_post (rv_data r) b1 b2 P"
    by blast
  then show ?case
  proof cases
    case skip
    have P: "\<forall>p\<in>set P. part_of p b1" "reached (rv_data r) P (rb_max_off buf)"
      "span b1 \<subseteq> spans (rv_data r) \<union> pspan P"
      using skip(2) b1(4) by (simp_all add: skip_post_def)
    have ext: "extent (tmp @ P) (rv_len r) = extent (buf # tmp) (rv_len r)"
      by (rule extent_parts [OF P(1) b1(4) _ keys]) (use P(2) in simp_all)
    have "pspan P \<subseteq> span b1" using P(1) by (fastforce simp: part_of_def span_def)
    then have "pspan (tmp @ P) \<inter> {rv_off r..} \<union> dom (rv_content r)
        = pspan (buf # tmp) \<inter> {rv_off r..} \<union> dom (rv_content r)"
      using P(3) b1(5) unfolding dom_content_spans by auto
    note cong = overlay_cong [OF this, of M]
    show ?thesis
      using "2.IH"(1) [OF b1(1) skip(1) "2.prems"(1) queue_ok_parts [OF "2.prems"(2) P(1) b1(2,3)]]
      unfolding ext cong by (simp add: b1(1) skip(1))
  next
    case store
    let ?r1 = "write_store b2 r"
    have P: "\<forall>p\<in>set P. part_of p b1" "part_of b2 b1"
      "reached (rv_data r) P (rb_max_off buf) \<or> rb_max_off b2 = rb_max_off buf"
      "span b1 \<subseteq> span b2 \<union> spans (rv_data r) \<union> pspan P"
      using store(2) b1(4) by (simp_all add: store_post_def)
    have r1: "rv_off ?r1 = rv_off r" "rv_drain ?r1 = rv_drain r"
      "rv_len ?r1 = max (rv_len r) (rb_max_off b2)"
      by (simp_all add: write_store_def Let_def)
    note st = write_store_post [OF "2.prems"(1) store(2) b1(3) buf(3) [folded b1(4)]]
    have b2: "rb_max_off b2 \<le> rb_max_off buf" "rb_map b2 \<subseteq>\<^sub>m M"
      using P(2) b1(2,4) buf(4) map_le_trans unfolding part_of_def by (auto intro: map_le_trans)
    have ext: "extent (tmp @ P) (rv_len ?r1) = extent (buf # tmp) (rv_len r)"
      using P(3) b2(1) by (intro extent_parts [OF P(1) b1(4) _ keys]) (auto simp: r1(3))
    have sub: "pspan P \<subseteq> span b1" "span b2 \<subseteq> span b1"
      using P(1,2) by (fastforce simp: part_of_def span_def)+
    have "pspan (tmp @ P) \<inter> {rv_off r..} \<union> dom (rb_map b2) \<union> dom (rv_content r)
        = pspan (buf # tmp) \<inter> {rv_off r..} \<union> dom (rv_content r)"
      using P(4) b1(5) sub unfolding dom_content_spans dom_rb_map span_def [symmetric] by auto
    note stored = overlay_stored [OF b2(2) _ this]
    have disj: "dom (rb_map b2) \<inter> dom (rv_content r) = {}"
      using st(3) by (simp add: dom_rb_map span_def)
    have q: "queue_ok M (rv_off ?r1) (tmp @ P)"
      unfolding r1 by (rule queue_ok_parts [OF "2.prems"(2) P(1) b1(2,3)])
    obtain r' where r': "write_loop ?r1 (tmp @ P) = Some r'" "rv_core r'"
      "r' = ?r1\<lparr>rv_data := rv_data r', rv_len := extent (tmp @ P) (rv_len ?r1)\<rparr>"
      "\<not> rv_drain ?r1 \<longrightarrow>
         rv_content r' = (M |` (pspan (tmp @ P) \<inter> {rv_off ?r1..})) ++ rv_content ?r1"
      using "2.IH"(2) [OF b1(1) store(1) st(1) q] by blast
    have "r' = r\<lparr>rv_data := rv_data r', rv_len := extent (buf # tmp) (rv_len r)\<rparr>"
      using r'(3) unfolding ext by (simp add: write_store_def Let_def split: if_splits)
    moreover have "\<not> rv_drain r \<longrightarrow>
        rv_content r' = (M |` (pspan (buf # tmp) \<inter> {rv_off r..})) ++ rv_content r"
      using r'(4) st(2) stored [OF disj] r1 by simp
    ultimately show ?thesis using r'(1,2) by (auto simp: b1(1) store(1))
  qed
qed

definition final_size_conflict :: "range_buf \<Rightarrow> recv_buf \<Rightarrow> bool" where
  "final_size_conflict buf r \<longleftrightarrow>
     (case rv_fin_off r of
        None \<Rightarrow> False
      | Some f \<Rightarrow> rb_max_off buf > f \<or> rb_fin buf \<and> rb_max_off buf \<noteq> f)
     \<or> rb_fin buf \<and> rb_max_off buf < rv_len r"

definition with_fin :: "range_buf \<Rightarrow> recv_buf \<Rightarrow> recv_buf" where
  "with_fin buf r = (if rb_fin buf then r\<lparr>rv_fin_off := Some (rb_max_off buf)\<rparr> else r)"

lemma rv_write_cases:
  "rv_write buf r =
     (if rb_max_off buf > rv_max_data r then (r, Err FlowControl)
      else if final_size_conflict buf r then (r, Err FinalSize)
      else if rb_is_empty buf \<and> (rv_fin_off r \<noteq> None \<or> \<not> rb_fin buf) then (r, Ok ())
      else if rv_off r \<ge> rb_max_off buf \<and> \<not> rb_is_empty buf then (with_fin buf r, Ok ())
      else case write_loop (with_fin buf r) [buf] of
             None \<Rightarrow> (with_fin buf r, Panic) | Some r \<Rightarrow> (r, Ok ()))"
  by (auto simp: rv_write_def final_size_conflict_def with_fin_def Let_def split: option.split)

lemma rv_write_Ok:
  assumes ok: "rv_ok r" and buf: "fresh buf" "rb_max_off buf \<le> rv_max_data r"
    "\<not> final_size_conflict buf r"
  shows "\<exists>r'. rv_write buf r = (r', Ok ()) \<and> rv_ok r'
     \<and> r' = r\<lparr>rv_data := rv_data r',
             rv_len := (if rb_is_empty buf \<and> \<not> rb_fin buf then rv_len r
                        else max (rv_len r) (rb_max_off buf)),
             rv_fin_off := (if rb_fin buf then Some (rb_max_off buf) else rv_fin_off r)\<rparr>
     \<and> (\<not> rv_drain r \<longrightarrow> rv_content r' = (rb_map buf |` {rv_off r..}) ++ rv_content r)"
proof -
  let ?r = "with_fin buf r"
  have core: "rv_core r" and off: "rv_off r \<le> rv_len r"
    and fin: "\<And>f. rv_fin_off r = Some f \<Longrightarrow> f = rv_len r"
    using ok by (auto simp: rv_ok_def rv_core_def)
  have none: "(rb_map buf |` {rv_off r..}) ++ rv_content r = rv_content r"
    if "rb_is_empty buf \<or> rb_max_off buf \<le> rv_off r"
  proof -
    have "rb_map buf |` {rv_off r..} = Map.empty"
      using that by (auto simp: rb_map_def restrict_map_def rb_is_empty_iff)
    then show ?thesis by simp
  qed
  consider (noop) "rb_is_empty buf" "rv_fin_off r \<noteq> None \<or> \<not> rb_fin buf"
    | (old) "\<not> (rb_is_empty buf \<and> (rv_fin_off r \<noteq> None \<or> \<not> rb_fin buf))"
        "rv_off r \<ge> rb_max_off buf" "\<not> rb_is_empty buf"
    | (new) "\<not> (rb_is_empty buf \<and> (rv_fin_off r \<noteq> None \<or> \<not> rb_fin buf))"
        "\<not> (rv_off r \<ge> rb_max_off buf \<and> \<not> rb_is_empty buf)"
    by blast
  then show ?thesis
  proof cases
    case noop
    then show ?thesis
      using buf ok none fin
      by (intro exI [of _ r]) (auto simp: rv_write_cases final_size_conflict_def split: option.splits)
  next
    case old
    have "rb_fin buf \<Longrightarrow> rb_max_off buf = rv_len r"
      using buf(3) old(2) off by (auto simp: final_size_conflict_def)
    then have "rv_ok ?r" using ok by (simp add: with_fin_def rv_ok_def rv_core_def rv_max_data_def)
    then show ?thesis
      using buf old off none by (intro exI [of _ ?r]) (auto simp: rv_write_cases with_fin_def)
  next
    case new
    have c: "rv_core ?r" using core by (simp add: with_fin_def rv_core_def)
    have max: "rv_off r \<le> rb_max_off buf"
      using new buf(3) off by (auto simp: final_size_conflict_def)
    have f [simp]: "rv_off ?r = rv_off r" "rv_drain ?r = rv_drain r" "rv_len ?r = rv_len r"
      "rv_data ?r = rv_data r"
      by (simp_all add: with_fin_def)
    have "queue_ok (rb_map buf) (rv_off ?r) [buf]"
      using buf max ok by (auto simp: queue_ok_def rv_ok_def)
    then obtain r' where r': "write_loop ?r [buf] = Some r'" "rv_core r'"
      "r' = ?r\<lparr>rv_data := rv_data r', rv_len := extent [buf] (rv_len r)\<rparr>"
      "\<not> rv_drain r \<longrightarrow>
        rv_content r' = (rb_map buf |` (pspan [buf] \<inter> {rv_off r..})) ++ rv_content r"
      using write_loop_spec [OF c] by fastforce
    have ext: "extent [buf] (rv_len r) = max (rv_len r) (rb_max_off buf)" by (simp add: extent_def max.commute)
    have res: "rb_map buf |` (pspan [buf] \<inter> {rv_off r..}) = rb_map buf |` {rv_off r..}"
      by (auto simp: restrict_map_def span_def rb_map_def)
    have eq: "r' = r\<lparr>rv_data := rv_data r', rv_len := max (rv_len r) (rb_max_off buf),
             rv_fin_off := (if rb_fin buf then Some (rb_max_off buf) else rv_fin_off r)\<rparr>"
      by (subst r'(3)) (simp add: with_fin_def ext)
    have "rv_max_data r' = rv_max_data r" by (subst eq) (simp add: rv_max_data_def)
    moreover have "f = rv_len r'" if "rv_fin_off r' = Some f" for f
      using that buf(3) fin by (subst (asm) eq, subst eq) (auto simp: final_size_conflict_def split: if_splits)
    ultimately have "rv_ok r'" using r'(2) ok by (cases "rv_fin_off r'") (auto simp: rv_ok_def)
    moreover have "rv_write buf r = (r', Ok ())" using new buf r'(1) by (auto simp: rv_write_cases)
    moreover have "\<not> (rb_is_empty buf \<and> \<not> rb_fin buf)" using new(1) by auto
    ultimately show ?thesis using eq r'(4) unfolding res by auto
  qed
qed

subsection \<open>Reading\<close>

lemma chunks_ok_tl:
  assumes "chunks_ok off ((k, b) # bs)"
  shows "chunks_ok k bs" "k = rb_max_off b" "rb_ok b" "off \<le> rb_off b"
    "dom (content bs) \<subseteq> {k..}"
proof -
  have p: "k = rb_max_off b" "rb_ok b" "off \<le> rb_off b" "chunks_ok off bs"
    "\<And>k' b'. (k', b') \<in> set bs \<Longrightarrow> k < k' \<and> k \<le> rb_off b'"
    using assms by (auto simp: chunks_ok_Cons)
  show "chunks_ok k bs" using p(4,5) unfolding chunks_ok_def by blast
  show "dom (content bs) \<subseteq> {k..}"
    unfolding dom_content_spans spans_def using p(5) by (fastforce simp: span_def)
qed (use assms in \<open>simp_all add: chunks_ok_Cons\<close>)

definition emit_post ::
  "usize \<Rightarrow> u64 \<Rightarrow> range_buf btree \<Rightarrow> byte list \<Rightarrow> u64 \<Rightarrow> range_buf btree \<Rightarrow> bool" where
  "emit_post cap off bs out off' bs' \<longleftrightarrow>
     off' = off + length out \<and> length out \<le> cap
     \<and> (\<forall>i<length out. content bs (off + i) = Some (out ! i))
     \<and> content bs' = content bs |` {off'..}
     \<and> chunks_ok off' bs' \<and> fst ` set bs' \<subseteq> fst ` set bs
     \<and> (length out < cap \<longrightarrow> content bs off' = None)"

lemma restrict_all:
  assumes "dom m \<subseteq> S"
  shows "m |` S = m"
proof
  fix i
  have "i \<notin> S \<Longrightarrow> i \<notin> dom m" using assms by blast
  then show "(m |` S) i = m i" by (cases "i \<in> S") (auto simp: domIff)
qed

lemma emit_loop_post:
  "chunks_ok off bs \<Longrightarrow> emit_loop cap off bs = (out, off', bs') \<Longrightarrow>
   emit_post cap off bs out off' bs'"
proof (induction cap off bs arbitrary: out off' bs' rule: emit_loop.induct)
  case (1 cap off) then show ?case by (simp add: emit_post_def)
next
  case (2 cap off k b bs)
  note ok = chunks_ok_tl [OF "2.prems"(1)]
  let ?n = "min (rb_length b) cap"
  have len: "length (rb_deref b) = rb_length b" using rb_length_deref [OF ok(3)] .
  have above: "dom (content bs) \<union> dom (rb_map b) \<subseteq> {off..}"
  proof -
    have "off \<le> k" using ok(2,4) rb_off_le_max_off [of b] by linarith
    then have "dom (content bs) \<subseteq> {off..}" using ok(5) by (meson atLeast_subset_iff order.trans)
    moreover have "dom (rb_map b) \<subseteq> {off..}" using ok(4) by (auto simp: dom_rb_map)
    ultimately show ?thesis by blast
  qed
  consider (stop) "\<not> (cap > 0 \<and> rb_off b = off)"
    | (part) "cap > 0" "rb_off b = off" "?n < rb_length b"
    | (whole) "cap > 0" "rb_off b = off" "?n = rb_length b"
    by fastforce
  then show ?case
  proof cases
    case stop
    then have e: "out = []" "off' = off" "bs' = (k, b) # bs" using "2.prems"(2) by auto
    have "content ((k, b) # bs) off = None" if "cap > 0"
    proof -
      have "off < rb_off b" using stop that ok(4) by simp
      then have "off < k" using ok(2) rb_off_le_max_off [of b] by linarith
      then show ?thesis
        using ok(5) \<open>off < rb_off b\<close> by (auto simp: map_add_None dom_def rb_map_def)
    qed
    moreover have "content ((k, b) # bs) |` {off..} = content ((k, b) # bs)"
      using above by (intro restrict_all) auto
    ultimately show ?thesis using "2.prems"(1) by (simp add: emit_post_def e)
  next
    case part
    then have e: "out = take cap (rb_deref b)" "off' = off + cap" "bs' = (k, rb_consume cap b) # bs"
      and n: "cap < rb_length b"
      using "2.prems"(2) by (auto simp: Let_def min_def split: if_splits)
    note c = rb_consume_props [OF ok(3) less_imp_le [OF n]] rb_map_consume [OF ok(3) less_imp_le [OF n]]
    have k: "off + cap \<le> k" using n part(2) ok(2) by (simp add: rb_max_off_def)
    have lo: "content ((k, b) # bs) (off + i) = Some (rb_deref b ! i)" if "i < rb_length b" for i
      using that part(2) by (simp add: map_add_Some_iff rb_map_def rb_max_off_def)
    have "content ((k, rb_consume cap b) # bs) = content ((k, b) # bs) |` {off + cap..}"
    proof -
      have "content bs |` {off + cap..} = content bs" using ok(5) k by (intro restrict_all) auto
      then show ?thesis using c(5) part(2)
        by (auto simp: fun_eq_iff map_add_def restrict_map_def split: option.splits) metis+
    qed
    moreover have "chunks_ok (off + cap) ((k, rb_consume cap b) # bs)"
      using "2.prems"(1) c k part(2) chunks_ok_mono [OF ok(1) k] unfolding chunks_ok_Cons by auto
    ultimately show ?thesis using lo n len by (simp add: emit_post_def e)
  next
    case whole
    obtain out2 where e: "emit_loop (cap - rb_length b) (off + rb_length b) bs = (out2, off', bs')"
      "out = rb_deref b @ out2"
      using "2.prems"(2) whole len by (auto simp: Let_def split: prod.splits)
    have k: "k = off + rb_length b" using ok(2) whole(2) by (simp add: rb_max_off_def)
    have ih: "emit_post (cap - rb_length b) k bs out2 off' bs'"
      using "2.IH" [of ?n "take ?n (rb_deref b)" out2 off' bs'] whole ok(1) e(1) k by simp
    have b: "rb_map b i = (if off \<le> i \<and> i < k then Some (rb_deref b ! (i - off)) else None)" for i
      using whole(2) ok(2) by (simp add: rb_map_def)
    have off': "k \<le> off'" using ih by (simp add: emit_post_def)
    have lo: "content ((k, b) # bs) (off + i) = Some (out ! i)" if "i < length out" for i
    proof (cases "i < rb_length b")
      case True then show ?thesis using e(2) len k by (simp add: map_add_Some_iff b nth_append)
    next
      case False
      then obtain j where j: "i = rb_length b + j" by (metis add_diff_inverse)
      then have "content bs (k + j) = Some (out2 ! j)"
        using ih that e(2) len by (simp add: emit_post_def)
      then show ?thesis using j k e(2) len by (simp add: map_add_Some_iff b nth_append add.assoc)
    qed
    have "content bs' = content ((k, b) # bs) |` {off'..}"
      using ih off' by (auto simp: emit_post_def fun_eq_iff map_add_def restrict_map_def b)
    moreover have "content ((k, b) # bs) off' = content bs off'"
      using off' by (simp add: map_add_def b)
    ultimately show ?thesis
      using ih lo e(2) len k whole(3) by (auto simp: emit_post_def)
  qed
qed

lemma rv_emit_Ok:
  assumes ok: "rv_ok r" and ready: "rv_ready r" and err: "rv_error r = None"
  shows "\<exists>r' out. rv_emit cap r = (r', Ok (out, rv_is_fin r')) \<and> rv_ok r'
     \<and> emit_post cap (rv_off r) (rv_data r) out (rv_off r') (rv_data r')
     \<and> rv_len r' = rv_len r \<and> rv_fin_off r' = rv_fin_off r \<and> rv_error r' = None
     \<and> rv_drain r' = rv_drain r
     \<and> rv_flow_control r' = (rv_flow_control r)\<lparr>fc_consumed := fc_consumed (rv_flow_control r) + length out\<rparr>"
proof -
  obtain out off' bs' where e: "emit_loop cap (rv_off r) (rv_data r) = (out, off', bs')"
    by (metis prod_cases3)
  have core: "rv_core r" using ok by (simp add: rv_ok_def)
  then have "chunks_ok (rv_off r) (rv_data r)" by (simp add: rv_core_def)
  note post = emit_loop_post [OF this e]
  have keys: "k \<le> rv_len r" if "(k, b) \<in> set bs'" for k b
  proof -
    have "k \<in> fst ` set (rv_data r)" using post that unfolding emit_post_def by force
    then show ?thesis using core unfolding rv_core_def by auto
  qed
  have off': "off' \<le> rv_len r"
  proof (cases "out = []")
    case True then show ?thesis using post core by (simp add: emit_post_def rv_core_def)
  next
    case False
    then have "content (rv_data r) (rv_off r + (length out - 1)) \<noteq> None"
      using post by (simp add: emit_post_def)
    then have "rv_off r + (length out - 1) \<in> spans (rv_data r)"
      by (simp add: dom_content_spans [symmetric] domIff)
    then obtain k b where "(k, b) \<in> set (rv_data r)" "rv_off r + (length out - 1) < rb_max_off b"
      by (auto simp: spans_def span_def)
    moreover from this have "rb_max_off b \<le> rv_len r"
      using core by (auto simp: rv_core_def chunks_ok_def)
    ultimately show ?thesis using False post unfolding emit_post_def by (cases out) auto
  qed
  let ?fc = "(rv_flow_control r)\<lparr>fc_consumed := fc_consumed (rv_flow_control r) + length out\<rparr>"
  let ?r = "r\<lparr>rv_off := off', rv_data := bs', rv_flow_control := ?fc\<rparr>"
  have consumed: "fc_consumed (rv_flow_control r) + length out \<le> off'"
    using core post by (simp add: rv_core_def emit_post_def)
  then have fc: "fc_add_consumed (length out) (rv_flow_control r) = Some ?fc"
    using off' core by (simp add: fc_add_consumed_def rv_core_def)
  have "rv_data r = [] \<Longrightarrow> bs' = []" using e by simp
  then have "rv_ok ?r"
    using ok post keys off' consumed
    by (auto simp: rv_ok_def rv_core_def emit_post_def rv_max_data_def)
  then show ?thesis
    using ready err e fc post by (intro exI [of _ ?r] exI [of _ out]) (simp add: rv_emit_def Let_def)
qed

lemma rv_reset_Ok:
  assumes ok: "rv_ok r" and err: "rv_error r = None"
    and fs: "rv_fin_off r = None \<or> rv_fin_off r = Some final_size"
      "rv_len r \<le> final_size" "final_size \<le> rv_max_data r"
  shows "rv_reset code final_size r =
     (r\<lparr>rv_error := Some code, rv_off := final_size, rv_len := final_size,
        rv_fin_off := Some final_size,
        rv_data := (if rv_fin_off r = None \<and> \<not> rv_drain r
                    then [(final_size, rb_from [] final_size True)] else [])\<rparr>,
      Ok (final_size - rv_len r))"
proof (cases "rv_fin_off r")
  case None
  then show ?thesis
    using err fs
    by (cases r) (simp add: rv_reset_def rv_write_cases final_size_conflict_def rv_max_data_def
        rb_is_empty_def with_fin_def write_discard_def rv_off_front_def write_place_def
        bt_range_from_def write_store_def max_def Let_def)
next
  case (Some f)
  then have "f = rv_len r" "f = final_size" using ok fs by (auto simp: rv_ok_def)
  then show ?thesis
    using Some err fs
    by (cases r) (simp add: rv_reset_def rv_write_cases final_size_conflict_def rv_max_data_def
        rb_is_empty_def Let_def)
qed

lemma rv_reset_keeps_ok:
  assumes ok: "rv_ok r" and res: "rv_reset code final_size r = (r', Ok delta)"
  shows "rv_ok r'"
proof (cases "rv_error r")
  case (Some e)
  then show ?thesis using assms by (auto simp: rv_reset_def Let_def split: if_splits option.splits)
next
  case None
  have fs: "rv_fin_off r = None \<or> rv_fin_off r = Some final_size" "rv_len r \<le> final_size"
    using res None by (auto simp: rv_reset_def Let_def split: if_splits option.splits)
  have "final_size \<le> rv_max_data r"
  proof (rule ccontr)
    assume "\<not> final_size \<le> rv_max_data r"
    then show False
      using res None by (auto simp: rv_reset_def rv_write_cases rv_max_data_def Let_def
          split: if_splits option.splits)
  qed
  from rv_reset_Ok [OF ok None fs this] res ok this fs show ?thesis
    by (auto simp: rv_ok_def rv_core_def chunks_ok_Cons rv_max_data_def)
qed

lemma rv_shutdown_keeps_ok: "rv_ok r \<Longrightarrow> rv_ok (fst (rv_shutdown r))"
  by (auto simp: rv_shutdown_def Let_def rv_ok_def rv_core_def rv_max_off_def rv_max_data_def)

lemma rv_new_ok: "max_data \<le> u64_max \<Longrightarrow> rv_ok (rv_new max_data max_window)"
  by (simp add: rv_ok_def rv_new_def rv_core_def rv_max_data_def fc_new_def)

subsection \<open>Reachable receive buffers\<close>

inductive rv_reachable :: "recv_buf \<Rightarrow> bool" where
  init: "max_data \<le> u64_max \<Longrightarrow> rv_reachable (rv_new max_data max_window)"
| written: "rv_reachable r \<Longrightarrow> rv_write (rb_from d off fin) r = (r', res) \<Longrightarrow> rv_reachable r'"
| emitted: "rv_reachable r \<Longrightarrow> rv_emit cap r = (r', res) \<Longrightarrow> rv_reachable r'"
| reset: "rv_reachable r \<Longrightarrow> rv_reset code final_size r = (r', Ok delta) \<Longrightarrow> rv_reachable r'"
| shutdown: "rv_reachable r \<Longrightarrow> rv_shutdown r = (r', res) \<Longrightarrow> rv_reachable r'"
| update: "rv_reachable r \<Longrightarrow> rv_update_max_data now r = Some r' \<Longrightarrow> rv_reachable r'"
| autotune: "rv_reachable r \<Longrightarrow> rv_autotune_window now rtt r = Some r' \<Longrightarrow> rv_reachable r'"

lemma rv_write_error:
  "rb_max_off buf > rv_max_data r \<Longrightarrow> rv_write buf r = (r, Err FlowControl)"
  "rb_max_off buf \<le> rv_max_data r \<Longrightarrow> final_size_conflict buf r \<Longrightarrow>
   rv_write buf r = (r, Err FinalSize)"
  by (simp_all add: rv_write_cases)

lemma rv_write_keeps_ok:
  assumes "rv_ok r" "fresh buf" "rv_write buf r = (r', res)"
  shows "rv_ok r'"
proof (cases "rb_max_off buf \<le> rv_max_data r \<and> \<not> final_size_conflict buf r")
  case True
  then show ?thesis using rv_write_Ok [OF assms(1,2)] assms(3) by auto
next
  case False
  then show ?thesis using rv_write_error [where buf = buf and r = r] assms by (metis linorder_not_le old.prod.inject)
qed

lemma rv_emit_keeps_ok:
  assumes "rv_ok r" "rv_emit cap r = (r', res)"
  shows "rv_ok r'"
proof (cases "rv_ready r \<and> rv_error r = None")
  case True
  then show ?thesis using rv_emit_Ok [OF assms(1), of cap] assms(2) by auto
next
  case False
  then show ?thesis
    using assms by (auto simp: rv_emit_def rv_ok_def rv_core_def rv_max_data_def split: if_splits)
qed

lemma rv_flow_control_keeps_ok:
  assumes "rv_ok r" "fc_consumed fc = fc_consumed (rv_flow_control r)" "fc_max_data fc \<le> u64_max"
  shows "rv_ok (r\<lparr>rv_flow_control := fc\<rparr>)"
  using assms by (auto simp: rv_ok_def rv_core_def rv_max_data_def)

lemma rv_reachable_ok: "rv_reachable r \<Longrightarrow> rv_ok r"
proof (induction rule: rv_reachable.induct)
  case (written r d off fin r' res)
  then show ?case using rv_write_keeps_ok [of r "rb_from d off fin"] by simp
next
  case (shutdown r r' res)
  then show ?case using rv_shutdown_keeps_ok [of r] by simp
next
  case (update r now r')
  then show ?case
    by (auto simp: rv_update_max_data_def fc_update_max_data_def fc_max_data_next_def u64_add_def
        split: if_splits intro: rv_flow_control_keeps_ok)
next
  case (autotune r now rtt r')
  moreover have "rv_max_data r \<le> u64_max" using autotune.IH by (simp add: rv_ok_def)
  ultimately show ?case
    by (auto simp: rv_autotune_window_def fc_autotune_window_def rv_max_data_def
        split: if_splits option.splits intro!: rv_flow_control_keeps_ok)
qed (auto intro: rv_new_ok rv_emit_keeps_ok rv_reset_keeps_ok)

subsection \<open>Properties\<close>

text \<open>
  C11: whatever overlaps, gaps and repetitions there are, an accepted chunk adds to the
  receive buffer exactly its bytes at offsets that are not yet read and not yet stored;
  stored bytes are never changed.  The loop ends, no assertion fails, and the invariant is
  kept.
\<close>

theorem rv_write_reassembles:
  assumes "rv_ok r" and "\<not> rv_drain r" and "off + length d \<le> rv_max_data r"
    and "\<not> final_size_conflict (rb_from d off fin) r"
  shows "\<exists>r'. rv_write (rb_from d off fin) r = (r', Ok ()) \<and> rv_ok r'
     \<and> rv_content r' = (rb_map (rb_from d off fin) |` {rv_off r..}) ++ rv_content r
     \<and> rv_off r' = rv_off r
     \<and> rv_fin_off r' = (if fin then Some (off + length d) else rv_fin_off r)"
proof -
  obtain r' where r': "rv_write (rb_from d off fin) r = (r', Ok ())" "rv_ok r'"
    "r' = r\<lparr>rv_data := rv_data r',
             rv_len := (if rb_is_empty (rb_from d off fin) \<and> \<not> rb_fin (rb_from d off fin)
                        then rv_len r else max (rv_len r) (rb_max_off (rb_from d off fin))),
             rv_fin_off := (if rb_fin (rb_from d off fin) then Some (rb_max_off (rb_from d off fin))
                            else rv_fin_off r)\<rparr>"
    "\<not> rv_drain r \<longrightarrow> rv_content r' = (rb_map (rb_from d off fin) |` {rv_off r..}) ++ rv_content r"
    using rv_write_Ok [of r "rb_from d off fin"] assms by auto
  moreover have "rv_off r' = rv_off r" "rv_fin_off r' = (if fin then Some (off + length d) else rv_fin_off r)"
    by (subst r'(3), simp)+
  ultimately show ?thesis using assms(2) by blast
qed

theorem rv_write_reassembles_witness:
  "\<exists>r r'. rv_write (rb_from [5, 6, 7] 2 False) r = (r', Ok ()) \<and> rv_ok r'
     \<and> rv_content r' = (rb_map (rb_from [5, 6, 7] 2 False) |` {0..}) ++ rv_content r
     \<and> rv_off r' = 0 \<and> rv_fin_off r' = None \<and> rv_content r 3 = Some 9"
proof -
  let ?r = "\<lparr>rv_data = [(4, rb_from [9] 3 False)], rv_off = 0, rv_len = 4,
             rv_flow_control = fc_new 100 100 100, rv_fin_off = None, rv_error = None,
             rv_drain = False\<rparr>"
  have a: "rv_ok ?r" "rv_max_data ?r = 100" "rv_content ?r 3 = Some 9"
    by (simp_all add: rv_ok_def rv_core_def chunks_ok_def bt_ok_def rv_max_data_def fc_new_def rb_map_def)
  have b: "\<not> final_size_conflict (rb_from [5, 6, 7] 2 False) ?r"
    by (simp add: final_size_conflict_def)
  show ?thesis by (rule exI [of _ ?r]) (use a b rv_write_reassembles [of ?r 2 "[5, 6, 7]" False] in auto)
qed

text \<open>
  C17: a chunk is refused exactly when it passes the advertised limit (FLOW_CONTROL_ERROR)
  or contradicts the known or implied final size (FINAL_SIZE_ERROR), and a refused chunk
  leaves the buffer as it was.
\<close>

theorem rv_write_rejects:
  assumes "rv_ok r" and "rv_write (rb_from d off fin) r = (r', res)"
  shows "(res = Ok () \<longleftrightarrow> off + length d \<le> rv_max_data r
             \<and> \<not> final_size_conflict (rb_from d off fin) r)
     \<and> (res \<noteq> Ok () \<longrightarrow> r' = r
          \<and> res = Err (if off + length d > rv_max_data r then FlowControl else FinalSize))"
proof -
  have "off + length d \<le> rv_max_data r \<and> \<not> final_size_conflict (rb_from d off fin) r \<Longrightarrow> res = Ok ()"
    using rv_write_Ok [of r "rb_from d off fin"] assms by auto
  then show ?thesis
    using rv_write_error [where buf = "rb_from d off fin" and r = r] assms(2)
    by (cases "off + length d \<le> rv_max_data r") auto
qed

theorem rv_write_rejects_witness:
  "rv_write (rb_from [1, 2] 9 False) (rv_new 10 10) = (rv_new 10 10, Err FlowControl)"
proof -
  obtain r' res where "rv_write (rb_from [1, 2] 9 False) (rv_new 10 10) = (r', res)" by fastforce
  moreover have "rv_ok (rv_new 10 10)" by (simp add: rv_new_ok)
  moreover have "rv_max_data (rv_new 10 10) = 10" by (simp add: rv_max_data_def rv_new_def fc_new_def)
  ultimately show ?thesis using rv_write_rejects [of "rv_new 10 10" "[1, 2]" 9 False r' res] by auto
qed

text \<open>
  C15: reading returns the stored bytes that follow the read offset, in order, stopping only
  when the output is full or the next byte is missing; it removes what it returned and
  reports the end of the stream exactly when the final offset is reached.
\<close>

theorem rv_emit_reads_prefix:
  assumes "rv_ok r" and "rv_ready r" and "rv_error r = None"
  shows "\<exists>r' out fin. rv_emit cap r = (r', Ok (out, fin)) \<and> rv_ok r'
     \<and> rv_off r' = rv_off r + length out \<and> length out \<le> cap
     \<and> map Some out = map (rv_content r) [rv_off r..<rv_off r'] \<and>
     (length out < cap \<longrightarrow> rv_content r (rv_off r') = None)
     \<and> rv_content r' = rv_content r |` {rv_off r'..}
     \<and> (fin \<longleftrightarrow> rv_fin_off r = Some (rv_off r'))"
proof -
  obtain r' out where e: "rv_emit cap r = (r', Ok (out, rv_is_fin r'))" "rv_ok r'"
    "emit_post cap (rv_off r) (rv_data r) out (rv_off r') (rv_data r')" "rv_fin_off r' = rv_fin_off r"
    using rv_emit_Ok [OF assms, of cap] by blast
  then have "map Some out = map (rv_content r) [rv_off r..<rv_off r']"
    by (intro nth_equalityI) (auto simp: emit_post_def)
  with e show ?thesis by (auto simp: emit_post_def rv_is_fin_def)
qed

theorem rv_emit_reads_prefix_witness:
  "\<exists>r r' out fin. rv_emit 4 r = (r', Ok (out, fin)) \<and> rv_ok r'
     \<and> rv_off r' = 3 + length out \<and> length out \<le> 4
     \<and> map Some out = map (rv_content r) [3..<rv_off r']
     \<and> (length out < 4 \<longrightarrow> rv_content r (rv_off r') = None)
     \<and> rv_content r' = rv_content r |` {rv_off r'..}
     \<and> (fin \<longleftrightarrow> Some 5 = Some (rv_off r')) \<and> rv_content r 3 = Some 8"
proof -
  let ?r = "\<lparr>rv_data = [(5, rb_from [8, 9] 3 True)], rv_off = 3, rv_len = 5,
             rv_flow_control = fc_new 100 100 100, rv_fin_off = Some 5, rv_error = None,
             rv_drain = False\<rparr>"
  have a: "rv_ok ?r"
    by (simp add: rv_ok_def rv_core_def chunks_ok_def bt_ok_def rv_max_data_def fc_new_def)
  have b: "rv_ready ?r" "rv_content ?r 3 = Some 8" by (simp_all add: rv_ready_def rb_map_def)
  show ?thesis by (rule exI [of _ ?r]) (use a b rv_emit_reads_prefix [of ?r 4] in simp)
qed

text \<open>
  C18: resetting a stream discards everything buffered, moves the read offset to the final
  size and returns the credit the missing bytes would have used.  The application is
  woken up, and its next read returns the reset code, only when the final size was not
  already known (and reading was not shut down).
\<close>

theorem rv_reset_wakes_reader:
  assumes "rv_ok r" and "rv_error r = None"
    and "rv_fin_off r = None \<or> rv_fin_off r = Some final_size"
    and "rv_len r \<le> final_size" and "final_size \<le> rv_max_data r"
  shows "\<exists>r'. rv_reset code final_size r = (r', Ok (final_size - rv_len r))
     \<and> rv_off r' = final_size \<and> rv_content r' = Map.empty \<and> rv_is_fin r'
     \<and> (rv_ready r' \<longleftrightarrow> rv_fin_off r = None \<and> \<not> rv_drain r)
     \<and> snd (rv_emit cap r') = Err (if rv_ready r' then StreamReset code else Done)"
  using rv_reset_Ok [OF assms]
  by (auto simp: rv_is_fin_def rv_ready_def rv_emit_def rb_map_def)

theorem rv_reset_wakes_reader_witness:
  "\<exists>r r'. rv_reset 7 4 r = (r', Ok 0) \<and> rv_off r' = 4 \<and> rv_content r' = Map.empty
     \<and> rv_is_fin r' \<and> \<not> rv_ready r' \<and> snd (rv_emit 10 r') = Err Done"
proof -
  let ?r = "\<lparr>rv_data = [(4, rb_from [8, 9] 2 True)], rv_off = 2, rv_len = 4,
             rv_flow_control = fc_new 100 100 100, rv_fin_off = Some 4, rv_error = None,
             rv_drain = False\<rparr>"
  have a: "rv_ok ?r"
    by (simp add: rv_ok_def rv_core_def chunks_ok_def bt_ok_def rv_max_data_def fc_new_def)
  have b: "rv_max_data ?r = 100" by (simp add: rv_max_data_def fc_new_def)
  show ?thesis by (rule exI [of _ ?r]) (use a b rv_reset_wakes_reader [of ?r 4 7 10] in auto)
qed



end
