(* ===== verification/SendBuf.thy ===== *)
theory SendBuf
  imports Ranges RangeBuf
begin

text \<open>
  The send side of a stream: \<^verbatim>\<open>SendBuf\<close> of \<^verbatim>\<open>quiche/src/stream/send_buf.rs\<close>.

  The state is the record \<open>send_buf\<close>, field by field.  The chunks hold the bytes that are
  not yet acknowledged contiguously from the start of the stream; the read position inside
  each chunk says which of its bytes still have to be (re)transmitted.

  The specification follows a ghost list \<open>W\<close>: all bytes the application has written to the
  stream, with the byte at offset \<open>i\<close> being \<open>W ! i\<close>.  \<open>sb_ok W s\<close> is the invariant, \<open>sb_pending s\<close>
  the set of offsets still to be sent, \<open>sb_buffered s\<close> the set of offsets held.
\<close>

definition SEND_BUFFER_SIZE :: usize where "SEND_BUFFER_SIZE = 4096"

record send_buf =
  sb_data :: "range_buf list"
  sb_pos :: usize
  sb_off :: u64
  sb_emit_off :: u64
  sb_len :: u64
  sb_max_data :: u64
  sb_blocked_at :: "u64 option"
  sb_fin_off :: "u64 option"
  sb_is_shutdown :: bool
  sb_acked :: range_set
  sb_error :: "u64 option"

definition sb_new :: "u64 \<Rightarrow> send_buf" where
  "sb_new max_data =
     \<lparr>sb_data = [], sb_pos = 0, sb_off = 0, sb_emit_off = 0, sb_len = 0, sb_max_data = max_data,
      sb_blocked_at = None, sb_fin_off = None, sb_is_shutdown = False, sb_acked = rs_default,
      sb_error = None\<rparr>"

definition sb_ack_off :: "send_buf \<Rightarrow> u64" where
  "sb_ack_off s =
     (case rs_iter (sb_acked s) of
        [] \<Rightarrow> 0
      | (start, end) # _ \<Rightarrow> if start = 0 then end else 0)"

definition sb_cap :: "send_buf \<Rightarrow> (error, usize) res" where
  "sb_cap s =
     (case sb_error s of
        Some e \<Rightarrow> Err (StreamStopped e)
      | None \<Rightarrow> or_panic (u64_sub (sb_max_data s) (sb_off s)))"

text \<open>\<^verbatim>\<open>data.chunks(n)\<close>: runs of \<open>n\<close> bytes, the last one possibly shorter.\<close>

function chunks :: "nat \<Rightarrow> 'a list \<Rightarrow> 'a list list" where
  "chunks n xs = (if xs = [] \<or> n = 0 then [] else take n xs # chunks n (drop n xs))"
  by pat_completeness auto
termination by (relation "measure (\<lambda>(n, xs). length xs)") auto

declare chunks.simps [simp del]

text \<open>The loop of \<^verbatim>\<open>write\<close>: one buffer per chunk; \<open>len\<close> counts the bytes queued so far, \<open>input_len\<close>
  is the number of bytes of the (truncated) input.\<close>

fun sb_write_loop :: "byte list list \<Rightarrow> usize \<Rightarrow> usize \<Rightarrow> bool \<Rightarrow> send_buf \<Rightarrow> usize \<times> send_buf" where
  "sb_write_loop [] len input_len fin s = (len, s)"
| "sb_write_loop (chunk # cs) len input_len fin s =
     (let len = len + length chunk;
          buf = rb_from chunk (sb_off s) (len = input_len \<and> fin)
      in sb_write_loop cs len input_len fin
           (s\<lparr>sb_data := sb_data s @ [buf],
              sb_off := sb_off s + length chunk,
              sb_len := sb_len s + length chunk\<rparr>))"

definition sb_write :: "byte list \<Rightarrow> bool \<Rightarrow> send_buf \<Rightarrow> send_buf \<times> (error, usize) res" where
  "sb_write input fin_flag s =
     (case u64_add (sb_off s) (length input) of
        None \<Rightarrow> (s, Panic)
      | Some max_off \<Rightarrow>
          (case sb_cap s of
             Err e \<Rightarrow> (s, Err e)
           | Panic \<Rightarrow> (s, Panic)
           | Ok capacity \<Rightarrow>
               let (bytes, fin) =
                     (if length input > capacity then (take capacity input, False)
                      else (input, fin_flag)) in
               if (case sb_fin_off s of
                     None \<Rightarrow> False
                   | Some fin_off \<Rightarrow> max_off > fin_off \<or> max_off = fin_off \<and> \<not> fin)
               then (s, Err FinalSize)
               else
                 let s = (if fin then s\<lparr>sb_fin_off := Some max_off\<rparr> else s) in
                 if sb_ack_off s \<ge> max_off then (s, Ok (length bytes))
                 else if bytes = [] then (s, Ok (length bytes))
                 else let (len, s) =
                            sb_write_loop (chunks SEND_BUFFER_SIZE bytes) 0 (length bytes) fin s
                      in (s, Ok len)))"

text \<open>\<open>first_pending off bs\<close>: the offset of the first buffer of \<open>bs\<close> that is not empty.\<close>

fun first_pending :: "u64 \<Rightarrow> range_buf list \<Rightarrow> u64" where
  "first_pending off [] = off"
| "first_pending off (b # bs) = (if \<not> rb_is_empty b then rb_off b else first_pending off bs)"

definition sb_off_front :: "send_buf \<Rightarrow> u64" where
  "sb_off_front s = first_pending (sb_off s) (drop (sb_pos s) (sb_data s))"

definition sb_off_back :: "send_buf \<Rightarrow> u64" where
  "sb_off_back s = sb_off s"

definition sb_is_empty :: "send_buf \<Rightarrow> bool" where
  "sb_is_empty s \<longleftrightarrow> sb_data s = []"

text \<open>
  The copy loop of \<^verbatim>\<open>emit\<close>.  \<open>out\<close> is what has been written at the front of the output slice
  and \<open>out_len\<close> the room left behind it; \<open>None\<close> is the underflow of \<^verbatim>\<open>self.len\<close>.
\<close>

function sb_emit_loop ::
  "usize \<Rightarrow> u64 \<Rightarrow> byte list \<Rightarrow> send_buf \<Rightarrow> (usize \<times> u64 \<times> byte list \<times> send_buf) option" where
  "sb_emit_loop out_len next_off out s =
     (if out_len > 0 then
        let off_front = sb_off_front s in
        if sb_is_empty s \<or> off_front \<ge> sb_off s \<or> off_front \<noteq> next_off
           \<or> off_front \<ge> sb_max_data s
        then Some (out_len, next_off, out, s)
        else if sb_pos s < length (sb_data s) then
          let buf = sb_data s ! sb_pos s in
          if rb_is_empty buf
          then sb_emit_loop out_len next_off out (s\<lparr>sb_pos := sb_pos s + 1\<rparr>)
          else
            let buf_len = min (rb_length buf) out_len;
                partial = (buf_len < rb_length buf);
                out = out @ take buf_len (rb_deref buf)
            in (case u64_sub (sb_len s) buf_len of
                  None \<Rightarrow> None
                | Some len \<Rightarrow>
                    let s = s\<lparr>sb_len := len, sb_data := (sb_data s)[sb_pos s := rb_consume buf_len buf]\<rparr>;
                        out_len = out_len - buf_len;
                        next_off = rb_off buf + buf_len
                    in if partial then Some (out_len, next_off, out, s)
                       else sb_emit_loop out_len next_off out (s\<lparr>sb_pos := sb_pos s + 1\<rparr>))
        else Some (out_len, next_off, out, s)
      else Some (out_len, next_off, out, s))"
  by pat_completeness auto
termination
  by (relation "measure (\<lambda>(_, _, _, s). length (sb_data s) - sb_pos s)") auto

declare sb_emit_loop.simps [simp del]

text \<open>\<open>sb_emit cap\<close> is \<^verbatim>\<open>emit\<close> on an output slice of \<open>cap\<close> bytes; the number of bytes the source
  returns is the length of the list returned here.\<close>

definition sb_emit :: "usize \<Rightarrow> send_buf \<Rightarrow> send_buf \<times> (error, byte list \<times> bool) res" where
  "sb_emit cap s =
     (case sb_emit_loop cap (sb_off_front s) [] s of
        None \<Rightarrow> (s, Panic)
      | Some (out_len, next_off, out, s) \<Rightarrow>
          (s\<lparr>sb_emit_off := max (sb_emit_off s) next_off\<rparr>,
           Ok (out, sb_fin_off s = Some next_off)))"

definition sb_update_max_data :: "u64 \<Rightarrow> send_buf \<Rightarrow> send_buf" where
  "sb_update_max_data max_data s = s\<lparr>sb_max_data := max (sb_max_data s) max_data\<rparr>"

definition sb_update_blocked_at :: "u64 option \<Rightarrow> send_buf \<Rightarrow> send_buf" where
  "sb_update_blocked_at blocked_at s = s\<lparr>sb_blocked_at := blocked_at\<rparr>"

definition sb_ack :: "u64 \<Rightarrow> usize \<Rightarrow> send_buf \<Rightarrow> send_buf option" where
  "sb_ack off len s =
     do {
       end \<leftarrow> u64_add off len;
       acked \<leftarrow> rs_insert (off, end) (sb_acked s);
       Some (s\<lparr>sb_acked := acked\<rparr>)
     }"

text \<open>The number of buffers the loop of \<^verbatim>\<open>ack_and_drop\<close> passes before it breaks, that is
  \<^verbatim>\<open>drop_until + 1\<close>, or zero when \<^verbatim>\<open>drop_until\<close> stays \<^verbatim>\<open>None\<close>.\<close>

fun drop_count :: "u64 \<Rightarrow> range_buf list \<Rightarrow> nat" where
  "drop_count ack_off [] = 0"
| "drop_count ack_off (buf # bs) =
     (if rb_offset buf \<ge> ack_off then 0
      else if rb_offset buf < ack_off \<and> ack_off < rb_max_off buf then 0
      else Suc (drop_count ack_off bs))"

definition sb_ack_and_drop :: "u64 \<Rightarrow> usize \<Rightarrow> send_buf \<Rightarrow> send_buf option" where
  "sb_ack_and_drop off len s =
     do {
       s \<leftarrow> sb_ack off len s;
       let ack_off = sb_ack_off s;
       if sb_data s = [] then Some s
       else if off > ack_off then Some s
       else (let n = drop_count ack_off (sb_data s)
             in Some (s\<lparr>sb_data := drop n (sb_data s), sb_pos := sb_pos s - n\<rparr>))
     }"

text \<open>
  One round of \<^verbatim>\<open>retransmit\<close> on the buffer at index \<open>i\<close>: split off what lies behind the lost
  range, move the buffer's position back to the start of the range, and queue the rest.
\<close>

definition rt_split :: "u64 \<Rightarrow> range_buf \<Rightarrow> (range_buf \<times> range_buf option) option" where
  "rt_split max_off buf =
     (if rb_offset buf < max_off \<and> max_off < rb_max_off buf
      then map_option (\<lambda>(l, r). (l, Some r)) (rb_split_off (max_off - rb_offset buf) buf)
      else Some (buf, None))"

definition rt_expand :: "u64 \<Rightarrow> range_buf \<Rightarrow> range_buf" where
  "rt_expand off buf =
     buf\<lparr>rb_pos :=
       (if off > rb_offset buf \<and> off \<le> rb_max_off buf
        then min (rb_pos buf) (rb_start buf + (off - rb_offset buf))
        else rb_start buf)\<rparr>"

definition sb_retransmit_at :: "usize \<Rightarrow> u64 \<Rightarrow> u64 \<Rightarrow> send_buf \<Rightarrow> send_buf option" where
  "sb_retransmit_at i off max_off s =
     do {
       (buf, new_buf) \<leftarrow> rt_split max_off (sb_data s ! i);
       let prev_pos = rb_pos buf;
       let buf = rt_expand off buf;
       len \<leftarrow> u64_add (sb_len s) (prev_pos - rb_pos buf);
       let bufs = (sb_data s)[i := buf];
       let bufs = (case new_buf of None \<Rightarrow> bufs | Some b \<Rightarrow> vec_insert (i + 1) b bufs);
       Some (s\<lparr>sb_data := bufs, sb_pos := min (sb_pos s) i, sb_len := len\<rparr>)
     }"

text \<open>
  The loop of \<^verbatim>\<open>retransmit\<close>, with \<open>k\<close> rounds left of \<^verbatim>\<open>for i in 0..self.data.len()\<close>: the number
  of rounds is fixed before the first one, although a round can insert a buffer.
\<close>

fun sb_retransmit_loop :: "nat \<Rightarrow> usize \<Rightarrow> u64 \<Rightarrow> u64 \<Rightarrow> send_buf \<Rightarrow> send_buf option" where
  "sb_retransmit_loop 0 i off max_off s = Some s"
| "sb_retransmit_loop (Suc k) i off max_off s =
     (if length (sb_data s) \<le> i then None
      else if rb_offset (sb_data s ! i) \<ge> max_off then Some s
      else if off > rb_max_off (sb_data s ! i) then sb_retransmit_loop k (i + 1) off max_off s
      else Option.bind (sb_retransmit_at i off max_off s) (sb_retransmit_loop k (i + 1) off max_off))"

definition sb_retransmit :: "u64 \<Rightarrow> usize \<Rightarrow> send_buf \<Rightarrow> send_buf option" where
  "sb_retransmit off len s =
     (case u64_add off len of
        None \<Rightarrow> None
      | Some max_off \<Rightarrow>
          if sb_data s = [] then Some s
          else if max_off \<le> sb_ack_off s then Some s
          else sb_retransmit_loop (length (sb_data s)) 0 off max_off s)"

text \<open>\<^verbatim>\<open>reset\<close> returns \<^verbatim>\<open>(self.emit_off, unsent_len)\<close> beside the new state.\<close>

definition sb_reset :: "send_buf \<Rightarrow> (send_buf \<times> u64 \<times> u64) option" where
  "sb_reset s =
     (let unsent_off = max (sb_off_front s) (sb_emit_off s);
          unsent_len = sb_off_back s - unsent_off;
          s = s\<lparr>sb_fin_off := Some unsent_off, sb_data := [], sb_off := unsent_off\<rparr>
      in map_option
           (\<lambda>s. (s\<lparr>sb_pos := 0, sb_len := 0\<rparr>, sb_emit_off s, unsent_len))
           (sb_ack 0 (sb_off s) s))"

definition sb_stop :: "u64 \<Rightarrow> send_buf \<Rightarrow> send_buf \<times> (error, u64 \<times> u64) res" where
  "sb_stop error_code s =
     (if sb_error s \<noteq> None then (s, Err Done)
      else case sb_reset s of
             None \<Rightarrow> (s, Panic)
           | Some (s, max_off, unsent) \<Rightarrow> (s\<lparr>sb_error := Some error_code\<rparr>, Ok (max_off, unsent)))"

definition sb_shutdown :: "send_buf \<Rightarrow> send_buf \<times> (error, u64 \<times> u64) res" where
  "sb_shutdown s =
     (if sb_is_shutdown s then (s, Err Done)
      else let s = s\<lparr>sb_is_shutdown := True\<rparr>
           in case sb_reset s of
                None \<Rightarrow> (s, Panic)
              | Some (s, max_off, unsent) \<Rightarrow> (s, Ok (max_off, unsent)))"

definition sb_is_fin :: "send_buf \<Rightarrow> bool" where
  "sb_is_fin s \<longleftrightarrow> sb_fin_off s = Some (sb_off s)"

definition sb_is_complete :: "send_buf \<Rightarrow> bool" where
  "sb_is_complete s \<longleftrightarrow>
     (case sb_fin_off s of None \<Rightarrow> False | Some fin_off \<Rightarrow> rs_eq_range (sb_acked s) (0, fin_off))"

definition sb_is_stopped :: "send_buf \<Rightarrow> bool" where
  "sb_is_stopped s \<longleftrightarrow> sb_error s \<noteq> None"

subsection \<open>Invariant and abstract state\<close>

text \<open>The chunks cover the offsets from \<open>lo\<close> to \<open>hi\<close> without gaps.\<close>

fun contiguous :: "u64 \<Rightarrow> range_buf list \<Rightarrow> u64 \<Rightarrow> bool" where
  "contiguous lo [] hi \<longleftrightarrow> lo = hi"
| "contiguous lo (b # bs) hi \<longleftrightarrow>
     rb_ok b \<and> rb_offset b = lo \<and> 0 < rb_len b \<and> contiguous (lo + rb_len b) bs hi"

definition chunk_of :: "byte list \<Rightarrow> range_buf \<Rightarrow> bool" where
  "chunk_of W b \<longleftrightarrow> seg (rb_start b) (rb_len b) (rb_data b) = seg (rb_offset b) (rb_len b) W"

definition pending :: "range_buf list \<Rightarrow> u64 set" where
  "pending bs = (\<Union>b\<in>set bs. span b)"

abbreviation pending_len :: "range_buf list \<Rightarrow> nat" where
  "pending_len bs \<equiv> sum_list (map rb_length bs)"

abbreviation sb_pending :: "send_buf \<Rightarrow> u64 set" where
  "sb_pending s \<equiv> pending (sb_data s)"

definition sb_front :: "send_buf \<Rightarrow> u64" where
  "sb_front s = (case sb_data s of [] \<Rightarrow> sb_off s | b # _ \<Rightarrow> rb_offset b)"

definition sb_core :: "byte list \<Rightarrow> send_buf \<Rightarrow> bool" where
  "sb_core W s \<longleftrightarrow>
     contiguous (sb_front s) (sb_data s) (sb_off s) \<and> (\<forall>b\<in>set (sb_data s). chunk_of W b)
     \<and> length W = sb_off s \<and> sb_pos s \<le> length (sb_data s)
     \<and> (\<forall>b\<in>set (take (sb_pos s) (sb_data s)). rb_is_empty b)
     \<and> pending_len (sb_data s) \<le> sb_len s
     \<and> sb_off s \<le> sb_max_data s \<and> sb_max_data s \<le> u64_max"

definition acked_ok :: "range_set \<Rightarrow> u64 \<Rightarrow> bool" where
  "acked_ok acked emit_off \<longleftrightarrow>
     rs_wf acked \<and> rs_capacity acked = usize_max \<and> (\<forall>s e. (s, e) \<in> set (rs_iter acked) \<longrightarrow> e \<le> emit_off)"

definition sb_ok :: "byte list \<Rightarrow> send_buf \<Rightarrow> bool" where
  "sb_ok W s \<longleftrightarrow> sb_core W s \<and> acked_ok (sb_acked s) (sb_emit_off s)
     \<and> sb_front s \<le> sb_ack_off s \<and> sb_emit_off s \<le> sb_off s
     \<and> {sb_emit_off s..<sb_off s} \<subseteq> sb_pending s
     \<and> (sb_fin_off s = None \<or> sb_fin_off s = Some (sb_off s))"

lemma pending_simps [simp]:
  "pending [] = {}" "pending (b # bs) = span b \<union> pending bs"
  "pending (bs @ bs') = pending bs \<union> pending bs'"
  by (auto simp: pending_def)

lemma span_empty: "rb_is_empty b \<Longrightarrow> span b = {}"
  by (simp add: span_def rb_is_empty_iff)

lemma pending_empty: "\<forall>b\<in>set bs. rb_is_empty b \<Longrightarrow> pending bs = {}"
  by (simp add: pending_def span_empty)

lemma rb_ok_max_off: "rb_ok b \<Longrightarrow> rb_max_off b = rb_offset b + rb_len b \<and> rb_offset b \<le> rb_off b"
  by (auto simp: rb_ok_def rb_max_off_def rb_off_def rb_length_def)

lemma contiguous_le: "contiguous lo bs hi \<Longrightarrow> lo \<le> hi"
  by (induction lo bs hi rule: contiguous.induct) auto

lemma contiguous_append:
  "contiguous lo (xs @ ys) hi \<longleftrightarrow> (\<exists>m. contiguous lo xs m \<and> contiguous m ys hi)"
  by (induction xs arbitrary: lo) auto

lemma contiguous_pending: "contiguous lo bs hi \<Longrightarrow> pending bs \<subseteq> {lo..<hi}"
proof (induction lo bs hi rule: contiguous.induct)
  case (2 lo b bs hi)
  then have "span b \<subseteq> {lo..<lo + rb_len b}" using rb_ok_max_off [of b] by (auto simp: span_def)
  moreover have "lo + rb_len b \<le> hi" using "2.prems" contiguous_le by auto
  ultimately show ?case using 2 by (fastforce simp: subset_iff)
qed simp

lemma contiguous_mem:
  "contiguous lo bs hi \<Longrightarrow> b \<in> set bs \<Longrightarrow>
   rb_ok b \<and> 0 < rb_len b \<and> lo \<le> rb_offset b \<and> rb_offset b + rb_len b \<le> hi"
proof (induction lo bs hi rule: contiguous.induct)
  case (2 lo c bs hi)
  then show ?case using contiguous_le [of "lo + rb_len c" bs hi] by auto
qed simp

lemma contiguous_front:
  "contiguous lo bs hi \<Longrightarrow> lo = (case bs of [] \<Rightarrow> hi | b # _ \<Rightarrow> rb_offset b)"
  by (cases bs) auto

lemma sb_front_eqI: "contiguous lo (sb_data s) (sb_off s) \<Longrightarrow> sb_front s = lo"
  using contiguous_front by (simp add: sb_front_def)

lemma sb_front_simps [simp]:
  "sb_front (s\<lparr>sb_pos := p\<rparr>) = sb_front s"
  "sb_front (s\<lparr>sb_emit_off := e\<rparr>) = sb_front s"
  "sb_front (s\<lparr>sb_acked := a\<rparr>) = sb_front s"
  "sb_front (s\<lparr>sb_fin_off := f\<rparr>) = sb_front s"
  "sb_front (s\<lparr>sb_max_data := m\<rparr>) = sb_front s"
  by (simp_all add: sb_front_def split: list.split)

lemma first_pending_least:
  "contiguous lo bs hi \<Longrightarrow>
   (first_pending hi bs \<in> pending bs \<or> pending bs = {} \<and> first_pending hi bs = hi)
   \<and> (\<forall>x\<in>pending bs. first_pending hi bs \<le> x)"
proof (induction lo bs hi rule: contiguous.induct)
  case (2 lo b bs hi)
  have above: "rb_max_off b \<le> y" if "y \<in> pending bs" for y
    using contiguous_pending [of "lo + rb_len b" bs hi] "2.prems" rb_ok_max_off [of b] that by auto
  show ?case
  proof (cases "rb_is_empty b")
    case True
    then show ?thesis using 2 by (simp add: span_empty)
  next
    case False
    then have "rb_off b \<in> span b" by (auto simp: rb_is_empty_iff span_def order_less_le)
    moreover have "\<forall>x\<in>span b \<union> pending bs. rb_off b \<le> x"
      using order.trans [OF rb_off_le_max_off above] by (auto simp: span_def)
    ultimately show ?thesis using False by simp
  qed
qed simp

lemmas first_pending_spec = first_pending_least [THEN conjunct1]
  first_pending_least [THEN conjunct2, rule_format]

lemma chunk_of_take:
  assumes "rb_ok b" "chunk_of W b" "n \<le> rb_length b"
  shows "take n (rb_deref b) = seg (rb_off b) n W"
proof -
  let ?k = "rb_pos b - rb_start b"
  have k: "rb_start b + ?k = rb_pos b" "rb_offset b + ?k = rb_off b" "?k + n \<le> rb_len b"
    "n \<le> rb_start b + rb_len b - rb_pos b"
    using assms(1,3) by (auto simp: rb_ok_def rb_off_def rb_length_def)
  have "take n (rb_deref b) = seg ?k n (seg (rb_start b) (rb_len b) (rb_data b))"
    using k by (simp add: rb_deref_def take_seg seg_seg min_absorb1)
  also have "\<dots> = seg ?k n (seg (rb_offset b) (rb_len b) W)"
    using assms(2) by (simp add: chunk_of_def)
  finally show ?thesis using k by (simp add: seg_seg)
qed

subsection \<open>Sending\<close>

lemma sb_core_split:
  assumes "sb_core W s" "sb_pos s < length (sb_data s)"
  obtains pre buf rest where "sb_data s = pre @ buf # rest" "length pre = sb_pos s"
    "sb_data s ! sb_pos s = buf" "contiguous (sb_front s) pre (rb_offset buf)"
    "contiguous (rb_max_off buf) rest (sb_off s)" "rb_ok buf" "chunk_of W buf" "0 < rb_len buf"
    "pending pre = {}" "pending rest \<subseteq> {rb_max_off buf..}"
proof -
  define pre buf rest where "pre = take (sb_pos s) (sb_data s)" and "buf = sb_data s ! sb_pos s"
    and "rest = drop (Suc (sb_pos s)) (sb_data s)"
  have d: "sb_data s = pre @ buf # rest"
    using id_take_nth_drop [OF assms(2)] by (simp add: pre_def buf_def rest_def)
  have c: "contiguous (sb_front s) (pre @ buf # rest) (sb_off s)"
    using assms(1) unfolding d [symmetric] by (simp add: sb_core_def)
  have e: "pending pre = {}" using assms(1) by (intro pending_empty) (simp add: sb_core_def pre_def)
  have w: "chunk_of W buf" using assms by (simp add: sb_core_def buf_def)
  from c obtain m where m: "contiguous (sb_front s) pre m" "contiguous m (buf # rest) (sb_off s)"
    by (auto simp: contiguous_append)
  then have b: "rb_ok buf" "rb_offset buf = m" "0 < rb_len buf" "rb_max_off buf = m + rb_len buf"
    using rb_ok_max_off [of buf] by auto
  then have r: "contiguous (rb_max_off buf) rest (sb_off s)" using m(2) by simp
  then have "pending rest \<subseteq> {rb_max_off buf..}" using contiguous_pending by fastforce
  then show thesis
    using that [OF d _ _ _ r b(1) w b(3) e] m(1) b(2) assms(2) by (simp add: pre_def buf_def)
qed

lemma sb_core_consume:
  assumes core: "sb_core W s" and pos: "sb_pos s < length (sb_data s)"
    and n: "n \<le> rb_length (sb_data s ! sb_pos s)"
  defines "buf \<equiv> sb_data s ! sb_pos s"
  defines "s' \<equiv> s\<lparr>sb_len := sb_len s - n, sb_data := (sb_data s)[sb_pos s := rb_consume n buf]\<rparr>"
  shows "sb_core W s'" "sb_front s' = sb_front s" "n \<le> sb_len s"
    "sb_pending s' = sb_pending s - {rb_off buf..<rb_off buf + n}"
    "{rb_off buf..<rb_off buf + n} \<subseteq> sb_pending s"
proof -
  obtain pre b rest where d: "sb_data s = pre @ b # rest" "length pre = sb_pos s"
    "sb_data s ! sb_pos s = b" "contiguous (sb_front s) pre (rb_offset b)"
    "contiguous (rb_max_off b) rest (sb_off s)" "rb_ok b" "chunk_of W b" "0 < rb_len b"
    "pending pre = {}" "pending rest \<subseteq> {rb_max_off b..}"
    using sb_core_split [OF core pos] by metis
  have b: "b = buf" "n \<le> rb_length b" using d(3) n by (simp_all add: buf_def)
  note c = rb_consume_props [OF d(6) b(2)]
  have f: "rb_offset (rb_consume n b) = rb_offset b" "rb_len (rb_consume n b) = rb_len b"
    "chunk_of W (rb_consume n b)" "rb_length (rb_consume n b) = rb_length b - n"
    using d(6,7) by (auto simp: rb_consume_def chunk_of_def rb_length_def rb_ok_def)
  have d': "sb_data s' = pre @ rb_consume n b # rest"
    unfolding s'_def using d(1,2) b(1) by (simp flip: d(2))
  have max: "rb_offset b + rb_len b = rb_max_off b" using rb_ok_max_off [OF d(6)] by simp
  have cont: "contiguous (sb_front s) (sb_data s') (sb_off s)"
    unfolding d' contiguous_append using d(4-6,8) f c max by (auto intro!: exI [of _ "rb_offset b"])
  then show front: "sb_front s' = sb_front s" by (intro sb_front_eqI) (simp add: s'_def)
  have len: "pending_len pre + (rb_length b + pending_len rest) \<le> sb_len s"
    using core d(1) by (simp add: sb_core_def)
  then show "n \<le> sb_len s" using b(2) by simp
  have "pending_len (sb_data s') \<le> sb_len s'"
    using len f(4) b(2) diff_le_mono [OF len, of n] unfolding d' by (simp add: s'_def)
  moreover have "take (sb_pos s') (sb_data s') = take (sb_pos s) (sb_data s)"
    unfolding d' using d(1) by (simp add: s'_def flip: d(2))
  moreover have "\<forall>b\<in>set (sb_data s'). chunk_of W b"
    using core d(1) f(3) unfolding d' by (auto simp: sb_core_def)
  moreover have "length (sb_data s') = length (sb_data s)" unfolding d' d(1) by simp
  ultimately show "sb_core W s'" using core cont front by (simp add: sb_core_def s'_def)
  have le: "rb_off b + n \<le> rb_max_off b" using b(2) by (simp add: rb_max_off_def)
  then have sp: "span (rb_consume n b) = span b - {rb_off b..<rb_off b + n}"
    using c by (auto simp: span_def)
  have "pending rest \<inter> {rb_off b..<rb_off b + n} = {}" using d(10) le by fastforce
  then show "sb_pending s' = sb_pending s - {rb_off buf..<rb_off buf + n}"
    unfolding d' d(1) b(1) [symmetric] using sp d(9) by auto
  show "{rb_off buf..<rb_off buf + n} \<subseteq> sb_pending s"
    unfolding d(1) b(1) [symmetric] using le by (auto simp: span_def)
qed

lemma sb_core_skip:
  assumes core: "sb_core W s" and pos: "sb_pos s < length (sb_data s)"
    and empty: "rb_is_empty (sb_data s ! sb_pos s)"
  shows "sb_core W (s\<lparr>sb_pos := sb_pos s + 1\<rparr>)"
  using assms by (auto simp: sb_core_def take_Suc_conv_app_nth)

lemma sb_off_front_spec:
  assumes "sb_core W s"
  shows "sb_off_front s \<in> sb_pending s \<or> sb_pending s = {} \<and> sb_off_front s = sb_off s"
    and "x \<in> sb_pending s \<Longrightarrow> sb_off_front s \<le> x"
proof -
  let ?pre = "take (sb_pos s) (sb_data s)" and ?rest = "drop (sb_pos s) (sb_data s)"
  have "contiguous (sb_front s) (?pre @ ?rest) (sb_off s)" using assms by (simp add: sb_core_def)
  then obtain m where m: "contiguous m ?rest (sb_off s)" by (metis contiguous_append)
  have "pending ?pre = {}" using assms by (intro pending_empty) (simp add: sb_core_def)
  then have p: "sb_pending s = pending ?rest"
    by (metis append_take_drop_id pending_simps(3) sup_bot_left)
  show "sb_off_front s \<in> sb_pending s \<or> sb_pending s = {} \<and> sb_off_front s = sb_off s"
    "x \<in> sb_pending s \<Longrightarrow> sb_off_front s \<le> x"
    using first_pending_spec [OF m] unfolding sb_off_front_def p by blast+
qed

lemma sb_core_pending: "sb_core W s \<Longrightarrow> sb_pending s \<subseteq> {sb_front s..<sb_off s}"
  using contiguous_pending by (simp add: sb_core_def)

text \<open>Everything but the buffers, the position and the count of buffered bytes is the same.\<close>

definition same_stream :: "send_buf \<Rightarrow> send_buf \<Rightarrow> bool" where
  "same_stream s s' \<longleftrightarrow>
     sb_off s' = sb_off s \<and> sb_emit_off s' = sb_emit_off s \<and> sb_max_data s' = sb_max_data s
     \<and> sb_blocked_at s' = sb_blocked_at s \<and> sb_fin_off s' = sb_fin_off s
     \<and> sb_is_shutdown s' = sb_is_shutdown s \<and> sb_acked s' = sb_acked s \<and> sb_error s' = sb_error s"

definition emitted_to :: "byte list \<Rightarrow> send_buf \<Rightarrow> u64 \<Rightarrow> usize \<Rightarrow> send_buf \<Rightarrow> bool" where
  "emitted_to W s next_off n s' \<longleftrightarrow>
     same_stream s s' \<and> sb_core W s' \<and> sb_front s' = sb_front s
     \<and> {next_off..<next_off + n} \<subseteq> sb_pending s
     \<and> sb_pending s' = sb_pending s - {next_off..<next_off + n}"

lemma emitted_to_0: "sb_core W s \<Longrightarrow> emitted_to W s next_off 0 s"
  by (simp add: emitted_to_def same_stream_def)

lemma emitted_to_trans:
  assumes "emitted_to W s n1 a s1" "emitted_to W s1 (n1 + a) b s2"
  shows "emitted_to W s n1 (a + b) s2"
proof -
  have "{n1..<n1 + (a + b)} = {n1..<n1 + a} \<union> {n1 + a..<n1 + a + b}" by auto
  then show ?thesis using assms unfolding emitted_to_def same_stream_def by auto
qed

lemma emitted_to_skip:
  "sb_core W (s\<lparr>sb_pos := p\<rparr>) \<Longrightarrow> emitted_to W (s\<lparr>sb_pos := p\<rparr>) next_off n s' \<Longrightarrow>
   emitted_to W s next_off n s'"
  by (simp add: emitted_to_def same_stream_def)

lemma sb_emit_stop:
  assumes "sb_core W s" "\<forall>x\<in>sb_pending s. next_off \<le> x"
    and "sb_is_empty s \<or> sb_off_front s \<ge> sb_off s \<or> sb_off_front s \<noteq> next_off
         \<or> sb_off_front s \<ge> sb_max_data s \<or> \<not> sb_pos s < length (sb_data s)"
  shows "next_off \<notin> sb_pending s"
proof
  assume n: "next_off \<in> sb_pending s"
  note f = sb_off_front_spec [OF assms(1)]
  have eq: "sb_off_front s = next_off" using f n assms(2) by (metis empty_iff order.antisym)
  moreover have "next_off < sb_off s" using sb_core_pending [OF assms(1)] n by auto
  moreover have "sb_off s \<le> sb_max_data s" using assms(1) by (simp add: sb_core_def)
  moreover have "sb_data s \<noteq> []" using n by auto
  moreover have "sb_pos s < length (sb_data s)"
  proof (rule ccontr)
    assume "\<not> sb_pos s < length (sb_data s)"
    then have "\<forall>b\<in>set (sb_data s). rb_is_empty b" using assms(1) by (auto simp: sb_core_def)
    then show False using n pending_empty by auto
  qed
  ultimately show False using assms(3) by (auto simp: sb_is_empty_def)
qed

lemma sb_emit_loop_spec:
  assumes "sb_core W s" "\<forall>x\<in>sb_pending s. next_off \<le> x"
  shows "\<exists>n s'. sb_emit_loop out_len next_off out s
             = Some (out_len - n, next_off + n, out @ seg next_off n W, s')
           \<and> n \<le> out_len \<and> emitted_to W s next_off n s'
           \<and> (n < out_len \<longrightarrow> next_off + n \<notin> sb_pending s)"
  using assms
proof (induction out_len next_off out s rule: sb_emit_loop.induct)
  case (1 out_len next_off out s)
  note core = "1.prems"(1) and low = "1.prems"(2)
  let ?stop = "sb_is_empty s \<or> sb_off_front s \<ge> sb_off s \<or> sb_off_front s \<noteq> next_off
         \<or> sb_off_front s \<ge> sb_max_data s"
  let ?buf = "sb_data s ! sb_pos s"
  consider (full) "out_len = 0" | (stop) "out_len > 0" "?stop \<or> \<not> sb_pos s < length (sb_data s)"
    | (skip) "out_len > 0" "\<not> ?stop" "sb_pos s < length (sb_data s)" "rb_is_empty ?buf"
    | (copy) "out_len > 0" "\<not> ?stop" "sb_pos s < length (sb_data s)" "\<not> rb_is_empty ?buf"
    by blast
  then show ?case
  proof cases
    case full
    then have "sb_emit_loop out_len next_off out s = Some (out_len, next_off, out, s)"
      by (subst sb_emit_loop.simps) simp
    then show ?thesis
      using emitted_to_0 [OF core] full by (intro exI [of _ 0] exI [of _ s]) simp
  next
    case stop
    then have "sb_emit_loop out_len next_off out s = Some (out_len, next_off, out, s)"
      by (subst sb_emit_loop.simps) (auto simp: Let_def)
    moreover have "next_off \<notin> sb_pending s" using sb_emit_stop [OF core low] stop(2) by blast
    ultimately show ?thesis
      using emitted_to_0 [OF core] by (intro exI [of _ 0] exI [of _ s]) simp
  next
    case skip
    note core' = sb_core_skip [OF core skip(3,4)]
    have step: "sb_emit_loop out_len next_off out s
        = sb_emit_loop out_len next_off out (s\<lparr>sb_pos := sb_pos s + 1\<rparr>)"
      using skip by (subst sb_emit_loop.simps) (simp add: Let_def)
    have "\<exists>n s'. sb_emit_loop out_len next_off out (s\<lparr>sb_pos := sb_pos s + 1\<rparr>)
             = Some (out_len - n, next_off + n, out @ seg next_off n W, s')
           \<and> n \<le> out_len \<and> emitted_to W (s\<lparr>sb_pos := sb_pos s + 1\<rparr>) next_off n s'
           \<and> (n < out_len \<longrightarrow> next_off + n \<notin> sb_pending (s\<lparr>sb_pos := sb_pos s + 1\<rparr>))"
      using "1.IH"(1) [OF skip(1) refl skip(2,3) refl skip(4) core'] low by simp
    then show ?thesis unfolding step using emitted_to_skip [OF core'] by auto
  next
    case copy
    let ?n = "min (rb_length ?buf) out_len"
    let ?s1 = "s\<lparr>sb_len := sb_len s - ?n, sb_data := (sb_data s)[sb_pos s := rb_consume ?n ?buf]\<rparr>"
    note c = sb_core_consume [OF core copy(3), of ?n, simplified]
    obtain rest where d: "drop (sb_pos s) (sb_data s) = ?buf # rest"
      using copy(3) by (metis Cons_nth_drop_Suc)
    then have front: "rb_off ?buf = next_off" using copy(2,4) by (simp add: sb_off_front_def)
    have n: "?n \<le> sb_len s" "0 < ?n"
      using c(3) copy(1,4) by (simp_all add: rb_is_empty_def)
    have ok: "rb_ok ?buf" "chunk_of W ?buf"
      using core copy(3) contiguous_mem [of "sb_front s" "sb_data s" "sb_off s" ?buf]
      by (simp_all add: sb_core_def)
    have out: "take ?n (rb_deref ?buf) = seg next_off ?n W"
      using chunk_of_take [OF ok, of ?n] front by simp
    have e1: "emitted_to W s next_off ?n ?s1"
      using c(1,2,4,5) front by (simp add: emitted_to_def same_stream_def)
    show ?thesis
    proof (cases "?n < rb_length ?buf")
      case True
      then have "?n = out_len" "out_len < rb_length ?buf" by simp_all
      then show ?thesis
        using copy n out front e1
        by (intro exI [of _ ?n] exI [of _ ?s1]) (subst sb_emit_loop.simps, simp add: Let_def)
    next
      case False
      let ?s2 = "?s1\<lparr>sb_pos := sb_pos s + 1\<rparr>"
      have empty: "rb_is_empty (sb_data ?s1 ! sb_pos ?s1)"
        using False copy(3) ok(1)
        by (simp add: rb_is_empty_def rb_consume_def rb_length_def rb_ok_def)
      have core2: "sb_core W ?s2"
        using sb_core_skip [OF c(1) _ empty] copy(3) by simp
      have low2: "\<forall>x\<in>sb_pending ?s2. next_off + ?n \<le> x"
        using c(4) low front by (auto simp: linorder_not_less)
      have step: "sb_emit_loop out_len next_off out s
          = sb_emit_loop (out_len - ?n) (next_off + ?n) (out @ seg next_off ?n W) ?s2"
        using copy False n out front by (subst sb_emit_loop.simps) (simp add: Let_def)
      obtain m s' where m: "sb_emit_loop (out_len - ?n) (next_off + ?n) (out @ seg next_off ?n W) ?s2
           = Some (out_len - ?n - m, next_off + ?n + m,
                   (out @ seg next_off ?n W) @ seg (next_off + ?n) m W, s')"
        "m \<le> out_len - ?n" "emitted_to W ?s2 (next_off + ?n) m s'"
        "m < out_len - ?n \<longrightarrow> next_off + ?n + m \<notin> sb_pending ?s2"
        using "1.IH"(2) [OF copy(1) refl copy(2,3) refl copy(4) refl refl refl, of "sb_len s - ?n",
            OF _ refl refl refl False] n(1) core2 low2 out front
        by auto
      have "emitted_to W s next_off (?n + m) s'"
        using emitted_to_trans [OF e1] emitted_to_skip [OF _ m(3)] core2 by simp
      moreover have "next_off + (?n + m) \<notin> sb_pending s" if "?n + m < out_len"
        using m(4) that c(4) front by (auto simp: add.assoc)
      ultimately show ?thesis
        unfolding step m(1) using m(2) n
        by (intro exI [of _ "?n + m"] exI [of _ s']) (auto simp: seg_append_seg add.assoc)
    qed
  qed
qed

lemma sb_ack_off_le: "acked_ok (sb_acked s) e \<Longrightarrow> sb_ack_off s \<le> e"
  by (auto simp: acked_ok_def sb_ack_off_def split: list.split)

lemma sb_emit_Ok:
  assumes ok: "sb_ok W s"
  shows "\<exists>n s'. sb_emit cap s = (s', Ok (seg (sb_off_front s) n W, sb_fin_off s = Some (sb_off_front s + n)))
     \<and> sb_ok W s' \<and> n \<le> cap \<and> sb_off_front s + n \<le> sb_off s
     \<and> {sb_off_front s..<sb_off_front s + n} \<subseteq> sb_pending s
     \<and> sb_pending s' = sb_pending s - {sb_off_front s..<sb_off_front s + n}
     \<and> (n < cap \<longrightarrow> sb_off_front s + n \<notin> sb_pending s)
     \<and> sb_emit_off s' = max (sb_emit_off s) (sb_off_front s + n)
     \<and> sb_off s' = sb_off s \<and> sb_fin_off s' = sb_fin_off s \<and> sb_max_data s' = sb_max_data s
     \<and> sb_error s' = sb_error s \<and> sb_ack_off s' = sb_ack_off s"
proof -
  have core: "sb_core W s" using ok by (simp add: sb_ok_def)
  note front = sb_off_front_spec [OF core]
  obtain n s1 where e: "sb_emit_loop cap (sb_off_front s) [] s
      = Some (cap - n, sb_off_front s + n, [] @ seg (sb_off_front s) n W, s1)"
    "n \<le> cap" "emitted_to W s (sb_off_front s) n s1" "n < cap \<longrightarrow> sb_off_front s + n \<notin> sb_pending s"
    using sb_emit_loop_spec [OF core] front(2) by blast
  let ?s' = "s1\<lparr>sb_emit_off := max (sb_emit_off s) (sb_off_front s + n)\<rparr>"
  have same: "sb_off s1 = sb_off s" "sb_emit_off s1 = sb_emit_off s" "sb_max_data s1 = sb_max_data s"
    "sb_fin_off s1 = sb_fin_off s" "sb_acked s1 = sb_acked s" "sb_error s1 = sb_error s"
    and sub: "{sb_off_front s..<sb_off_front s + n} \<subseteq> sb_pending s"
    and pend: "sb_pending s1 = sb_pending s - {sb_off_front s..<sb_off_front s + n}"
    using e(3) by (simp_all add: emitted_to_def same_stream_def)
  have le: "sb_off_front s + n \<le> sb_off s"
  proof (cases n)
    case 0
    then show ?thesis using front(1) sb_core_pending [OF core] by auto
  next
    case (Suc m)
    then have "sb_off_front s + m \<in> sb_pending s" using sub by auto
    then show ?thesis using Suc sb_core_pending [OF core] by fastforce
  qed
  have "sb_core W s1" using e(3) by (simp add: emitted_to_def)
  then have "sb_core W ?s'" by (simp add: sb_core_def)
  moreover have "{max (sb_emit_off s) (sb_off_front s + n)..<sb_off s} \<subseteq> sb_pending s1"
    using ok unfolding pend by (auto simp: sb_ok_def subset_iff)
  moreover have "sb_front s1 \<le> sb_ack_off s" "sb_ack_off ?s' = sb_ack_off s"
    using ok e(3) same(5) by (simp_all add: sb_ok_def emitted_to_def sb_ack_off_def)
  moreover have "acked_ok (sb_acked s) (max (sb_emit_off s) (sb_off_front s + n))"
    using ok by (auto simp: sb_ok_def acked_ok_def le_max_iff_disj)
  ultimately have "sb_ok W ?s'" using ok le same by (auto simp: sb_ok_def)
  moreover have "sb_ack_off ?s' = sb_ack_off s" using same(5) by (simp add: sb_ack_off_def)
  ultimately show ?thesis
    using e sub pend le same
    by (intro exI [of _ n] exI [of _ ?s']) (simp add: sb_emit_def)
qed

subsection \<open>Writing\<close>

lemma chunks_props: "0 < n \<Longrightarrow> concat (chunks n xs) = xs" "[] \<notin> set (chunks n xs)"
proof -
  show "0 < n \<Longrightarrow> concat (chunks n xs) = xs"
  proof (induction n xs rule: chunks.induct)
    case (1 n xs) then show ?case by (subst chunks.simps) auto
  qed
  show "[] \<notin> set (chunks n xs)"
  proof (induction n xs rule: chunks.induct)
    case (1 n xs) then show ?case by (subst chunks.simps) auto
  qed
qed

definition pushed :: "byte list \<Rightarrow> bool \<Rightarrow> send_buf \<Rightarrow> send_buf" where
  "pushed c f s = s\<lparr>sb_data := sb_data s @ [rb_from c (sb_off s) f],
                   sb_off := sb_off s + length c, sb_len := sb_len s + length c\<rparr>"

lemma sb_core_pushed:
  assumes core: "sb_core W s" and c: "c \<noteq> []" "sb_off s + length c \<le> sb_max_data s"
  shows "sb_core (W @ c) (pushed c f s)" "sb_front (pushed c f s) = sb_front s"
    "sb_pending (pushed c f s) = sb_pending s \<union> {sb_off s..<sb_off s + length c}"
proof -
  let ?b = "rb_from c (sb_off s) f"
  have W: "length W = sb_off s" and cont: "contiguous (sb_front s) (sb_data s) (sb_off s)"
    using core by (simp_all add: sb_core_def)
  have b: "rb_offset ?b = sb_off s" "rb_len ?b = length c" "rb_start ?b = 0" "rb_data ?b = c"
    by (simp_all add: rb_from_def)
  have "chunk_of (W @ c) b" if "b \<in> set (sb_data s)" for b
    using core that contiguous_mem [OF cont that] W
    by (auto simp: sb_core_def chunk_of_def seg_prefix)
  moreover have "chunk_of (W @ c) ?b" using W b by (simp add: chunk_of_def seg_def)
  moreover have cont': "contiguous (sb_front s) (sb_data (pushed c f s)) (sb_off (pushed c f s))"
    using cont c(1) b by (auto simp: pushed_def contiguous_append)
  moreover from sb_front_eqI [OF this] show front: "sb_front (pushed c f s) = sb_front s" .
  ultimately show "sb_core (W @ c) (pushed c f s)"
    using core c(2) unfolding sb_core_def front by (simp add: pushed_def)
  show "sb_pending (pushed c f s) = sb_pending s \<union> {sb_off s..<sb_off s + length c}"
    by (simp add: pushed_def span_def)
qed

lemma sb_write_loop_spec:
  assumes "sb_core W s" "[] \<notin> set cs" "sb_off s + length (concat cs) \<le> sb_max_data s"
  shows "\<exists>s'. sb_write_loop cs len input_len fin s = (len + length (concat cs), s')
     \<and> sb_core (W @ concat cs) s' \<and> sb_front s' = sb_front s
     \<and> sb_pending s' = sb_pending s \<union> {sb_off s..<sb_off s + length (concat cs)}
     \<and> sb_off s' = sb_off s + length (concat cs) \<and> sb_emit_off s' = sb_emit_off s
     \<and> sb_acked s' = sb_acked s \<and> sb_fin_off s' = sb_fin_off s \<and> sb_max_data s' = sb_max_data s
     \<and> sb_error s' = sb_error s"
  using assms
proof (induction cs arbitrary: len s W)
  case Nil
  then show ?case by simp
next
  case (Cons c cs)
  let ?f = "len + length c = input_len \<and> fin"
  have c: "c \<noteq> []" "sb_off s + length c \<le> sb_max_data s" using Cons.prems by auto
  note p = sb_core_pushed [OF Cons.prems(1) c, of ?f]
  have f: "sb_off (pushed c ?f s) = sb_off s + length c"
    "sb_emit_off (pushed c ?f s) = sb_emit_off s" "sb_acked (pushed c ?f s) = sb_acked s"
    "sb_fin_off (pushed c ?f s) = sb_fin_off s" "sb_max_data (pushed c ?f s) = sb_max_data s"
    "sb_error (pushed c ?f s) = sb_error s"
    by (simp_all add: pushed_def)
  have step: "sb_write_loop (c # cs) len input_len fin s
      = sb_write_loop cs (len + length c) input_len fin (pushed c ?f s)"
    by (simp add: pushed_def Let_def)
  have "{sb_off s..<sb_off s + length c} \<union> {sb_off s + length c..<sb_off s + length c + length (concat cs)}
      = {sb_off s..<sb_off s + length (concat (c # cs))}"
    by auto
  then show ?case
    unfolding step using Cons.IH [OF p(1), of "len + length c"] Cons.prems(2,3) p(2,3) f
    by (auto simp: add.assoc Un_assoc)
qed

lemma sb_write_Ok:
  assumes ok: "sb_ok W s" and open_: "sb_error s = None" "sb_fin_off s = None"
    and len: "sb_off s + length input \<le> u64_max"
  defines "n \<equiv> min (length input) (sb_max_data s - sb_off s)"
  shows "\<exists>s'. sb_write input fin s = (s', Ok n) \<and> sb_ok (W @ take n input) s'
     \<and> sb_pending s' = sb_pending s \<union> {sb_off s..<sb_off s + n}
     \<and> sb_off s' = sb_off s + n \<and> sb_max_data s' = sb_max_data s
     \<and> sb_emit_off s' = sb_emit_off s \<and> sb_error s' = None
     \<and> sb_fin_off s' = (if fin \<and> n = length input then Some (sb_off s + n) else None)"
proof -
  have core: "sb_core W s" and emit: "sb_emit_off s \<le> sb_off s" and max: "sb_off s \<le> sb_max_data s"
    using ok by (simp_all add: sb_ok_def sb_core_def)
  define f where "f = (fin \<and> n = length input)"
  define bytes where "bytes = take n input"
  let ?max = "sb_off s + length input"
  let ?s1 = "if f then s\<lparr>sb_fin_off := Some ?max\<rparr> else s"
  have lb: "length bytes = n" by (simp add: bytes_def n_def)
  have s1: "sb_core W ?s1" "sb_ack_off ?s1 = sb_ack_off s" "sb_off ?s1 = sb_off s"
    "sb_acked ?s1 = sb_acked s" "sb_emit_off ?s1 = sb_emit_off s" "sb_pending ?s1 = sb_pending s"
    "sb_max_data ?s1 = sb_max_data s" "sb_front ?s1 = sb_front s" "sb_error ?s1 = None"
    "sb_fin_off ?s1 = (if f then Some ?max else None)"
    using core open_ by (simp_all add: sb_core_def sb_ack_off_def)
  have inp: "(if length input > sb_max_data s - sb_off s
       then (take (sb_max_data s - sb_off s) input, False) else (input, fin)) = (bytes, f)"
    by (auto simp: bytes_def f_def n_def)
  have w: "sb_write input fin s =
      (if sb_ack_off ?s1 \<ge> ?max then (?s1, Ok n) else if bytes = [] then (?s1, Ok n)
       else let (len, s) = sb_write_loop (chunks SEND_BUFFER_SIZE bytes) 0 n f ?s1 in (s, Ok len))"
    unfolding sb_write_def sb_cap_def using len max open_ inp lb by (auto simp: Let_def)
  have ack: "sb_ack_off s \<le> sb_emit_off s" using sb_ack_off_le ok by (simp add: sb_ok_def)
  show ?thesis
  proof (cases "bytes = []")
    case True
    then have n: "n = 0" using lb by simp
    have "sb_ok W ?s1" using ok s1 n f_def by (auto simp: sb_ok_def)
    then show ?thesis using w True n s1 f_def by (intro exI [of _ ?s1]) (auto simp: bytes_def)
  next
    case False
    then have n: "n > 0" using lb by auto
    then have "length input > 0" by (simp add: n_def)
    then have "\<not> sb_ack_off ?s1 \<ge> ?max" unfolding s1(2) using ack emit by linarith
    then have w': "sb_write input fin s =
        (let (len, s) = sb_write_loop (chunks SEND_BUFFER_SIZE bytes) 0 n f ?s1 in (s, Ok len))"
      unfolding w using False by simp
    have cs: "concat (chunks SEND_BUFFER_SIZE bytes) = bytes" "[] \<notin> set (chunks SEND_BUFFER_SIZE bytes)"
      using chunks_props [of SEND_BUFFER_SIZE bytes] by (simp_all add: SEND_BUFFER_SIZE_def)
    have room: "sb_off ?s1 + length (concat (chunks SEND_BUFFER_SIZE bytes)) \<le> sb_max_data ?s1"
      unfolding cs(1) lb s1 n_def using max by auto
    obtain s' where s': "sb_write_loop (chunks SEND_BUFFER_SIZE bytes) 0 n f ?s1 = (n, s')"
      "sb_core (W @ bytes) s'" "sb_front s' = sb_front s"
      "sb_pending s' = sb_pending s \<union> {sb_off s..<sb_off s + n}" "sb_off s' = sb_off s + n"
      "sb_emit_off s' = sb_emit_off s" "sb_acked s' = sb_acked s" "sb_max_data s' = sb_max_data s"
      "sb_fin_off s' = (if f then Some ?max else None)" "sb_error s' = None"
      using sb_write_loop_spec [OF s1(1) cs(2) room, of 0 n f] unfolding cs(1) lb s1 by auto
    have "sb_ok (W @ bytes) s'"
      using ok s' emit by (auto simp: sb_ok_def sb_ack_off_def f_def subset_iff)
    then show ?thesis
      using w' s' by (intro exI [of _ s']) (auto simp: bytes_def f_def)
  qed
qed

subsection \<open>Acknowledging\<close>

lemma ranges_wf_length:
  "ranges_wf rs \<Longrightarrow> (\<forall>s e. (s, e) \<in> set rs \<longrightarrow> lo \<le> s \<and> e \<le> m) \<Longrightarrow> length rs \<le> m + 1 - lo"
proof (induction rs arbitrary: lo)
  case (Cons r rs)
  obtain s e where [simp]: "r = (s, e)" by fastforce
  have se: "lo \<le> s" "s \<le> e" "e \<le> m" using Cons.prems by (auto simp: ranges_wf_Cons)
  have "\<forall>s' e'. (s', e') \<in> set rs \<longrightarrow> e + 1 \<le> s' \<and> e' \<le> m"
    using Cons.prems by (auto simp: ranges_wf_Cons)
  then have "length rs \<le> m + 1 - (e + 1)" using Cons.IH [of "e + 1"] Cons.prems(1) by (simp add: ranges_wf_Cons)
  then show ?case using se by simp
qed simp

lemma first_range_insert:
  assumes wf: "ranges_wf ((0, E) # rs)" and "fst item \<le> snd item"
  shows "\<exists>E' rs'. insert_spec item ((0, E) # rs) = (0, E') # rs' \<and> E \<le> E'"
proof (cases "E < fst item")
  case True
  then show ?thesis by (auto simp: insert_spec_def left_of_def)
next
  case False
  have "\<not> e < fst item" if "(s, e) \<in> set rs" for s e
    using wf False that ranges_wfD [of rs s e] by (force simp: ranges_wf_Cons)
  then have "left_of item ((0, E) # rs) = []"
    using False by (auto simp: left_of_def filter_empty_conv)
  moreover have "touching item ((0, E) # rs) = (0, E) # touching item rs"
    using False by (simp add: touching_def)
  ultimately show ?thesis by (simp add: insert_spec_def)
qed

lemma sb_ack_spec:
  assumes acked: "acked_ok (sb_acked s) (sb_emit_off s)" and range: "off + len \<le> sb_emit_off s"
    and small: "sb_emit_off s + 2 \<le> u64_max"
  shows "\<exists>a. sb_ack off len s = Some (s\<lparr>sb_acked := a\<rparr>) \<and> acked_ok a (sb_emit_off s)
     \<and> sb_ack_off s \<le> sb_ack_off (s\<lparr>sb_acked := a\<rparr>)
     \<and> covered (rs_iter a) = covered (rs_iter (sb_acked s)) \<union> {off..<off + len}
     \<and> rs_iter a = insert_spec (off, off + len) (rs_iter (sb_acked s))"
proof -
  let ?r = "sb_acked s" and ?rs = "rs_iter (sb_acked s)"
  have wf: "rs_wf ?r" "rs_capacity ?r = usize_max" "\<forall>s' e. (s', e) \<in> set ?rs \<longrightarrow> e \<le> sb_emit_off s"
    using acked by (auto simp: acked_ok_def)
  have rs: "ranges_wf ?rs" using wf(1) by (simp add: rs_wf_def rs_iter_inner)
  have "length ?rs \<le> sb_emit_off s + 1" using ranges_wf_length [OF rs, of 0] wf(3) by simp
  then have "length ?rs < rs_capacity ?r" using small wf(2) by simp
  then obtain a where a: "rs_insert (off, off + len) ?r = Some a" "rs_wf a"
    "rs_capacity a = rs_capacity ?r" "rs_iter a = insert_spec (off, off + len) ?rs"
    using rs_insert_spec [OF wf(1), of "(off, off + len)"] by auto
  have ends: "foldr max (map snd (touching (off, off + len) ?rs)) (off + len) \<le> sb_emit_off s"
    using foldr_max_cases [of "map snd (touching (off, off + len) ?rs)" "off + len"] wf(3) range
    by (auto simp: touching_def)
  have "e \<le> sb_emit_off s" if "(s', e) \<in> set (rs_iter a)" for s' e
    using that ends wf(3) by (auto simp: a(4) insert_spec_def left_of_def right_of_def)
  then have "acked_ok a (sb_emit_off s)" using a(2,3) wf(2) by (auto simp: acked_ok_def)
  moreover have "sb_ack_off s \<le> sb_ack_off (s\<lparr>sb_acked := a\<rparr>)"
    using first_range_insert [of _ _ "(off, off + len)"] rs
    by (cases ?rs) (fastforce simp: sb_ack_off_def a(4))+
  moreover have "covered (rs_iter a) = covered ?rs \<union> {off..<off + len}"
    using covered_insert_spec [OF rs, of "(off, off + len)"] by (simp add: a(4))
  moreover have "sb_ack off len s = Some (s\<lparr>sb_acked := a\<rparr>)"
    using a(1) range small by (simp add: sb_ack_def u64_add_def)
  ultimately show ?thesis using a(4) by blast
qed

lemma drop_count_spec:
  "contiguous lo bs hi \<Longrightarrow> lo \<le> ack \<Longrightarrow>
   \<exists>m. contiguous m (drop (drop_count ack bs) bs) hi \<and> m \<le> ack
       \<and> pending (take (drop_count ack bs) bs) \<subseteq> {..<ack}"
proof (induction lo bs hi rule: contiguous.induct)
  case (2 lo b bs hi)
  have max: "rb_max_off b = lo + rb_len b" using "2.prems" rb_ok_max_off [of b] by simp
  consider "drop_count ack (b # bs) = 0"
    | "drop_count ack (b # bs) = Suc (drop_count ack bs)" "rb_max_off b \<le> ack"
    by (cases "ack \<le> rb_offset b \<or> ack < rb_max_off b") auto
  then show ?case
  proof cases
    case 1
    show ?thesis unfolding 1 using "2.prems" by (intro exI [of _ lo]) simp
  next
    case 2
    have "span b \<subseteq> {..<ack}" using 2(2) by (auto simp: span_def)
    then show ?thesis unfolding 2(1) using "2.IH" "2.prems" max 2(2) by auto
  qed
qed simp

lemma drop_count_le: "drop_count ack bs \<le> length bs"
  by (induction bs) auto

lemma sb_ack_and_drop_spec:
  assumes ok: "sb_ok W s" and range: "off + len \<le> sb_emit_off s"
    and small: "sb_emit_off s + 2 \<le> u64_max"
  shows "\<exists>s'. sb_ack_and_drop off len s = Some s' \<and> sb_ok W s'
     \<and> covered (rs_iter (sb_acked s')) = covered (rs_iter (sb_acked s)) \<union> {off..<off + len}
     \<and> sb_pending s' \<subseteq> sb_pending s \<and> sb_pending s - sb_pending s' \<subseteq> {..<sb_ack_off s'}
     \<and> sb_off s' = sb_off s \<and> sb_fin_off s' = sb_fin_off s \<and> sb_emit_off s' = sb_emit_off s
     \<and> sb_max_data s' = sb_max_data s \<and> sb_error s' = sb_error s"
proof -
  have core: "sb_core W s" and acked: "acked_ok (sb_acked s) (sb_emit_off s)"
    using ok by (simp_all add: sb_ok_def)
  obtain a where a: "sb_ack off len s = Some (s\<lparr>sb_acked := a\<rparr>)" "acked_ok a (sb_emit_off s)"
    "sb_ack_off s \<le> sb_ack_off (s\<lparr>sb_acked := a\<rparr>)"
    "covered (rs_iter a) = covered (rs_iter (sb_acked s)) \<union> {off..<off + len}"
    using sb_ack_spec [OF acked range small] by blast
  let ?s1 = "s\<lparr>sb_acked := a\<rparr>"
  have front: "sb_front s \<le> sb_ack_off ?s1" using ok a(3) by (simp add: sb_ok_def)
  have ok1: "sb_ok W ?s1" using ok a(2) front by (simp add: sb_ok_def sb_core_def)
  show ?thesis
  proof (cases "sb_data s = [] \<or> off > sb_ack_off ?s1")
    case True
    then have "sb_ack_and_drop off len s = Some ?s1" by (auto simp: sb_ack_and_drop_def a(1) Let_def)
    then show ?thesis using ok1 a(4) by simp
  next
    case False
    let ?n = "drop_count (sb_ack_off ?s1) (sb_data s)"
    let ?s2 = "?s1\<lparr>sb_data := drop ?n (sb_data s), sb_pos := sb_pos s - ?n\<rparr>"
    obtain m where m: "contiguous m (drop ?n (sb_data s)) (sb_off s)" "m \<le> sb_ack_off ?s1"
      "pending (take ?n (sb_data s)) \<subseteq> {..<sb_ack_off ?s1}"
      using drop_count_spec [of "sb_front s" "sb_data s" "sb_off s" "sb_ack_off ?s1"] core front
      by (auto simp: sb_core_def)
    have ack2: "sb_ack_off ?s2 = sb_ack_off ?s1" by (simp add: sb_ack_off_def)
    have fr2: "sb_front ?s2 = m" using m(1) by (intro sb_front_eqI) simp
    have split: "sb_pending s = pending (take ?n (sb_data s)) \<union> pending (drop ?n (sb_data s))"
      by (metis append_take_drop_id pending_simps(3))
    have "pending_len (sb_data s) = pending_len (take ?n (sb_data s)) + pending_len (drop ?n (sb_data s))"
      by (metis append_take_drop_id map_append sum_list.append)
    then have "pending_len (drop ?n (sb_data s)) \<le> sb_len s" using core by (simp add: sb_core_def)
    moreover have "\<forall>b\<in>set (take (sb_pos s - ?n) (drop ?n (sb_data s))). rb_is_empty b"
      using core by (auto simp: sb_core_def drop_take [symmetric] dest: in_set_dropD)
    moreover have "\<forall>b\<in>set (drop ?n (sb_data s)). chunk_of W b"
      using core by (auto simp: sb_core_def dest: in_set_dropD)
    ultimately have core2: "sb_core W ?s2"
      using core m(1) unfolding sb_core_def fr2 by (simp add: diff_le_mono)
    have "sb_ack_off ?s1 \<le> sb_emit_off s" using sb_ack_off_le a(2) by simp
    then have "{sb_emit_off s..<sb_off s} \<inter> pending (take ?n (sb_data s)) = {}" using m(3) by fastforce
    then have "{sb_emit_off s..<sb_off s} \<subseteq> pending (drop ?n (sb_data s))"
      using ok unfolding sb_ok_def split by blast
    then have ok2: "sb_ok W ?s2"
      using ok core2 a(2) m(2) unfolding sb_ok_def fr2 ack2 by simp
    have "sb_ack_and_drop off len s = Some ?s2"
      using False by (simp add: sb_ack_and_drop_def a(1) Let_def)
    then show ?thesis using ok2 a(4) m(3) split ack2 by (intro exI [of _ ?s2]) auto
  qed
qed

subsection \<open>Retransmitting\<close>

definition raw :: "range_buf \<Rightarrow> u64 set" where
  "raw b = {rb_offset b..<rb_offset b + rb_len b}"

lemma rt_split_spec:
  assumes ok: "rb_ok b" "chunk_of W b" "0 < rb_len b" and max: "rb_offset b < max_off"
  shows "\<exists>l new. rt_split max_off b = Some (l, new) \<and> rb_ok l \<and> chunk_of W l \<and> 0 < rb_len l
     \<and> rb_offset l = rb_offset b \<and> raw l = raw b \<inter> {..<max_off}
     \<and> (case new of
          None \<Rightarrow> l = b \<and> rb_offset b + rb_len b \<le> max_off
        | Some r \<Rightarrow> rb_ok r \<and> chunk_of W r \<and> 0 < rb_len r \<and> rb_offset r = max_off
            \<and> rb_offset b + rb_len l = max_off \<and> max_off + rb_len r = rb_offset b + rb_len b
            \<and> span b = span l \<union> span r \<and> rb_length b = rb_length l + rb_length r)"
proof (cases "max_off < rb_max_off b")
  case False
  then show ?thesis
    using ok max rb_ok_max_off [OF ok(1)] by (auto simp: rt_split_def raw_def)
next
  case True
  let ?a = "max_off - rb_offset b"
  have a: "0 < ?a" "?a < rb_len b" "rb_offset b + ?a = max_off"
    using True max rb_ok_max_off [OF ok(1)] by auto
  let ?l = "b\<lparr>rb_pos := min (rb_pos b) (rb_start b + ?a), rb_len := ?a, rb_fin := False\<rparr>"
  let ?r = "\<lparr>rb_data = rb_data b, rb_start = rb_start b + ?a,
             rb_pos = max (rb_pos b) (rb_start b + ?a), rb_len = rb_len b - ?a,
             rb_offset = rb_offset b + ?a, rb_fin = rb_fin b\<rparr>"
  have sp: "rt_split max_off b = Some (?l, Some ?r)"
    using a True max by (simp add: rt_split_def rb_split_off_def)
  have ok': "rb_ok ?l" "rb_ok ?r" using ok(1) a by (auto simp: rb_ok_def)
  have W: "seg (rb_start b) (rb_len b) (rb_data b) = seg (rb_offset b) (rb_len b) W"
    using ok(2) by (simp add: chunk_of_def)
  have "chunk_of W ?l"
    using arg_cong [OF W, of "take ?a"] a(2) by (simp add: chunk_of_def take_seg min_absorb1)
  moreover have "chunk_of W ?r"
    using arg_cong [OF W, of "drop ?a"] by (simp add: chunk_of_def drop_seg)
  moreover have "span b = span ?l \<union> span ?r" "rb_length b = rb_length ?l + rb_length ?r"
    using ok(1) a by (auto simp: span_def rb_ok_def rb_max_off_def rb_off_def rb_length_def)
  ultimately show ?thesis
    using sp ok' a by (intro exI [of _ ?l] exI [of _ "Some ?r"]) (auto simp: raw_def)
qed

lemma rt_expand_spec:
  assumes ok: "rb_ok b" "chunk_of W b" and off: "off \<le> rb_offset b + rb_len b"
  shows "rb_ok (rt_expand off b)" "chunk_of W (rt_expand off b)"
    "rb_offset (rt_expand off b) = rb_offset b" "rb_len (rt_expand off b) = rb_len b"
    "span (rt_expand off b) = span b \<union> (raw b \<inter> {off..})"
    "rb_pos (rt_expand off b) \<le> rb_pos b" "rb_pos b - rb_pos (rt_expand off b) \<le> rb_len b"
    "rb_length (rt_expand off b) = rb_length b + (rb_pos b - rb_pos (rt_expand off b))"
proof -
  have max: "rb_max_off b = rb_offset b + rb_len b" using rb_ok_max_off [OF ok(1)] by simp
  define p where "p = rb_pos (rt_expand off b)"
  have p: "p = (if off > rb_offset b then min (rb_pos b) (rb_start b + (off - rb_offset b)) else rb_start b)"
    using off max by (simp add: p_def rt_expand_def)
  have b': "rt_expand off b = b\<lparr>rb_pos := p\<rparr>" by (simp add: p_def rt_expand_def)
  have le: "rb_start b \<le> p" "p \<le> rb_pos b" using ok(1) p by (auto simp: rb_ok_def)
  show "rb_ok (rt_expand off b)" "chunk_of W (rt_expand off b)"
    "rb_offset (rt_expand off b) = rb_offset b" "rb_len (rt_expand off b) = rb_len b"
    "rb_pos (rt_expand off b) \<le> rb_pos b" "rb_pos b - rb_pos (rt_expand off b) \<le> rb_len b"
    "rb_length (rt_expand off b) = rb_length b + (rb_pos b - rb_pos (rt_expand off b))"
    using ok le unfolding b' by (auto simp: rb_ok_def chunk_of_def rb_length_def)
  have "span (rt_expand off b) = {rb_offset b + (p - rb_start b)..<rb_offset b + rb_len b}"
    "span b = {rb_offset b + (rb_pos b - rb_start b)..<rb_offset b + rb_len b}"
    using ok(1) le unfolding b' by (auto simp: span_def rb_ok_def rb_max_off_def rb_off_def rb_length_def)
  moreover have "rb_offset b + (p - rb_start b)
      = (if off > rb_offset b then min (rb_offset b + (rb_pos b - rb_start b)) off else rb_offset b)"
    using ok(1) unfolding p by (auto simp: rb_ok_def min_def)
  ultimately show "span (rt_expand off b) = span b \<union> (raw b \<inter> {off..})"
    by (auto simp: raw_def)
qed

lemma sb_retransmit_at_spec:
  assumes core: "sb_core W s" and d: "sb_data s = pre @ b # rest"
    and max: "rb_offset b < max_off" and off: "off \<le> rb_max_off b" "off \<le> max_off"
    and len: "sb_len s + rb_len b \<le> u64_max"
  shows "\<exists>s' b' tl. sb_retransmit_at (length pre) off max_off s = Some s'
     \<and> sb_core W s' \<and> same_stream s s' \<and> sb_front s' = sb_front s
     \<and> sb_data s' = pre @ b' # tl \<and> rb_offset b' = rb_offset b
     \<and> contiguous (rb_offset b + rb_len b') tl (sb_off s)
     \<and> length tl \<ge> length rest \<and> (tl = rest \<or> rb_offset b + rb_len b' = max_off)
     \<and> sb_len s' \<le> sb_len s + rb_len b'
     \<and> raw b' = raw b \<inter> {..<max_off}
     \<and> sb_pending s' = sb_pending s \<union> (raw b' \<inter> {off..})"
proof -
  have c: "contiguous (sb_front s) (pre @ b # rest) (sb_off s)" "\<forall>b\<in>set (pre @ b # rest). chunk_of W b"
    using core d by (simp_all add: sb_core_def)
  then obtain m where m: "contiguous (sb_front s) pre m" "contiguous m (b # rest) (sb_off s)"
    by (auto simp: contiguous_append)
  have b: "rb_ok b" "chunk_of W b" "0 < rb_len b" "rb_offset b = m"
    "contiguous (rb_offset b + rb_len b) rest (sb_off s)"
    using m(2) c(2) by auto
  obtain l new where l: "rt_split max_off b = Some (l, new)" "rb_ok l" "chunk_of W l" "0 < rb_len l"
    "rb_offset l = rb_offset b" "raw l = raw b \<inter> {..<max_off}"
    "case new of
          None \<Rightarrow> l = b \<and> rb_offset b + rb_len b \<le> max_off
        | Some r \<Rightarrow> rb_ok r \<and> chunk_of W r \<and> 0 < rb_len r \<and> rb_offset r = max_off
            \<and> rb_offset b + rb_len l = max_off \<and> max_off + rb_len r = rb_offset b + rb_len b
            \<and> span b = span l \<union> span r \<and> rb_length b = rb_length l + rb_length r"
    using rt_split_spec [OF b(1-3) max] by blast
  define tl where "tl = (case new of None \<Rightarrow> rest | Some r \<Rightarrow> r # rest)"
  have tl: "span b \<union> pending rest = span l \<union> pending tl"
    "rb_length b + pending_len rest = rb_length l + pending_len tl"
    "contiguous (rb_offset b + rb_len l) tl (sb_off s)" "\<forall>c\<in>set tl. chunk_of W c"
    "tl = rest \<or> rb_offset b + rb_len l = max_off" "length tl \<ge> length rest" "rb_len l \<le> rb_len b"
    using l(2-7) b c(2) by (cases new; force simp: tl_def)+
  have offl: "off \<le> rb_offset l + rb_len l"
    using l(5,7) off rb_ok_max_off [OF b(1)] by (cases new) auto
  let ?b' = "rt_expand off l"
  let ?len = "sb_len s + (rb_pos l - rb_pos ?b')"
  let ?s' = "s\<lparr>sb_data := pre @ ?b' # tl, sb_pos := min (sb_pos s) (length pre), sb_len := ?len\<rparr>"
  note e = rt_expand_spec [OF l(2,3) offl]
  have at: "sb_retransmit_at (length pre) off max_off s = Some ?s'"
    using l(1) e(7) tl(7) len
    by (cases new) (simp_all add: sb_retransmit_at_def d Let_def vec_insert_def tl_def)
  have cont: "contiguous (sb_front s) (pre @ ?b' # tl) (sb_off s)"
    unfolding contiguous_append using m(1) b(4) e(1,3,4) l(4,5) tl(3)
    by (intro exI [of _ m]) simp
  then have front: "sb_front ?s' = sb_front s" by (intro sb_front_eqI) simp
  have "pending_len (pre @ ?b' # tl) \<le> ?len"
    using core d tl(2) e(8) by (simp add: sb_core_def)
  moreover have "take (min (sb_pos s) (length pre)) (pre @ ?b' # tl) = take (sb_pos s) pre"
    by (simp add: min_def)
  moreover have "\<forall>c\<in>set (take (sb_pos s) pre). rb_is_empty c"
    using core by (auto simp: sb_core_def d)
  ultimately have core': "sb_core W ?s'"
    using core cont e(2) c(2) tl(4) unfolding sb_core_def front by auto
  have "sb_pending ?s' = sb_pending s \<union> (raw l \<inter> {off..})"
    unfolding d using e(5) tl(1) by auto
  moreover have "raw ?b' = raw l" using e(3,4) by (simp add: raw_def)
  ultimately show ?thesis
    using at core' front e(3,4,7) l(5,6) tl(3,5,6)
    by (intro exI [of _ ?s'] exI [of _ ?b'] exI [of _ tl]) (auto simp: same_stream_def)
qed

lemma sb_retransmit_loop_spec:
  assumes "sb_core W s" "sb_data s = pre @ bs" "contiguous m bs (sb_off s)" "k \<le> length bs"
    and "\<forall>b\<in>set (drop k bs). max_off \<le> rb_offset b" "off \<le> max_off"
    and "sb_len s + (sb_off s - m) \<le> u64_max"
  shows "\<exists>s'. sb_retransmit_loop k (length pre) off max_off s = Some s' \<and> sb_core W s'
     \<and> same_stream s s' \<and> sb_front s' = sb_front s
     \<and> sb_pending s' = sb_pending s \<union> ({off..<max_off} \<inter> {m..<sb_off s})"
  using assms
proof (induction k arbitrary: s pre bs m)
  case 0
  have none: "{off..<max_off} \<inter> {m..<sb_off s} = {}"
  proof (cases bs)
    case Nil then show ?thesis using "0.prems" by simp
  next
    case (Cons b bs') then show ?thesis using "0.prems" by auto
  qed
  show ?case unfolding none using 0 by (simp add: same_stream_def)
next
  case (Suc k)
  then obtain b rest where bs: "bs = b # rest" by (cases bs) auto
  have b: "rb_ok b" "rb_offset b = m" "0 < rb_len b" "contiguous (m + rb_len b) rest (sb_off s)"
    "rb_max_off b = m + rb_len b" "m + rb_len b \<le> sb_off s"
    using Suc.prems(3) rb_ok_max_off [of b] contiguous_le unfolding bs by auto
  have nth: "sb_data s ! length pre = b" "\<not> length (sb_data s) \<le> length pre"
    using Suc.prems(2) bs by simp_all
  have pre': "sb_data s = (pre @ [b]) @ rest" "length (pre @ [b]) = length pre + 1"
    using Suc.prems(2) bs by simp_all
  consider (stop) "max_off \<le> m" | (skip) "m < max_off" "m + rb_len b < off"
    | (expand) "m < max_off" "off \<le> m + rb_len b"
    by linarith
  then show ?case
  proof cases
    case stop
    then have none: "{off..<max_off} \<inter> {m..<sb_off s} = {}" by auto
    show ?thesis unfolding none using stop Suc.prems(1) nth b by (simp add: same_stream_def)
  next
    case skip
    have eq: "{off..<max_off} \<inter> {m..<sb_off s} = {off..<max_off} \<inter> {m + rb_len b..<sb_off s}"
      using skip by auto
    show ?thesis
      unfolding eq using Suc.IH [OF Suc.prems(1) pre'(1) b(4)] Suc.prems(4-7) bs skip nth b(2,5) by simp
  next
    case expand
    have at: "sb_data s = pre @ b # rest" "rb_offset b < max_off" "off \<le> rb_max_off b"
      "sb_len s + rb_len b \<le> u64_max"
      using Suc.prems(2,7) bs expand b(2,5,6) by (simp, simp, simp, linarith)
    obtain s1 b' tl where s1: "sb_retransmit_at (length pre) off max_off s = Some s1"
      "sb_core W s1" "same_stream s s1" "sb_front s1 = sb_front s" "sb_data s1 = pre @ b' # tl"
      "rb_offset b' = rb_offset b" "contiguous (rb_offset b + rb_len b') tl (sb_off s)"
      "length tl \<ge> length rest" "tl = rest \<or> rb_offset b + rb_len b' = max_off"
      "sb_len s1 \<le> sb_len s + rb_len b'" "raw b' = raw b \<inter> {..<max_off}"
      "sb_pending s1 = sb_pending s \<union> (raw b' \<inter> {off..})"
      using sb_retransmit_at_spec [OF Suc.prems(1) at(1-3) Suc.prems(6) at(4)] by blast
    let ?m = "m + rb_len b'"
    have off: "sb_off s1 = sb_off s" using s1(3) by (simp add: same_stream_def)
    have cont: "contiguous ?m tl (sb_off s1)" using s1(7) b(2) off by simp
    have later: "\<forall>c\<in>set (drop k tl). max_off \<le> rb_offset c"
    proof (cases "tl = rest")
      case True then show ?thesis using Suc.prems(5) bs by simp
    next
      case False
      then have "?m = max_off" using s1(9) b(2) by simp
      then show ?thesis using contiguous_mem [OF cont] by (auto dest: in_set_dropD)
    qed
    have len: "sb_len s1 + (sb_off s1 - ?m) \<le> u64_max"
      using s1(10) Suc.prems(7) contiguous_le [OF cont] off by linarith
    have k: "k \<le> length tl" using Suc.prems(4) bs s1(8) by simp
    obtain s' where s': "sb_retransmit_loop k (length (pre @ [b'])) off max_off s1 = Some s'"
      "sb_core W s'" "same_stream s1 s'" "sb_front s' = sb_front s1"
      "sb_pending s' = sb_pending s1 \<union> ({off..<max_off} \<inter> {?m..<sb_off s1})"
      using Suc.IH [OF s1(2), of "pre @ [b']" tl ?m] cont later Suc.prems(6) len k s1(5) by auto
    have "raw b' = {m..<?m}" using s1(6) b(2) by (simp add: raw_def)
    moreover have "?m \<le> max_off"
    proof -
      have "0 < rb_len b'"
        using Suc.prems(1) s1(2,5) contiguous_mem [of "sb_front s1" "sb_data s1" "sb_off s1" b']
        by (auto simp: sb_core_def)
      then have "?m - 1 \<in> raw b'" using \<open>raw b' = {m..<?m}\<close> by auto
      then show ?thesis unfolding s1(11) by auto
    qed
    ultimately have "sb_pending s' = sb_pending s \<union> ({off..<max_off} \<inter> {m..<sb_off s})"
      using s'(5) s1(12) contiguous_le [OF cont] off by auto
    moreover have "sb_retransmit_loop (Suc k) (length pre) off max_off s = Some s'"
      using expand nth b(2,5) s1(1) s'(1) by simp
    moreover have "same_stream s s'" using s1(3) s'(3) by (simp add: same_stream_def)
    ultimately show ?thesis using s'(2,4) s1(4) by auto
  qed
qed

lemma sb_retransmit_spec:
  assumes ok: "sb_ok W s" and len: "off + len \<le> u64_max" "sb_len s + sb_off s \<le> u64_max"
  shows "\<exists>s'. sb_retransmit off len s = Some s' \<and> sb_ok W s'
     \<and> sb_pending s' = sb_pending s \<union>
         (if off + len \<le> sb_ack_off s then {} else {off..<off + len} \<inter> {sb_front s..<sb_off s})
     \<and> same_stream s s'"
proof (cases "sb_data s = [] \<or> off + len \<le> sb_ack_off s")
  case True
  then show ?thesis
    using ok len by (auto simp: sb_retransmit_def u64_add_def same_stream_def sb_front_def)
next
  case False
  have core: "sb_core W s" using ok by (simp add: sb_ok_def)
  then have cont: "contiguous (sb_front s) (sb_data s) (sb_off s)" by (simp add: sb_core_def)
  have room: "sb_len s + (sb_off s - sb_front s) \<le> u64_max" using len(2) by arith
  obtain s' where s': "sb_retransmit_loop (length (sb_data s)) (length []) off (off + len) s = Some s'"
    "sb_core W s'" "same_stream s s'" "sb_front s' = sb_front s"
    "sb_pending s' = sb_pending s \<union> ({off..<off + len} \<inter> {sb_front s..<sb_off s})"
    using sb_retransmit_loop_spec [OF core _ cont order.refl _ _ room, of "[]" "off + len" off] by auto
  have "sb_ok W s'"
    using ok s' by (auto simp: sb_ok_def same_stream_def sb_ack_off_def)
  then show ?thesis using False len s' by (auto simp: sb_retransmit_def u64_add_def)
qed

subsection \<open>Resetting\<close>

lemma sb_reset_spec:
  assumes ok: "sb_ok W s" and small: "sb_emit_off s + 2 \<le> u64_max"
  shows "\<exists>s'. sb_reset s = Some (s', sb_emit_off s, sb_off s - sb_emit_off s)
     \<and> sb_ok (take (sb_emit_off s) W) s' \<and> sb_pending s' = {} \<and> sb_off s' = sb_emit_off s
     \<and> sb_fin_off s' = Some (sb_emit_off s) \<and> sb_emit_off s' = sb_emit_off s
     \<and> sb_is_complete s' \<and> sb_error s' = sb_error s"
proof -
  have core: "sb_core W s" and emit: "sb_emit_off s \<le> sb_off s" and acked: "acked_ok (sb_acked s) (sb_emit_off s)"
    and unsent: "{sb_emit_off s..<sb_off s} \<subseteq> sb_pending s"
    using ok by (simp_all add: sb_ok_def)
  note front = sb_off_front_spec [OF core]
  have "sb_off_front s \<le> sb_emit_off s"
  proof (cases "sb_emit_off s < sb_off s")
    case True
    then have "sb_emit_off s \<in> sb_pending s" using unsent by auto
    then show ?thesis using front(2) by simp
  next
    case False
    then show ?thesis using front(1) sb_core_pending [OF core] emit by auto
  qed
  then have max: "max (sb_off_front s) (sb_emit_off s) = sb_emit_off s" by simp
  let ?s1 = "s\<lparr>sb_fin_off := Some (sb_emit_off s), sb_data := [], sb_off := sb_emit_off s\<rparr>"
  obtain a where a: "sb_ack 0 (sb_emit_off s) ?s1 = Some (?s1\<lparr>sb_acked := a\<rparr>)"
    "acked_ok a (sb_emit_off s)" "rs_iter a = insert_spec (0, sb_emit_off s) (rs_iter (sb_acked s))"
    using sb_ack_spec [of ?s1 0 "sb_emit_off s"] acked small by auto
  let ?s' = "?s1\<lparr>sb_acked := a, sb_pos := 0, sb_len := 0\<rparr>"
  have r: "sb_reset s = Some (?s', sb_emit_off s, sb_off s - sb_emit_off s)"
    unfolding sb_reset_def max sb_off_back_def using a(1) by (simp add: Let_def)
  let ?rs = "rs_iter (sb_acked s)"
  have rs: "s' \<le> e \<and> e \<le> sb_emit_off s" if "(s', e) \<in> set ?rs" for s' e
    using acked that ranges_wfD by (auto simp: acked_ok_def rs_wf_def rs_iter_inner)
  have parts: "left_of (0, sb_emit_off s) ?rs = []" "right_of (0, sb_emit_off s) ?rs = []"
    "touching (0, sb_emit_off s) ?rs = ?rs"
    using rs by (fastforce simp: parts_defs filter_empty_conv filter_id_conv)+
  have "foldr max (map snd ?rs) (sb_emit_off s) = sb_emit_off s"
    using foldr_max_cases [of "map snd ?rs" "sb_emit_off s"] foldr_max_ge(1) [of "sb_emit_off s" "map snd ?rs"] rs
    by fastforce
  moreover have "foldr min (map fst ?rs) 0 = 0" using foldr_min_le(1) [of "map fst ?rs" 0] by simp
  ultimately have iter: "rs_iter a = [(0, sb_emit_off s)]"
    unfolding a(3) insert_spec_def parts by simp
  have "sb_core (take (sb_emit_off s) W) ?s'"
    using core emit by (auto simp: sb_core_def sb_front_def)
  moreover have "sb_ack_off ?s' = sb_emit_off s" by (simp add: sb_ack_off_def iter)
  ultimately have "sb_ok (take (sb_emit_off s) W) ?s'"
    using a(2) by (simp add: sb_ok_def sb_front_def)
  moreover have "sb_is_complete ?s'"
    using iter by (cases a) (simp_all add: sb_is_complete_def rs_eq_range_def rs_len_def rs_iter_def)
  ultimately show ?thesis using r by auto
qed

lemma sb_new_ok: "max_data \<le> u64_max \<Longrightarrow> sb_ok [] (sb_new max_data)"
  by (auto simp: sb_ok_def sb_core_def sb_new_def sb_front_def acked_ok_def rs_default_def
      rs_wf_def rs_iter_def MAX_INLINE_CAPACITY_def)

text \<open>A stream on which the five bytes 1 to 5 were written and the first three sent.\<close>

lemma sb_sample:
  obtains s where "sb_ok [1, 2, 3, 4, 5] s" "sb_pending s = {3..<5}" "sb_off s = 5"
    "sb_emit_off s = 3" "sb_max_data s = 100" "sb_fin_off s = None" "sb_error s = None"
    "sb_ack_off s = 0" "sb_len s = 2"
proof -
  define s where "s = \<lparr>sb_data = [rb_consume 3 (rb_from [1, 2, 3, 4, 5] 0 False)], sb_pos = 0,
      sb_off = 5, sb_emit_off = 3, sb_len = 2, sb_max_data = 100, sb_blocked_at = None,
      sb_fin_off = None, sb_is_shutdown = False, sb_acked = rs_default, sb_error = None\<rparr>"
  have b: "rb_ok (rb_consume 3 (rb_from [1, 2, 3, 4, 5] 0 False))"
    "span (rb_consume 3 (rb_from [1, 2, 3, 4, 5] 0 False)) = {3..<5}"
    by (auto simp: rb_ok_def rb_consume_def rb_from_def span_def rb_max_off_def rb_off_def rb_length_def)
  have "sb_core [1, 2, 3, 4, 5] s"
    using b(1) by (simp add: s_def sb_core_def sb_front_def chunk_of_def rb_consume_def rb_from_def rb_length_def)
  moreover have "acked_ok rs_default 3"
    by (auto simp: acked_ok_def rs_default_def rs_wf_def rs_iter_def MAX_INLINE_CAPACITY_def)
  moreover have "sb_front s = 0" by (simp add: s_def sb_front_def rb_consume_def rb_from_def)
  ultimately have "sb_ok [1, 2, 3, 4, 5] s" using b(2) by (simp add: sb_ok_def s_def)
  then show thesis
    by (rule that) (use b(2) in \<open>simp_all add: s_def sb_ack_off_def rs_default_def rs_iter_def\<close>)
qed

subsection \<open>Properties\<close>

text \<open>
  C19: writing to an open stream accepts as many bytes as the peer's limit allows, appends
  exactly those to the stream, queues them for sending, and records the end of the stream
  only if nothing was cut off.
\<close>

theorem sb_write_appends:
  assumes "sb_ok W s" and "sb_error s = None" and "sb_fin_off s = None"
    and "sb_off s + length input \<le> u64_max"
    and "n = min (length input) (sb_max_data s - sb_off s)"
  shows "\<exists>s'. sb_write input fin s = (s', Ok n) \<and> sb_ok (W @ take n input) s'
     \<and> sb_off s' = sb_off s + n \<and> sb_off s' \<le> sb_max_data s
     \<and> sb_pending s' = sb_pending s \<union> {sb_off s..<sb_off s + n}
     \<and> sb_fin_off s' = (if fin \<and> n = length input then Some (sb_off s') else None)"
  using sb_write_Ok [OF assms(1-4), of fin] assms(1) unfolding assms(5) [symmetric]
  by (auto simp: sb_ok_def sb_core_def)

theorem sb_write_appends_witness:
  "\<exists>s'. sb_write [1, 2, 3] True (sb_new 2) = (s', Ok 2) \<and> sb_ok [1, 2] s'
     \<and> sb_off s' = 2 \<and> sb_off s' \<le> 2 \<and> sb_pending s' = {0..<2} \<and> sb_fin_off s' = None"
proof -
  have "sb_ok [] (sb_new 2)" by (simp add: sb_new_ok)
  then show ?thesis
    using sb_write_appends [of "[]" "sb_new 2" "[1, 2, 3]" 2 True]
    by (simp add: sb_new_def flip: numeral_2_eq_2)
qed

text \<open>
  C12: emitting returns bytes of the stream, starting at the lowest offset that still has to
  be sent and never beyond what was written (hence never beyond the peer's limit); exactly
  these offsets stop being pending.  It stops early only at the end of a run of pending
  offsets, and flags the end of the stream exactly when it reached the final offset.
\<close>

theorem sb_emit_sends_pending:
  assumes "sb_ok W s"
  shows "\<exists>n s'. sb_emit cap s
         = (s', Ok (seg (sb_off_front s) n W, sb_fin_off s = Some (sb_off_front s + n)))
     \<and> sb_ok W s' \<and> n \<le> cap \<and> sb_off_front s + n \<le> length W \<and> length W \<le> sb_max_data s
     \<and> {sb_off_front s..<sb_off_front s + n} \<subseteq> sb_pending s
     \<and> sb_pending s' = sb_pending s - {sb_off_front s..<sb_off_front s + n}
     \<and> (n < cap \<longrightarrow> sb_off_front s + n \<notin> sb_pending s)
     \<and> (\<forall>x\<in>sb_pending s. sb_off_front s \<le> x)"
proof -
  have core: "sb_core W s" using assms by (simp add: sb_ok_def)
  have len: "length W = sb_off s" "sb_off s \<le> sb_max_data s" using core by (simp_all add: sb_core_def)
  obtain n s' where e: "sb_emit cap s
         = (s', Ok (seg (sb_off_front s) n W, sb_fin_off s = Some (sb_off_front s + n)))"
    "sb_ok W s'" "n \<le> cap" "sb_off_front s + n \<le> sb_off s"
    "{sb_off_front s..<sb_off_front s + n} \<subseteq> sb_pending s"
    "sb_pending s' = sb_pending s - {sb_off_front s..<sb_off_front s + n}"
    "n < cap \<longrightarrow> sb_off_front s + n \<notin> sb_pending s"
    using sb_emit_Ok [OF assms, of cap] by blast
  show ?thesis
    by (intro exI [of _ n] exI [of _ s'] conjI ballI)
      (use e len sb_off_front_spec(2) [OF core] in simp_all)
qed

theorem sb_emit_sends_pending_witness:
  "\<exists>s n s'. sb_emit 1 s = (s', Ok (seg 3 n [1, 2, 3, 4, 5], False)) \<and> n \<le> 1
     \<and> sb_ok [1, 2, 3, 4, 5] s' \<and> sb_pending s' = {3..<5} - {3..<3 + n} \<and> n = 1"
proof -
  obtain s where s: "sb_ok [1, 2, 3, 4, 5] s" "sb_pending s = {3..<5}" "sb_fin_off s = None"
    "sb_off s = 5"
    using sb_sample by metis
  then have core: "sb_core [1, 2, 3, 4, 5] s" by (simp add: sb_ok_def)
  have front: "sb_off_front s = 3"
    using sb_off_front_spec(1) [OF core] sb_off_front_spec(2) [OF core, of 3] s(2,4) by auto
  obtain n s' where "sb_emit 1 s = (s', Ok (seg 3 n [1, 2, 3, 4, 5], False))" "n \<le> 1"
    "sb_ok [1, 2, 3, 4, 5] s'" "sb_pending s' = {3..<5} - {3..<3 + n}" "n < 1 \<longrightarrow> 3 + n \<notin> {3..<5::nat}"
    using sb_emit_sends_pending [OF s(1), of 1] unfolding front s(2,3) by auto
  moreover from this have "n = 1" by (cases n) auto
  ultimately show ?thesis by blast
qed

text \<open>
  C14: an acknowledgement for data that was sent is recorded, and buffered data is given up
  only below the contiguously acknowledged prefix: everything that prefix does not cover
  stays buffered, and pending bytes outside it stay pending.
\<close>

theorem sb_ack_keeps_unacked:
  assumes "sb_ok W s" and "off + len \<le> sb_emit_off s" and "sb_emit_off s + 2 \<le> u64_max"
  shows "\<exists>s'. sb_ack_and_drop off len s = Some s' \<and> sb_ok W s'
     \<and> covered (rs_iter (sb_acked s')) = covered (rs_iter (sb_acked s)) \<union> {off..<off + len}
     \<and> {..<sb_ack_off s'} \<subseteq> covered (rs_iter (sb_acked s'))
     \<and> sb_front s' \<le> sb_ack_off s'
     \<and> sb_pending s' \<subseteq> sb_pending s \<and> sb_pending s - sb_pending s' \<subseteq> {..<sb_ack_off s'}"
proof -
  obtain s' where s': "sb_ack_and_drop off len s = Some s'" "sb_ok W s'"
    "covered (rs_iter (sb_acked s')) = covered (rs_iter (sb_acked s)) \<union> {off..<off + len}"
    "sb_pending s' \<subseteq> sb_pending s" "sb_pending s - sb_pending s' \<subseteq> {..<sb_ack_off s'}"
    using sb_ack_and_drop_spec [OF assms] by blast
  moreover have "{..<sb_ack_off s'} \<subseteq> covered (rs_iter (sb_acked s'))"
    by (auto simp: sb_ack_off_def split: list.splits if_splits)
  ultimately show ?thesis by (auto simp: sb_ok_def)
qed

theorem sb_ack_keeps_unacked_witness:
  "\<exists>s s'. sb_ack_and_drop 0 2 s = Some s' \<and> sb_ok [1, 2, 3, 4, 5] s'
     \<and> 1 \<in> covered (rs_iter (sb_acked s')) \<and> {..<sb_ack_off s'} \<subseteq> covered (rs_iter (sb_acked s'))
     \<and> sb_pending s' \<subseteq> {3..<5} \<and> {3..<5} - sb_pending s' \<subseteq> {..<sb_ack_off s'}"
proof -
  obtain s where s: "sb_ok [1, 2, 3, 4, 5] s" "sb_pending s = {3..<5}" "sb_emit_off s = 3"
    using sb_sample by metis
  have "1 \<in> {0..<0 + 2 :: nat}" by simp
  moreover have "\<exists>s'. sb_ack_and_drop 0 2 s = Some s' \<and> sb_ok [1, 2, 3, 4, 5] s'
     \<and> covered (rs_iter (sb_acked s')) = covered (rs_iter (sb_acked s)) \<union> {0..<0 + 2}
     \<and> {..<sb_ack_off s'} \<subseteq> covered (rs_iter (sb_acked s')) \<and> sb_front s' \<le> sb_ack_off s'
     \<and> sb_pending s' \<subseteq> sb_pending s \<and> sb_pending s - sb_pending s' \<subseteq> {..<sb_ack_off s'}"
    by (rule sb_ack_keeps_unacked [OF s(1)]) (use s(3) in simp_all)
  ultimately show ?thesis unfolding s(2) by blast
qed

text \<open>
  C13: marking a range as lost queues exactly the bytes of the range that are still
  buffered, unless the contiguously acknowledged prefix already covers the whole range;
  in particular every byte of the range that the prefix does not cover is pending again.
\<close>

theorem sb_retransmit_requeues:
  assumes "sb_ok W s" and "off + len \<le> u64_max" and "sb_len s + sb_off s \<le> u64_max"
  shows "\<exists>s'. sb_retransmit off len s = Some s' \<and> sb_ok W s'
     \<and> sb_pending s' = sb_pending s \<union>
         (if off + len \<le> sb_ack_off s then {} else {off..<off + len} \<inter> {sb_front s..<length W})
     \<and> {off..<off + len} \<inter> {sb_ack_off s..<length W} \<subseteq> sb_pending s'"
proof -
  have "sb_front s \<le> sb_ack_off s" "length W = sb_off s"
    using assms(1) by (simp_all add: sb_ok_def sb_core_def)
  then show ?thesis using sb_retransmit_spec [OF assms] by fastforce
qed

theorem sb_retransmit_requeues_witness:
  "\<exists>s s'. sb_retransmit 1 2 s = Some s' \<and> sb_ok [1, 2, 3, 4, 5] s' \<and> {1..<3} \<subseteq> sb_pending s'
     \<and> sb_pending s = {3..<5}"
proof -
  obtain s where s: "sb_ok [1, 2, 3, 4, 5] s" "sb_pending s = {3..<5}" "sb_ack_off s = 0" "sb_len s = 2"
    "sb_off s = 5"
    using sb_sample by metis
  have "{1..<3} \<subseteq> ({1..<1 + 2} \<inter> {0..<length [1, 2, 3, 4, 5 :: byte]})" by auto
  moreover have "\<exists>s'. sb_retransmit 1 2 s = Some s' \<and> sb_ok [1, 2, 3, 4, 5] s'
     \<and> sb_pending s' = sb_pending s \<union>
         (if 1 + 2 \<le> sb_ack_off s then {} else {1..<1 + 2} \<inter> {sb_front s..<length [1, 2, 3, 4, 5 :: byte]})
     \<and> {1..<1 + 2} \<inter> {sb_ack_off s..<length [1, 2, 3, 4, 5 :: byte]} \<subseteq> sb_pending s'"
    by (rule sb_retransmit_requeues [OF s(1)]) (use s(4,5) in simp_all)
  ultimately show ?thesis unfolding s(3) using s(2) by blast
qed

text \<open>
  C20: resetting the send side reports as final size the number of bytes that were sent at
  least once, together with the number of bytes that never were, and leaves a stream with
  nothing to send that counts as complete.
\<close>

theorem sb_reset_final_size:
  assumes "sb_ok W s" and "sb_emit_off s + 2 \<le> u64_max"
  shows "\<exists>s'. sb_reset s = Some (s', sb_emit_off s, length W - sb_emit_off s)
     \<and> sb_ok (take (sb_emit_off s) W) s' \<and> sb_pending s' = {} \<and> sb_is_complete s'
     \<and> sb_fin_off s' = Some (sb_emit_off s)"
  using sb_reset_spec [OF assms] assms(1) by (auto simp: sb_ok_def sb_core_def)

theorem sb_reset_final_size_witness:
  "\<exists>s s'. sb_reset s = Some (s', 3, 2) \<and> sb_ok [1, 2, 3] s' \<and> sb_pending s' = {}
     \<and> sb_is_complete s' \<and> sb_fin_off s' = Some 3"
proof -
  obtain s where s: "sb_ok [1, 2, 3, 4, 5] s" "sb_emit_off s = 3"
    using sb_sample by metis
  show ?thesis
    by (rule exI [of _ s]) (use sb_reset_final_size [OF s(1)] s(2) in \<open>simp flip: numeral_2_eq_2\<close>)
qed

end
