(* ===== verification/StreamTransfer.thy ===== *)
theory StreamTransfer
  imports SendBuf RecvBuf
begin

text \<open>
  One direction of a stream, end to end: a send buffer, a network that may lose, repeat
  and reorder STREAM frames, and a receive buffer.

  The locales \<open>stream_source\<close> and \<open>stream_sink\<close> say what the transfer relies on; \<open>SendBuf\<close> and
  \<open>RecvBuf\<close> are shown to provide it, and the transfer invariant is proved from the two
  contracts alone (locale \<open>stream_link\<close>).  The step relation \<open>transfer\<close> puts the operations of
  the two buffers together.
\<close>

subsection \<open>The contract of the sending side\<close>

locale stream_source =
  fixes inv :: "byte list \<Rightarrow> 's \<Rightarrow> bool"
    and ended :: "'s \<Rightarrow> bool"
    and front :: "'s \<Rightarrow> nat"
    and put :: "byte list \<Rightarrow> bool \<Rightarrow> 's \<Rightarrow> 's \<times> (error, nat) res"
    and emit :: "nat \<Rightarrow> 's \<Rightarrow> 's \<times> (error, byte list \<times> bool) res"
  assumes put_appends: "inv W s \<Longrightarrow> put d fin s = (s', Ok n) \<Longrightarrow>
        inv (W @ take n d) s' \<and> (ended s \<longrightarrow> n = 0 \<and> ended s')"
    and emit_sound: "inv W s \<Longrightarrow> emit cap s = (s', res) \<Longrightarrow>
        inv W s' \<and> ended s' = ended s
        \<and> (\<exists>n fin. res = Ok (seg (front s) n W, fin) \<and> front s + n \<le> length W
             \<and> (fin \<longrightarrow> ended s \<and> front s + n = length W))"

subsection \<open>The contract of the receiving side\<close>

locale stream_sink =
  fixes ok :: "'r \<Rightarrow> bool"
    and store :: "byte list \<Rightarrow> nat \<Rightarrow> bool \<Rightarrow> 'r \<Rightarrow> 'r \<times> (error, unit) res"
    and fetch :: "nat \<Rightarrow> 'r \<Rightarrow> 'r \<times> (error, byte list \<times> bool) res"
    and stored :: "'r \<Rightarrow> nat \<rightharpoonup> byte"
    and offset :: "'r \<Rightarrow> nat"
    and final :: "'r \<Rightarrow> nat option"
  assumes store_sound: "ok r \<Longrightarrow> store d off fin r = (r', res) \<Longrightarrow>
        ok r' \<and> offset r' = offset r
        \<and> (\<forall>i v. stored r' i = Some v \<longrightarrow>
             stored r i = Some v \<or> off \<le> i \<and> i < off + length d \<and> v = d ! (i - off))
        \<and> (\<forall>f. final r' = Some f \<longrightarrow> final r = Some f \<or> fin \<and> f = off + length d)"
    and fetch_sound: "ok r \<Longrightarrow> fetch cap r = (r', Ok (out, fin)) \<Longrightarrow>
        ok r' \<and> offset r' = offset r + length out
        \<and> (\<forall>i<length out. stored r (offset r + i) = Some (out ! i))
        \<and> stored r' \<subseteq>\<^sub>m stored r \<and> final r' = final r \<and> (fin \<longleftrightarrow> final r' = Some (offset r'))"

subsection \<open>The transfer invariant from the two contracts\<close>

type_synonym stream_frame = "nat \<times> byte list \<times> bool"

locale stream_link = stream_source + stream_sink
begin

definition frame_of :: "byte list \<Rightarrow> bool \<Rightarrow> stream_frame \<Rightarrow> bool" where
  "frame_of W e f \<longleftrightarrow> (case f of (off, d, fin) \<Rightarrow>
     off + length d \<le> length W \<and> d = seg off (length d) W \<and> (fin \<longrightarrow> e \<and> off + length d = length W))"

definition link_inv where
  "link_inv W s net r got \<longleftrightarrow> inv W s \<and> ok r \<and> (\<forall>f\<in>net. frame_of W (ended s) f)
     \<and> (\<forall>i v. stored r i = Some v \<longrightarrow> i < length W \<and> v = W ! i)
     \<and> offset r \<le> length W \<and> got = take (offset r) W
     \<and> (\<forall>f. final r = Some f \<longrightarrow> ended s \<and> f = length W)"

lemma frame_of_nth:
  assumes "frame_of W e (off, d, fin)" "off \<le> i" "i < off + length d"
  shows "i < length W" "d ! (i - off) = W ! i"
proof -
  have d: "off + length d \<le> length W" "d = seg off (length d) W"
    using assms(1) by (auto simp: frame_of_def)
  then show "i < length W" using assms(3) by simp
  have "seg off (length d) W ! (i - off) = W ! (off + (i - off))"
    using assms(2,3) d(1) by (intro nth_seg) auto
  then show "d ! (i - off) = W ! i" using d(2) assms(2) by simp
qed

lemma link_put:
  assumes "link_inv W s net r got" "put d fin s = (s', Ok n)"
  shows "link_inv (W @ take n d) s' net r got"
proof -
  have p: "inv (W @ take n d) s'" "ended s \<longrightarrow> n = 0 \<and> ended s'"
    using put_appends [OF _ assms(2)] assms(1) by (auto simp: link_inv_def)
  have "frame_of (W @ take n d) (ended s') f" if "frame_of W (ended s) f" for f
    using that p(2) by (auto simp: frame_of_def seg_prefix)
  then show ?thesis using assms(1) p by (fastforce simp: link_inv_def nth_append)
qed

lemma link_emit:
  assumes "link_inv W s net r got" "emit cap s = (s', Ok (out, fin))"
  shows "link_inv W s' (insert (front s, out, fin) net) r got"
proof -
  obtain n where n: "inv W s'" "ended s' = ended s" "out = seg (front s) n W" "front s + n \<le> length W"
    "fin \<longrightarrow> ended s \<and> front s + n = length W"
    using emit_sound [OF _ assms(2)] assms(1) by (auto simp: link_inv_def)
  then have "length out = n" by simp
  then have "frame_of W (ended s') (front s, out, fin)" using n by (simp add: frame_of_def)
  then show ?thesis using assms(1) n(1,2) by (simp add: link_inv_def)
qed

lemma link_keep:
  "link_inv W s net r got \<Longrightarrow> inv W s' \<Longrightarrow> ended s' = ended s \<Longrightarrow> link_inv W s' net r got"
  by (simp add: link_inv_def)

lemma link_store:
  assumes "link_inv W s net r got" "(off, d, fin) \<in> net" "store d off fin r = (r', res)"
  shows "link_inv W s net r' got"
proof -
  have f: "frame_of W (ended s) (off, d, fin)" using assms(1,2) by (auto simp: link_inv_def)
  have r': "ok r'" "offset r' = offset r"
    "\<And>i v. stored r' i = Some v \<Longrightarrow>
       stored r i = Some v \<or> off \<le> i \<and> i < off + length d \<and> v = d ! (i - off)"
    "\<And>f. final r' = Some f \<Longrightarrow> final r = Some f \<or> fin \<and> f = off + length d"
    using store_sound [OF _ assms(3)] assms(1) by (auto simp: link_inv_def)
  have "i < length W \<and> v = W ! i" if "stored r' i = Some v" for i v
    using r'(3) [OF that] frame_of_nth [OF f] assms(1) by (auto simp: link_inv_def)
  moreover have "ended s \<and> x = length W" if "final r' = Some x" for x
    using r'(4) [OF that] f assms(1) by (auto simp: link_inv_def frame_of_def)
  ultimately show ?thesis using assms(1) r'(1,2) by (simp add: link_inv_def)
qed

lemma link_fetch:
  assumes "link_inv W s net r got" "fetch cap r = (r', Ok (out, fin))"
  shows "link_inv W s net r' (got @ out)"
    and "fin \<Longrightarrow> got @ out = W \<and> ended s"
proof -
  have r': "ok r'" "offset r' = offset r + length out"
    "\<And>i. i < length out \<Longrightarrow> stored r (offset r + i) = Some (out ! i)"
    "stored r' \<subseteq>\<^sub>m stored r" "final r' = final r" "fin \<longleftrightarrow> final r' = Some (offset r')"
    using fetch_sound [OF _ assms(2)] assms(1) by (auto simp: link_inv_def)
  have w: "offset r + i < length W \<and> out ! i = W ! (offset r + i)" if "i < length out" for i
    using r'(3) [OF that] assms(1) by (auto simp: link_inv_def)
  have le: "offset r + length out \<le> length W"
  proof (cases "out = []")
    case True then show ?thesis using assms(1) by (simp add: link_inv_def)
  next
    case False then show ?thesis using w [of "length out - 1"] by (cases out) auto
  qed
  have seg: "out = seg (offset r) (length out) W"
    using w le by (intro nth_equalityI) (auto simp: nth_seg)
  have got: "got @ out = take (offset r') W"
    unfolding r'(2) take_add seg_def [symmetric] seg [symmetric]
    using assms(1) by (simp add: link_inv_def)
  have "i < length W \<and> v = W ! i" if "stored r' i = Some v" for i v
    using that r'(4) assms(1) by (auto simp: link_inv_def map_le_def dom_def)
  then show "link_inv W s net r' (got @ out)"
    using assms(1) r'(1,2,5) got le by (simp add: link_inv_def)
  show "fin \<Longrightarrow> got @ out = W \<and> ended s"
    using r'(5,6) got assms(1) by (auto simp: link_inv_def)
qed

end

subsection \<open>The send buffer is a source\<close>

definition sb_ended :: "send_buf \<Rightarrow> bool" where
  "sb_ended s \<longleftrightarrow> sb_fin_off s \<noteq> None"

lemma sb_write_Ok_cases:
  assumes ok: "sb_ok W s" and w: "sb_write d fin s = (s', Ok n)"
  shows "sb_ok (W @ take n d) s' \<and> (sb_ended s \<longrightarrow> n = 0 \<and> sb_ended s')"
proof -
  have len: "sb_off s + length d \<le> u64_max" and err: "sb_error s = None"
    using w by (auto simp: sb_write_def sb_cap_def u64_add_def split: if_splits option.splits res.splits)
  show ?thesis
  proof (cases "sb_fin_off s")
    case None
    then show ?thesis using sb_write_Ok [OF ok err None len, of fin] w by (auto simp: sb_ended_def)
  next
    case (Some f)
    have f: "f = sb_off s" "sb_off s \<le> sb_max_data s" using ok Some by (auto simp: sb_ok_def sb_core_def)
    have d: "d = []" "fin"
      using w Some f err len by (auto simp: sb_write_def sb_cap_def Let_def split: if_splits)
    then have "s' = s" "n = 0"
      using w Some f err len by (auto simp: sb_write_def sb_cap_def Let_def split: if_splits)
    then show ?thesis using ok d by simp
  qed
qed

interpretation sb: stream_source sb_ok sb_ended sb_off_front sb_write sb_emit
proof unfold_locales
  fix W s d fin s' n
  assume "sb_ok W s" "sb_write d fin s = (s', Ok n)"
  then show "sb_ok (W @ take n d) s' \<and> (sb_ended s \<longrightarrow> n = 0 \<and> sb_ended s')"
    by (rule sb_write_Ok_cases)
next
  fix W s cap s' res
  assume ok: "sb_ok W s" and e: "sb_emit cap s = (s', res)"
  have "length W = sb_off s" "sb_fin_off s = None \<or> sb_fin_off s = Some (sb_off s)"
    using ok by (simp_all add: sb_ok_def sb_core_def)
  then show "sb_ok W s' \<and> sb_ended s' = sb_ended s
      \<and> (\<exists>n fin. res = Ok (seg (sb_off_front s) n W, fin) \<and> sb_off_front s + n \<le> length W
           \<and> (fin \<longrightarrow> sb_ended s \<and> sb_off_front s + n = length W))"
    using sb_emit_Ok [OF ok, of cap] e unfolding sb_ended_def by fastforce
qed

subsection \<open>The receive buffer is a sink\<close>

lemma rv_write_sound:
  assumes ok: "rv_ok r" and w: "rv_write (rb_from d off fin) r = (r', res)"
  shows "rv_ok r' \<and> rv_off r' = rv_off r
     \<and> (\<forall>i v. rv_content r' i = Some v \<longrightarrow>
          rv_content r i = Some v \<or> off \<le> i \<and> i < off + length d \<and> v = d ! (i - off))
     \<and> (\<forall>f. rv_fin_off r' = Some f \<longrightarrow> rv_fin_off r = Some f \<or> fin \<and> f = off + length d)"
proof (cases "off + length d \<le> rv_max_data r \<and> \<not> final_size_conflict (rb_from d off fin) r")
  case True
  let ?b = "rb_from d off fin"
  obtain r1 where r1: "rv_write ?b r = (r1, Ok ())" "rv_ok r1"
    "r1 = r\<lparr>rv_data := rv_data r1,
             rv_len := (if rb_is_empty ?b \<and> \<not> rb_fin ?b then rv_len r else max (rv_len r) (rb_max_off ?b)),
             rv_fin_off := (if rb_fin ?b then Some (rb_max_off ?b) else rv_fin_off r)\<rparr>"
    "\<not> rv_drain r \<longrightarrow> rv_content r1 = (rb_map ?b |` {rv_off r..}) ++ rv_content r"
    using rv_write_Ok [OF ok, of ?b] True by auto
  then have eq: "r' = r1" using w by simp
  have f: "rv_off r1 = rv_off r" "rv_fin_off r1 = (if fin then Some (off + length d) else rv_fin_off r)"
    "rv_drain r1 = rv_drain r"
    by (subst r1(3), simp)+
  have "rv_content r i = Some v \<or> off \<le> i \<and> i < off + length d \<and> v = d ! (i - off)"
    if "rv_content r1 i = Some v" for i v
  proof (cases "rv_drain r")
    case True
    then have "rv_data r1 = []" using r1(2) f(3) by (simp add: rv_ok_def rv_core_def)
    then show ?thesis using that by simp
  next
    case False
    then show ?thesis
      using that r1(4) by (auto simp: map_add_Some_iff restrict_map_def rb_map_def split: if_splits)
  qed
  then show ?thesis unfolding eq using r1(2) f by simp
next
  case False
  then have "r' = r"
    using rv_write_error [where buf = "rb_from d off fin" and r = r] w
    by (cases "off + length d \<le> rv_max_data r") auto
  then show ?thesis using ok by simp
qed

interpretation rv: stream_sink rv_ok "\<lambda>d off fin. rv_write (rb_from d off fin)" rv_emit rv_content
  rv_off rv_fin_off
proof unfold_locales
  fix r d off fin r' res
  assume "rv_ok r" "rv_write (rb_from d off fin) r = (r', res)"
  then show "rv_ok r' \<and> rv_off r' = rv_off r
     \<and> (\<forall>i v. rv_content r' i = Some v \<longrightarrow>
          rv_content r i = Some v \<or> off \<le> i \<and> i < off + length d \<and> v = d ! (i - off))
     \<and> (\<forall>f. rv_fin_off r' = Some f \<longrightarrow> rv_fin_off r = Some f \<or> fin \<and> f = off + length d)"
    by (rule rv_write_sound)
next
  fix r cap r' out fin
  assume ok: "rv_ok r" and e: "rv_emit cap r = (r', Ok (out, fin))"
  have "rv_ready r" "rv_error r = None"
    using e by (auto simp: rv_emit_def split: if_splits option.splits)
  from rv_emit_Ok [OF ok this, of cap] e
  show "rv_ok r' \<and> rv_off r' = rv_off r + length out
      \<and> (\<forall>i<length out. rv_content r (rv_off r + i) = Some (out ! i))
      \<and> rv_content r' \<subseteq>\<^sub>m rv_content r \<and> rv_fin_off r' = rv_fin_off r
      \<and> (fin \<longleftrightarrow> rv_fin_off r' = Some (rv_off r'))"
    by (auto simp: emit_post_def rv_is_fin_def map_le_def)
qed

interpretation link: stream_link sb_ok sb_ended sb_off_front sb_write sb_emit
  rv_ok "\<lambda>d off fin. rv_write (rb_from d off fin)" rv_emit rv_content rv_off rv_fin_off
  by unfold_locales

subsection \<open>The transfer\<close>

text \<open>
  The global state: the bytes the sending application wrote, the send buffer, every STREAM
  frame ever sent, the receive buffer and the bytes the receiving application has read.  A
  frame stays in the network set, so it can be delivered never, once or many times, in any
  order.  Acknowledgements and losses are reported for data that was sent.
\<close>

record transfer_state =
  tr_written :: "byte list"
  tr_send :: send_buf
  tr_net :: "stream_frame set"
  tr_recv :: recv_buf
  tr_read :: "byte list"

inductive transfer :: "transfer_state \<Rightarrow> transfer_state \<Rightarrow> bool" where
  app_write: "sb_write d fin (tr_send t) = (s', Ok n) \<Longrightarrow>
     transfer t (t\<lparr>tr_written := tr_written t @ take n d, tr_send := s'\<rparr>)"
| send_frame: "sb_emit cap (tr_send t) = (s', Ok (out, fin)) \<Longrightarrow>
     transfer t (t\<lparr>tr_send := s', tr_net := insert (sb_off_front (tr_send t), out, fin) (tr_net t)\<rparr>)"
| ack_frame: "off + len \<le> sb_emit_off (tr_send t) \<Longrightarrow> sb_emit_off (tr_send t) + 2 \<le> u64_max \<Longrightarrow>
     sb_ack_and_drop off len (tr_send t) = Some s' \<Longrightarrow> transfer t (t\<lparr>tr_send := s'\<rparr>)"
| lose_frame: "off + len \<le> u64_max \<Longrightarrow> sb_len (tr_send t) + sb_off (tr_send t) \<le> u64_max \<Longrightarrow>
     sb_retransmit off len (tr_send t) = Some s' \<Longrightarrow> transfer t (t\<lparr>tr_send := s'\<rparr>)"
| raise_limit: "max_data \<le> u64_max \<Longrightarrow>
     transfer t (t\<lparr>tr_send := sb_update_max_data max_data (tr_send t)\<rparr>)"
| deliver: "(off, d, fin) \<in> tr_net t \<Longrightarrow> rv_write (rb_from d off fin) (tr_recv t) = (r', res) \<Longrightarrow>
     transfer t (t\<lparr>tr_recv := r'\<rparr>)"
| app_read: "rv_emit cap (tr_recv t) = (r', Ok (out, fin)) \<Longrightarrow>
     transfer t (t\<lparr>tr_recv := r', tr_read := tr_read t @ out\<rparr>)"

inductive_cases transferE: "transfer t t'"

definition transfer_start :: "u64 \<Rightarrow> u64 \<Rightarrow> u64 \<Rightarrow> transfer_state" where
  "transfer_start send_max recv_max recv_window =
     \<lparr>tr_written = [], tr_send = sb_new send_max, tr_net = {},
      tr_recv = rv_new recv_max recv_window, tr_read = []\<rparr>"

inductive transfer_reachable :: "transfer_state \<Rightarrow> bool" where
  start: "send_max \<le> u64_max \<Longrightarrow> recv_max \<le> u64_max \<Longrightarrow>
     transfer_reachable (transfer_start send_max recv_max recv_window)"
| step: "transfer_reachable t \<Longrightarrow> transfer t t' \<Longrightarrow> transfer_reachable t'"

abbreviation transfer_inv :: "transfer_state \<Rightarrow> bool" where
  "transfer_inv t \<equiv> link.link_inv (tr_written t) (tr_send t) (tr_net t) (tr_recv t) (tr_read t)"

lemma sb_update_max_data_ok:
  "sb_ok W s \<Longrightarrow> max_data \<le> u64_max \<Longrightarrow> sb_ok W (sb_update_max_data max_data s)"
  by (simp add: sb_ok_def sb_core_def sb_update_max_data_def sb_ack_off_def le_max_iff_disj)

lemma transfer_start_inv:
  "send_max \<le> u64_max \<Longrightarrow> recv_max \<le> u64_max \<Longrightarrow> transfer_inv (transfer_start send_max recv_max w)"
  using sb_new_ok [of send_max] rv_new_ok [of recv_max w]
  by (simp add: link.link_inv_def transfer_start_def rv_new_def)

lemma transfer_keeps_inv:
  assumes "transfer t t'" "transfer_inv t"
  shows "transfer_inv t'"
  using assms
proof cases
  case (app_write d fin s' n)
  then show ?thesis using link.link_put [OF assms(2)] by simp
next
  case (send_frame cap s' out fin)
  then show ?thesis using link.link_emit [OF assms(2)] by simp
next
  case (ack_frame off len s')
  have ok: "sb_ok (tr_written t) (tr_send t)" using assms(2) by (simp add: link.link_inv_def)
  obtain s1 where "sb_ack_and_drop off len (tr_send t) = Some s1" "sb_ok (tr_written t) s1"
    "sb_fin_off s1 = sb_fin_off (tr_send t)"
    using sb_ack_and_drop_spec [OF ok ack_frame(2,3)] by blast
  then have "sb_ok (tr_written t) s'" "sb_ended s' = sb_ended (tr_send t)"
    using ack_frame(4) by (simp_all add: sb_ended_def)
  from link.link_keep [OF assms(2) this] show ?thesis using ack_frame(1) by simp
next
  case (lose_frame off len s')
  have ok: "sb_ok (tr_written t) (tr_send t)" using assms(2) by (simp add: link.link_inv_def)
  obtain s1 where "sb_retransmit off len (tr_send t) = Some s1" "sb_ok (tr_written t) s1"
    "same_stream (tr_send t) s1"
    using sb_retransmit_spec [OF ok lose_frame(2,3)] by blast
  then have "sb_ok (tr_written t) s'" "sb_ended s' = sb_ended (tr_send t)"
    using lose_frame(4) by (simp_all add: sb_ended_def same_stream_def)
  from link.link_keep [OF assms(2) this] show ?thesis using lose_frame(1) by simp
next
  case (raise_limit max_data)
  have ok: "sb_ok (tr_written t) (tr_send t)" using assms(2) by (simp add: link.link_inv_def)
  show ?thesis
    using link.link_keep [OF assms(2) sb_update_max_data_ok [OF ok raise_limit(2)]] raise_limit(1)
    by (simp add: sb_update_max_data_def sb_ended_def)
next
  case (deliver off d fin r' res)
  then show ?thesis using link.link_store [OF assms(2)] by simp
next
  case (app_read cap r' out fin)
  then show ?thesis using link.link_fetch(1) [OF assms(2)] by simp
qed

lemma transfer_reachable_inv: "transfer_reachable t \<Longrightarrow> transfer_inv t"
  by (induction rule: transfer_reachable.induct) (auto intro: transfer_start_inv transfer_keeps_inv)

lemma rv_ready_if_stored:
  assumes ok: "rv_ok r" and st: "rv_content r (rv_off r) \<noteq> None"
  shows "rv_ready r"
proof -
  have chunks: "chunks_ok (rv_off r) (rv_data r)" using ok by (simp add: rv_ok_def rv_core_def)
  have "rv_off r \<in> spans (rv_data r)" using st by (simp add: dom_content_spans [symmetric] domIff)
  then obtain k b where b: "(k, b) \<in> set (rv_data r)" "rb_off b \<le> rv_off r" "rv_off r < rb_max_off b"
    by (auto simp: spans_def span_def)
  then have off: "rb_off b = rv_off r" using chunks_okD(4) [OF chunks b(1)] by simp
  obtain k1 b1 rest where d: "rv_data r = (k1, b1) # rest" using b(1) by (cases "rv_data r") auto
  then have m1: "(k1, b1) \<in> set (rv_data r)" by simp
  have "rb_off b1 = rv_off r"
  proof (cases "k1 < k")
    case True
    then have "k1 \<le> rv_off r" using chunks_okD(5) [OF chunks m1 b(1)] off by simp
    then show ?thesis
      using chunks_okD(2,4) [OF chunks m1] rb_off_le_max_off [of b1] by linarith
  next
    case False
    then have "(k, b) = (k1, b1)"
      using b(1) d chunks_okD(1) [OF chunks] by (auto simp: bt_ok_Cons)
    then show ?thesis using off by simp
  qed
  then show ?thesis by (simp add: rv_ready_def d)
qed

text \<open>A run: three bytes are written with the end of the stream, sent in one frame and delivered.\<close>

definition sample_send :: send_buf where
  "sample_send = \<lparr>sb_data = [rb_from [1, 2, 3] 0 True], sb_pos = 0, sb_off = 3, sb_emit_off = 0,
     sb_len = 3, sb_max_data = 100, sb_blocked_at = None, sb_fin_off = Some 3,
     sb_is_shutdown = False, sb_acked = rs_default, sb_error = None\<rparr>"

definition sample_recv :: recv_buf where
  "sample_recv = \<lparr>rv_data = [(3, rb_from [1, 2, 3] 0 True)], rv_off = 0, rv_len = 3,
     rv_flow_control = fc_new 100 100 100, rv_fin_off = Some 3, rv_error = None, rv_drain = False\<rparr>"

lemma sample_steps:
  "sb_write [1, 2, 3] True (sb_new 100) = (sample_send, Ok 3)"
  "sb_off_front sample_send = 0"
  "\<exists>s'. sb_emit 10 sample_send = (s', Ok ([1, 2, 3], True))"
  "rv_write (rb_from [1, 2, 3] 0 True) (rv_new 100 100) = (sample_recv, Ok ())"
  "\<exists>r'. rv_emit 10 sample_recv = (r', Ok ([1, 2, 3], True))"
  by (simp_all add: sample_send_def sample_recv_def sb_write_def sb_new_def sb_cap_def
      sb_ack_off_def rs_default_def rs_iter_def SEND_BUFFER_SIZE_def chunks.simps Let_def
      sb_off_front_def rb_is_empty_def sb_emit_def sb_emit_loop.simps sb_is_empty_def rv_write_def
      rv_new_def rv_max_data_def fc_new_def write_discard_def rv_off_front_def write_place_def
      rv_max_off_def write_store_def DEFAULT_STREAM_WINDOW_def rv_emit_def rv_ready_def
      fc_add_consumed_def rv_is_fin_def)

lemma sample_reachable:
  "\<exists>t. transfer_reachable t \<and> tr_written t = [1, 2, 3] \<and> tr_recv t = sample_recv \<and> tr_read t = []"
proof -
  obtain s' where e: "sb_emit 10 sample_send = (s', Ok ([1, 2, 3], True))" using sample_steps(3) by blast
  let ?t0 = "transfer_start 100 100 100"
  let ?t1 = "?t0\<lparr>tr_written := tr_written ?t0 @ take 3 [1, 2, 3], tr_send := sample_send\<rparr>"
  let ?t2 = "?t1\<lparr>tr_send := s', tr_net := insert (sb_off_front (tr_send ?t1), [1, 2, 3], True) (tr_net ?t1)\<rparr>"
  let ?t3 = "?t2\<lparr>tr_recv := sample_recv\<rparr>"
  have "transfer_reachable ?t0" by (rule transfer_reachable.start) simp_all
  moreover have "transfer ?t0 ?t1" by (rule app_write [of _ True]) (simp add: transfer_start_def sample_steps(1))
  moreover have "transfer ?t1 ?t2" by (rule send_frame [of 10]) (simp add: e)
  moreover have "transfer ?t2 ?t3"
    by (rule deliver [of 0 "[1, 2, 3]" True _ _ "Ok ()"])
      (simp_all add: sample_steps(2,4) transfer_start_def)
  ultimately have "transfer_reachable ?t3" by (meson transfer_reachable.step)
  then show ?thesis by (intro exI [of _ ?t3]) (simp add: transfer_start_def)
qed

end
