(* ===== verification/PacketNumber.thy ===== *)
theory PacketNumber
  imports Octets
begin

text \<open>
  Packet numbers, from \<^verbatim>\<open>quiche/src/packet.rs\<close>: how many bytes a packet number is truncated
  to (\<open>pkt_num_len\<close>), how the truncated number is written and expanded again
  (\<open>encode_pkt_num\<close>, \<open>decode_pkt_num\<close>), and the window that recognises repeated packets
  (\<open>pkt_num_window\<close>, a 128-bit bitmap under a lower bound).

  \<open>x & !mask\<close> clears the low bits of \<open>x\<close>; on natural numbers it is shifting them out and
  back.
\<close>

fun bit_length :: "nat \<Rightarrow> nat" where
  "bit_length n = (if n = 0 then 0 else Suc (bit_length (n div 2)))"

declare bit_length.simps [simp del]

definition pkt_num_len :: "u64 \<Rightarrow> u64 \<Rightarrow> usize" where
  "pkt_num_len pn largest_acked =
     (let num_unacked = (pn - largest_acked) + 1;
          min_bits = bit_length num_unacked
      in (min_bits + 7) div 8)"

definition decode_pkt_num :: "u64 \<Rightarrow> u64 \<Rightarrow> usize \<Rightarrow> u64" where
  "decode_pkt_num largest_pn truncated_pn pn_len =
     (let pn_nbits = pn_len * 8;
          expected_pn = largest_pn + 1;
          pn_win = 2 ^ pn_nbits;
          pn_hwin = pn_win div 2;
          candidate_pn = push_bit pn_nbits (drop_bit pn_nbits expected_pn) OR truncated_pn
      in if candidate_pn + pn_hwin \<le> expected_pn \<and> candidate_pn < 2 ^ 62 - pn_win
         then candidate_pn + pn_win
         else if candidate_pn > expected_pn + pn_hwin \<and> candidate_pn \<ge> pn_win
         then candidate_pn - pn_win
         else candidate_pn)"

definition encode_pkt_num :: "u64 \<Rightarrow> usize \<Rightarrow> octets \<Rightarrow> (error, octets) res" where
  "encode_pkt_num pn pn_len b =
     (if pn_len = 1 then map_err (\<lambda>_. BufferTooShort) (put_u8 (pn mod 2 ^ 8) b)
      else if pn_len = 2 then map_err (\<lambda>_. BufferTooShort) (put_u16 (pn mod 2 ^ 16) b)
      else if pn_len = 3 then map_err (\<lambda>_. BufferTooShort) (put_u24 (pn mod 2 ^ 32) b)
      else if pn_len = 4 then map_err (\<lambda>_. BufferTooShort) (put_u32 (pn mod 2 ^ 32) b)
      else Err InvalidPacket)"

text \<open>The \<^verbatim>\<open>match pn_len\<close> of \<^verbatim>\<open>decrypt_hdr\<close> that reads the truncated number back.\<close>

definition get_pkt_num :: "usize \<Rightarrow> octets \<Rightarrow> (error, u64 \<times> octets) res" where
  "get_pkt_num pn_len b =
     (if pn_len = 1 then map_err (\<lambda>_. BufferTooShort) (get_u8 b)
      else if pn_len = 2 then map_err (\<lambda>_. BufferTooShort) (get_u16 b)
      else if pn_len = 3 then map_err (\<lambda>_. BufferTooShort) (get_u24 b)
      else if pn_len = 4 then map_err (\<lambda>_. BufferTooShort) (get_u32 b)
      else Err InvalidPacket)"

subsection \<open>The replay window\<close>

record pkt_num_window =
  pw_lower :: u64
  pw_window :: "128 word"

definition pw_default :: pkt_num_window where
  "pw_default = \<lparr>pw_lower = 0, pw_window = 0\<rparr>"

definition pw_upper :: "pkt_num_window \<Rightarrow> u64" where
  "pw_upper w = saturating_add (pw_lower w) 128 - 1"

text \<open>\<^verbatim>\<open>checked_shl\<close> takes a \<^verbatim>\<open>u32\<close>: the cast keeps the low 32 bits of the distance.\<close>

definition pw_slide :: "u64 \<Rightarrow> pkt_num_window \<Rightarrow> pkt_num_window" where
  "pw_slide diff w =
     w\<lparr>pw_lower := pw_lower w + diff,
       pw_window := (let d = diff mod 2 ^ 32 in if d < 128 then push_bit d (pw_window w) else 0)\<rparr>"

definition pw_insert :: "u64 \<Rightarrow> pkt_num_window \<Rightarrow> pkt_num_window option" where
  "pw_insert seq w =
     (if seq < pw_lower w then Some w
      else
        let w = (if seq > pw_upper w then pw_slide (seq - pw_upper w) w else w)
        in map_option (\<lambda>i. w\<lparr>pw_window := pw_window w OR push_bit i 1\<rparr>)
             (u64_sub (pw_upper w) seq))"

definition pw_contains :: "u64 \<Rightarrow> pkt_num_window \<Rightarrow> bool" where
  "pw_contains seq w =
     (if seq > pw_upper w then False
      else if seq < pw_lower w then True
      else pw_window w AND push_bit (pw_upper w - seq) 1 \<noteq> 0)"

subsection \<open>Truncation and expansion\<close>

lemma bit_length_bounds: "0 < n \<Longrightarrow> 2 ^ (bit_length n - 1) \<le> n \<and> n < 2 ^ bit_length n \<and> 0 < bit_length n"
proof (induction n rule: bit_length.induct)
  case (1 n)
  show ?case
  proof (cases "n = 1")
    case True
    then show ?thesis by (simp add: bit_length.simps)
  next
    case False
    let ?k = "bit_length (n div 2)"
    have ih: "2 ^ (?k - 1) \<le> n div 2" "n div 2 < 2 ^ ?k" "0 < ?k"
      using 1 False by auto
    have eq: "bit_length n = Suc ?k" using 1(2) by (subst bit_length.simps) simp
    have pow: "(2 :: nat) ^ ?k = 2 * 2 ^ (?k - 1)" "(2 :: nat) ^ Suc ?k = 2 * 2 ^ ?k"
      using ih by (cases ?k) auto
    have "n < 2 * (n div 2) + 2" "2 * (n div 2) \<le> n" by simp_all
    then have "2 ^ ?k \<le> n" "n < 2 ^ Suc ?k" using ih pow by linarith+
    then show ?thesis by (simp add: eq)
  qed
qed

lemma clear_or:
  assumes "t < 2 ^ n"
  shows "push_bit n (drop_bit n x) OR t = (x div 2 ^ n) * 2 ^ n + (t :: nat)"
proof -
  have "push_bit n (drop_bit n x) AND t = 0"
  proof (rule bit_eqI)
    fix k
    have "bit t k \<Longrightarrow> k < n" using assms bit_take_bit_iff [of n t k] by (simp add: take_bit_nat_eq_self)
    then show "bit (push_bit n (drop_bit n x) AND t) k = bit 0 k"
      by (auto simp: bit_and_iff bit_push_bit_iff)
  qed
  then show ?thesis
    by (simp add: disjunctive_add_eq_or [symmetric] push_bit_eq_mult drop_bit_eq_div mult.commute)
qed

lemma decode_pkt_num_eq:
  fixes W e q p t :: nat
  assumes W: "W = 2 ^ (n * 8)" and e: "e = largest_pn + 1" and q: "q = e div W"
    and t: "t < W"
  shows "decode_pkt_num largest_pn t n =
    (if q * W + t + W div 2 \<le> e \<and> q * W + t < 2 ^ 62 - W then q * W + t + W
     else if e + W div 2 < q * W + t \<and> W \<le> q * W + t then q * W + t - W
     else q * W + t)"
  using assms clear_or [of t "n * 8" e] by (simp add: decode_pkt_num_def Let_def)

lemma decode_pkt_num_window:
  fixes pn :: nat
  assumes n: "0 < n" and pn: "pn < 2 ^ 62"
    and win: "largest_pn + 1 < pn + 2 ^ (n * 8) div 2" "pn \<le> largest_pn + 1 + 2 ^ (n * 8) div 2"
  shows "decode_pkt_num largest_pn (pn mod 2 ^ (n * 8)) n = pn"
proof -
  define W where "W = (2 :: nat) ^ (n * 8)"
  define e where "e = largest_pn + 1"
  define q where "q = e div W"
  define p where "p = pn div W"
  define t where "t = pn mod W"
  have W0: "0 < W" "W div 2 < W" by (simp_all add: W_def)
  have even: "W div 2 + W div 2 = W"
    using n unfolding W_def by (cases "n * 8") auto
  have t: "t < W" "pn = p * W + t" using W0 by (simp_all add: t_def p_def)
  have e': "q * W \<le> e" "e < q * W + W"
    using W0 div_mult_mod_eq [of e W] mod_less_divisor [of W e] unfolding q_def by linarith+
  have w: "e < pn + W div 2" "pn \<le> e + W div 2" using win by (simp_all add: W_def e_def)
  have "p < q + 2"
  proof (rule ccontr)
    assume "\<not> p < q + 2"
    then have "(q + 2) * W \<le> p * W" by (intro mult_le_mono1) simp
    then show False using e' w t even W0 by (simp add: algebra_simps)
  qed
  moreover have "q < p + 2"
  proof (rule ccontr)
    assume "\<not> q < p + 2"
    then have "(p + 2) * W \<le> q * W" by (intro mult_le_mono1) simp
    then show False using e' w t even W0 by (simp add: algebra_simps)
  qed
  ultimately consider "p = q" | "p = q + 1" | "q = p + 1" by linarith
  then have "decode_pkt_num largest_pn t n = pn"
  proof cases
    case 1
    then show ?thesis
      unfolding decode_pkt_num_eq [OF W_def e_def q_def t(1)] using w t by auto
  next
    case 2
    then have c: "q * W + t + W = pn" using t by (simp add: algebra_simps)
    then have "q * W + t + W div 2 \<le> e" "q * W + t < 2 ^ 62 - W" using w even pn by linarith+
    then show ?thesis
      unfolding decode_pkt_num_eq [OF W_def e_def q_def t(1)] using c by simp
  next
    case 3
    then have c: "q * W + t = pn + W" using t by (simp add: algebra_simps)
    then have "\<not> q * W + t + W div 2 \<le> e" "e + W div 2 < q * W + t" using w even by linarith+
    then show ?thesis
      unfolding decode_pkt_num_eq [OF W_def e_def q_def t(1)] using c by simp
  qed
  then show ?thesis by (simp add: t_def W_def)
qed

lemma decode_pkt_num_outside:
  fixes pn :: nat
  assumes n: "0 < n" and far: "largest_pn + 1 + 2 ^ (n * 8) div 2 < pn"
    and near: "pn < largest_pn + 1 + 2 ^ (n * 8)" and big: "2 ^ (n * 8) \<le> pn"
  shows "decode_pkt_num largest_pn (pn mod 2 ^ (n * 8)) n \<noteq> pn"
proof -
  define W where "W = (2 :: nat) ^ (n * 8)"
  define e where "e = largest_pn + 1"
  define q where "q = e div W"
  define p where "p = pn div W"
  define t where "t = pn mod W"
  have W0: "0 < W" by (simp add: W_def)
  have even: "W div 2 + W div 2 = W"
    using n unfolding W_def by (cases "n * 8") auto
  have t: "t < W" "pn = p * W + t" using W0 by (simp_all add: t_def p_def)
  have e': "q * W \<le> e" "e < q * W + W"
    using W0 div_mult_mod_eq [of e W] mod_less_divisor [of W e] unfolding q_def by linarith+
  have w: "e + W div 2 < pn" "pn < e + W" "W \<le> pn" using far near big by (simp_all add: W_def e_def)
  have "p < q + 2"
  proof (rule ccontr)
    assume "\<not> p < q + 2"
    then have "(q + 2) * W \<le> p * W" by (intro mult_le_mono1) simp
    then show False using e' w t W0 by (simp add: algebra_simps)
  qed
  moreover have "q \<le> p"
  proof (rule ccontr)
    assume "\<not> q \<le> p"
    then have "(p + 1) * W \<le> q * W" by (intro mult_le_mono1) simp
    then show False using e' w t W0 by (simp add: algebra_simps)
  qed
  ultimately consider "p = q" | "p = q + 1" by linarith
  then have "decode_pkt_num largest_pn t n \<noteq> pn"
  proof cases
    case 1
    then have "q * W + t = pn" using t by simp
    then show ?thesis
      unfolding decode_pkt_num_eq [OF W_def e_def q_def t(1)] using w W0 by auto
  next
    case 2
    then have c: "q * W + t + W = pn" using t by (simp add: algebra_simps)
    then have "\<not> q * W + t + W div 2 \<le> e" using w even by linarith
    then show ?thesis
      unfolding decode_pkt_num_eq [OF W_def e_def q_def t(1)] using c W0 by auto
  qed
  then show ?thesis by (simp add: t_def W_def)
qed

lemma put_get_pkt_num:
  assumes "1 \<le> n" "n \<le> 4" "octets_ok b" "n \<le> cap b"
  shows "\<exists>b'. encode_pkt_num pn n b = Ok b' \<and> octets_ok b' \<and> o_off b' = o_off b + n
           \<and> get_pkt_num n (b'\<lparr>o_off := o_off b\<rparr>) = Ok (pn mod 2 ^ (n * 8), b')"
proof -
  consider "n = 1" | "n = 2" | "n = 3" | "n = 4" using assms(1,2) by linarith
  then show ?thesis
  proof cases
    case 1
    then show ?thesis
      using u8.put_then_get [OF assms(3), of "pn mod 2 ^ 8"] assms(4)
      by (fastforce simp: encode_pkt_num_def get_pkt_num_def)
  next
    case 2
    then show ?thesis
      using u16.put_then_get [OF assms(3), of "pn mod 2 ^ 16"] assms(4)
      by (fastforce simp: encode_pkt_num_def get_pkt_num_def)
  next
    case 3
    have "put_u24 (pn mod 2 ^ 32) b = put_u24 (pn mod 2 ^ 24) b"
      using be_bytes_mod [of 3 3 "pn mod 2 ^ 32"] be_bytes_mod [of 3 4 pn] be_bytes_mod [of 3 3 pn] assms(3)
      by (simp add: put_u24_def put_u_write)
    then show ?thesis
      using 3 u24.put_then_get [OF assms(3), of "pn mod 2 ^ 24"] assms(4)
      by (fastforce simp: encode_pkt_num_def get_pkt_num_def)
  next
    case 4
    then show ?thesis
      using u32.put_then_get [OF assms(3), of "pn mod 2 ^ 32"] assms(4)
      by (fastforce simp: encode_pkt_num_def get_pkt_num_def)
  qed
qed

subsection \<open>The window as a set\<close>

definition pw_seen :: "pkt_num_window \<Rightarrow> u64 set" where
  "pw_seen w = {s. s \<le> pw_upper w \<and> bit (pw_window w) (pw_upper w - s)}"

lemma pw_upper_eq: "pw_lower w + 128 \<le> u64_max \<Longrightarrow> pw_upper w = pw_lower w + 127"
  by (simp add: pw_upper_def saturating_add_def)

lemma pw_contains_seen:
  "pw_lower w \<le> seq \<Longrightarrow> pw_contains seq w \<longleftrightarrow> seq \<in> pw_seen w"
  by (auto simp: pw_contains_def pw_seen_def and_exp_eq_0_iff_not_bit push_bit_of_1)

lemma pw_slide_props:
  assumes "seq > pw_upper w" "pw_lower w + 128 \<le> u64_max" "seq < 2 ^ 62" "seq < pw_upper w + 2 ^ 32"
  defines "w' \<equiv> pw_slide (seq - pw_upper w) w"
  shows "pw_lower w' = seq - 127" "pw_upper w' = seq"
    "s \<ge> pw_lower w' \<Longrightarrow> s \<in> pw_seen w' \<longleftrightarrow> s \<in> pw_seen w"
proof -
  let ?d = "seq - pw_upper w"
  have up: "pw_upper w = pw_lower w + 127" using pw_upper_eq [OF assms(2)] .
  have d: "?d mod 2 ^ 32 = ?d" "0 < ?d" using assms(1,4) by auto
  show lo: "pw_lower w' = seq - 127" using assms(1) up by (simp add: w'_def pw_slide_def)
  then have lo': "pw_lower w' + 127 = seq" using assms(1) up by simp
  then show up': "pw_upper w' = seq" using pw_upper_eq [of w'] assms(3) by simp
  assume s: "s \<ge> pw_lower w'"
  show "s \<in> pw_seen w' \<longleftrightarrow> s \<in> pw_seen w"
  proof (cases "s \<le> seq")
    case True
    have win: "pw_window w' = (if ?d < 128 then push_bit ?d (pw_window w) else 0)"
      using d by (simp add: w'_def pw_slide_def Let_def)
    have i: "seq - s < 128" using s lo' by simp
    show ?thesis
    proof (cases "s \<le> pw_upper w")
      case le: True
      then have "?d \<le> seq - s" "seq - s - ?d = pw_upper w - s" using assms(1) by auto
      then show ?thesis
        using True le i unfolding pw_seen_def up' win by (auto simp: bit_push_bit_iff)
    next
      case False
      then have "\<not> ?d \<le> seq - s" using True assms(1) by simp
      then show ?thesis using True False unfolding pw_seen_def up' win by (auto simp: bit_push_bit_iff)
    qed
  next
    case False
    then show ?thesis using assms(1) by (simp add: pw_seen_def up')
  qed
qed

lemma pw_insert_spec:
  assumes "pw_lower w + 128 \<le> u64_max" "seq < 2 ^ 62" "seq < pw_upper w + 2 ^ 32"
  shows "\<exists>w'. pw_insert seq w = Some w' \<and> pw_lower w' = max (pw_lower w) (seq - 127)
     \<and> (\<forall>s\<ge>pw_lower w'. s \<in> pw_seen w' \<longleftrightarrow> s \<in> pw_seen w \<or> s = seq)"
proof -
  have set: "s \<in> pw_seen (v\<lparr>pw_window := pw_window v OR push_bit (pw_upper v - seq) 1\<rparr>)
      \<longleftrightarrow> s \<in> pw_seen v \<or> s = seq" if "pw_lower v \<le> s" "seq \<le> pw_upper v" "pw_upper v \<le> pw_lower v + 127" for s v
  proof -
    have up: "pw_upper (v\<lparr>pw_window := x\<rparr>) = pw_upper v" for x by (simp add: pw_upper_def)
    have "s \<le> pw_upper v \<Longrightarrow> pw_upper v - s < 128" using that by simp
    then show ?thesis
      using that(2) by (auto simp: pw_seen_def up bit_or_iff push_bit_of_1 bit_exp_iff)
  qed
  have up: "pw_upper w = pw_lower w + 127" using pw_upper_eq [OF assms(1)] .
  consider (old) "seq < pw_lower w" | (mid) "pw_lower w \<le> seq" "seq \<le> pw_upper w" | (new) "seq > pw_upper w"
    by linarith
  then show ?thesis
  proof cases
    case old
    then have "pw_insert seq w = Some w" by (simp add: pw_insert_def)
    then show ?thesis using old by auto
  next
    case mid
    let ?w = "w\<lparr>pw_window := pw_window w OR push_bit (pw_upper w - seq) 1\<rparr>"
    have "pw_insert seq w = Some ?w" using mid by (simp add: pw_insert_def)
    then show ?thesis using set [of w] mid up by (intro exI [of _ ?w]) auto
  next
    case new
    let ?v = "pw_slide (seq - pw_upper w) w"
    let ?w = "?v\<lparr>pw_window := pw_window ?v OR push_bit (pw_upper ?v - seq) 1\<rparr>"
    note sl = pw_slide_props [OF new assms(1-3)]
    have "pw_insert seq w = Some ?w" using new up sl(2) by (simp add: pw_insert_def Let_def)
    moreover have "max (pw_lower w) (seq - 127) = seq - 127" using new up by simp
    moreover have "pw_upper ?v \<le> pw_lower ?v + 127" using sl(1,2) by simp
    ultimately show ?thesis
      using set [of ?v] sl by (intro exI [of _ ?w]) auto
  qed
qed

text \<open>\<open>tracks w S\<close>: the window after the packet numbers in \<open>S\<close> were received, in some order.  A
  packet number is decoded within half of a four-byte window of the largest one, so it is
  less than \<open>2 ^ 32\<close> above it.\<close>

inductive tracks :: "pkt_num_window \<Rightarrow> u64 set \<Rightarrow> bool" where
  none: "tracks pw_default {}"
| recv: "tracks w S \<Longrightarrow> seq < 2 ^ 62 \<Longrightarrow> seq < pw_upper w + 2 ^ 32 \<Longrightarrow>
     pw_insert seq w = Some w' \<Longrightarrow> tracks w' (insert seq S)"

lemma tracks_spec:
  "tracks w S \<Longrightarrow> (\<forall>s\<ge>pw_lower w. s \<in> pw_seen w \<longleftrightarrow> s \<in> S) \<and> pw_lower w < 2 ^ 62"
proof (induction rule: tracks.induct)
  case none
  then show ?case by (simp add: pw_default_def pw_seen_def)
next
  case (recv w S seq w')
  then have small: "pw_lower w + 128 \<le> u64_max" by simp
  from pw_insert_spec [OF small recv.hyps(2,3)] recv show ?case by auto
qed

subsection \<open>Properties\<close>

text \<open>
  C36: a packet number written with one to four bytes and read back is expanded to the same
  packet number whenever it lies within half a window of the next expected one.
\<close>

theorem pkt_num_round_trip:
  assumes "1 \<le> n" and "n \<le> 4" and "octets_ok b" and "n \<le> cap b" and "pn < 2 ^ 62"
    and "largest_pn + 1 < pn + 2 ^ (n * 8) div 2" and "pn \<le> largest_pn + 1 + 2 ^ (n * 8) div 2"
  shows "\<exists>b' t. encode_pkt_num pn n b = Ok b'
           \<and> get_pkt_num n (b'\<lparr>o_off := o_off b\<rparr>) = Ok (t, b')
           \<and> decode_pkt_num largest_pn t n = pn"
  using put_get_pkt_num [OF assms(1-4), of pn] decode_pkt_num_window [of n pn largest_pn] assms
  by auto

theorem pkt_num_round_trip_witness:
  "\<exists>b' t. encode_pkt_num 0xa82f9b32 2 (with_slice [0, 0, 0]) = Ok b'
      \<and> get_pkt_num 2 (b'\<lparr>o_off := 0\<rparr>) = Ok (t, b') \<and> decode_pkt_num 0xa82f30ea t 2 = 0xa82f9b32"
  using pkt_num_round_trip [of 2 "with_slice [0, 0, 0]" "0xa82f9b32" "0xa82f30ea"]
  by (simp add: with_slice_def octets_ok_def cap_def)





end
