(* ===== verification/Crypto.thy ===== *)
theory Crypto
  imports Codec
begin

text \<open>
  Packet protection keys, \<^verbatim>\<open>quiche/src/crypto/mod.rs\<close> and \<^verbatim>\<open>boringssl.rs\<close>.

  The primitives come from ring (HKDF, header protection) and BoringSSL (the AEAD); they
  are the fields of the record \<open>backend\<close>, an argument of every definition that uses them,
  with abstract types for the pseudo-random key, the header protection key and the AEAD
  context.  \<open>backend_ok\<close> is what those libraries document: a header protection mask has five
  bytes, sealing produces as many bytes as it was given and a tag of the announced length,
  and opening what was sealed under the same context, nonce and associated data returns it.
  The definitions are for a build without the \<^verbatim>\<open>fuzzing\<close> feature, which replaces all of
  this by the identity.

  A buffer that the code overwrites in place is returned changed beside the result.
\<close>

datatype algorithm = AES128_GCM | AES256_GCM | ChaCha20_Poly1305

datatype hp_algorithm = HP_AES_128 | HP_AES_256 | HP_CHACHA20

datatype hkdf_algorithm = HKDF_SHA256 | HKDF_SHA384

record ('prk, 'hpk, 'ctx) backend =
  hkdf_extract :: "hkdf_algorithm \<Rightarrow> byte list \<Rightarrow> byte list \<Rightarrow> 'prk"
  prk_new_less_safe :: "hkdf_algorithm \<Rightarrow> byte list \<Rightarrow> 'prk"
  prk_expand :: "'prk \<Rightarrow> byte list list \<Rightarrow> usize \<Rightarrow> byte list option"
  hpk_new :: "hp_algorithm \<Rightarrow> byte list \<Rightarrow> 'hpk option"
  hpk_new_mask :: "'hpk \<Rightarrow> byte list \<Rightarrow> byte list option"
  ctx_init :: "algorithm \<Rightarrow> byte list \<Rightarrow> usize \<Rightarrow> usize \<Rightarrow> 'ctx option"
  ctx_open :: "'ctx \<Rightarrow> usize \<Rightarrow> byte list \<Rightarrow> byte list \<Rightarrow> byte list \<Rightarrow> byte list option"
  ctx_seal_scatter :: "'ctx \<Rightarrow> usize \<Rightarrow> byte list \<Rightarrow> byte list \<Rightarrow> byte list \<Rightarrow> byte list
                         \<Rightarrow> (byte list \<times> byte list) option"

definition get_ring_hp :: "algorithm \<Rightarrow> hp_algorithm" where
  "get_ring_hp alg = (case alg of AES128_GCM \<Rightarrow> HP_AES_128 | AES256_GCM \<Rightarrow> HP_AES_256
                      | ChaCha20_Poly1305 \<Rightarrow> HP_CHACHA20)"

definition get_ring_digest :: "algorithm \<Rightarrow> hkdf_algorithm" where
  "get_ring_digest alg = (case alg of AES128_GCM \<Rightarrow> HKDF_SHA256 | AES256_GCM \<Rightarrow> HKDF_SHA384
                          | ChaCha20_Poly1305 \<Rightarrow> HKDF_SHA256)"

definition key_len :: "algorithm \<Rightarrow> usize" where
  "key_len alg = (case alg of AES128_GCM \<Rightarrow> 16 | AES256_GCM \<Rightarrow> 32 | ChaCha20_Poly1305 \<Rightarrow> 32)"

definition tag_len :: "algorithm \<Rightarrow> usize" where
  "tag_len alg = (case alg of AES128_GCM \<Rightarrow> 16 | AES256_GCM \<Rightarrow> 16 | ChaCha20_Poly1305 \<Rightarrow> 16)"

definition nonce_len :: "algorithm \<Rightarrow> usize" where
  "nonce_len alg = (case alg of AES128_GCM \<Rightarrow> 12 | AES256_GCM \<Rightarrow> 12 | ChaCha20_Poly1305 \<Rightarrow> 12)"

subsection \<open>Keys\<close>

record 'hpk header_protection_key =
  hk_hpk :: 'hpk
  hk_hp_key :: "byte list"

record 'ctx packet_key =
  pk_ctx :: 'ctx
  pk_nonce :: "byte list"

record ('hpk, 'ctx) open_key =
  op_alg :: algorithm
  op_secret :: "byte list"
  op_header :: "'hpk header_protection_key"
  op_packet :: "'ctx packet_key"

record ('hpk, 'ctx) seal_key =
  sl_alg :: algorithm
  sl_secret :: "byte list"
  sl_header :: "'hpk header_protection_key"
  sl_packet :: "'ctx packet_key"

definition ascii :: "string \<Rightarrow> byte list" where
  "ascii s = map (\<lambda>c. word_of_nat (of_char c)) s"

definition crypto_fail :: "'a option \<Rightarrow> (error, 'a) res" where
  "crypto_fail r = (case r of Some x \<Rightarrow> Ok x | None \<Rightarrow> Err CryptoFail)"

definition hkdf_expand_label ::
    "('prk, 'hpk, 'ctx) backend \<Rightarrow> 'prk \<Rightarrow> byte list \<Rightarrow> usize \<Rightarrow> (error, byte list) res" where
  "hkdf_expand_label B prk label out_len =
     (let info = [be_bytes 2 (out_len mod 2 ^ 16), [word_of_nat (length (ascii ''tls13 '') + length label)],
                  ascii ''tls13 '', label, [0]]
      in crypto_fail (prk_expand B prk info out_len))"

definition derive_hdr_key ::
    "('prk, 'hpk, 'ctx) backend \<Rightarrow> algorithm \<Rightarrow> byte list \<Rightarrow> byte list \<Rightarrow> (error, byte list) res" where
  "derive_hdr_key B aead secret out =
     (if key_len aead > length out then Err CryptoFail
      else and_then (hkdf_expand_label B (prk_new_less_safe B (get_ring_digest aead) secret)
                       (ascii ''quic hp'') (key_len aead))
             (\<lambda>k. Ok (overwrite 0 k out)))"

definition derive_pkt_key ::
    "('prk, 'hpk, 'ctx) backend \<Rightarrow> algorithm \<Rightarrow> byte list \<Rightarrow> byte list \<Rightarrow> (error, byte list) res" where
  "derive_pkt_key B aead secret out =
     (if key_len aead > length out then Err CryptoFail
      else and_then (hkdf_expand_label B (prk_new_less_safe B (get_ring_digest aead) secret)
                       (ascii ''quic key'') (key_len aead))
             (\<lambda>k. Ok (overwrite 0 k out)))"

definition derive_pkt_iv ::
    "('prk, 'hpk, 'ctx) backend \<Rightarrow> algorithm \<Rightarrow> byte list \<Rightarrow> byte list \<Rightarrow> (error, byte list) res" where
  "derive_pkt_iv B aead secret out =
     (if nonce_len aead > length out then Err CryptoFail
      else and_then (hkdf_expand_label B (prk_new_less_safe B (get_ring_digest aead) secret)
                       (ascii ''quic iv'') (nonce_len aead))
             (\<lambda>k. Ok (overwrite 0 k out)))"

definition derive_next_secret ::
    "('prk, 'hpk, 'ctx) backend \<Rightarrow> algorithm \<Rightarrow> byte list \<Rightarrow> (error, byte list) res" where
  "derive_next_secret B aead secret =
     hkdf_expand_label B (prk_new_less_safe B (get_ring_digest aead) secret) (ascii ''quic ku'')
       (length secret)"

definition header_protection_key_new ::
    "('prk, 'hpk, 'ctx) backend \<Rightarrow> algorithm \<Rightarrow> byte list \<Rightarrow> (error, 'hpk header_protection_key) res" where
  "header_protection_key_new B alg hp_key =
     and_then (crypto_fail (hpk_new B (get_ring_hp alg) hp_key))
       (\<lambda>hpk. Ok \<lparr>hk_hpk = hpk, hk_hp_key = hp_key\<rparr>)"

definition header_protection_key_from_secret ::
    "('prk, 'hpk, 'ctx) backend \<Rightarrow> algorithm \<Rightarrow> byte list \<Rightarrow> (error, 'hpk header_protection_key) res" where
  "header_protection_key_from_secret B aead secret =
     and_then (derive_hdr_key B aead secret (replicate (key_len aead) 0))
       (header_protection_key_new B aead)"

definition make_aead_ctx ::
    "('prk, 'hpk, 'ctx) backend \<Rightarrow> algorithm \<Rightarrow> byte list \<Rightarrow> (error, 'ctx) res" where
  "make_aead_ctx B alg key = crypto_fail (ctx_init B alg key (key_len alg) (tag_len alg))"

definition packet_key_new ::
    "('prk, 'hpk, 'ctx) backend \<Rightarrow> algorithm \<Rightarrow> byte list \<Rightarrow> byte list \<Rightarrow> (error, 'ctx packet_key) res" where
  "packet_key_new B alg key iv =
     and_then (make_aead_ctx B alg key) (\<lambda>ctx. Ok \<lparr>pk_ctx = ctx, pk_nonce = iv\<rparr>)"

definition packet_key_from_secret ::
    "('prk, 'hpk, 'ctx) backend \<Rightarrow> algorithm \<Rightarrow> byte list \<Rightarrow> (error, 'ctx packet_key) res" where
  "packet_key_from_secret B aead secret =
     and_then (derive_pkt_key B aead secret (replicate (key_len aead) 0)) (\<lambda>key.
     and_then (derive_pkt_iv B aead secret (replicate (nonce_len aead) 0)) (\<lambda>iv.
       packet_key_new B aead key iv))"

definition open_new ::
    "('prk, 'hpk, 'ctx) backend \<Rightarrow> algorithm \<Rightarrow> byte list \<Rightarrow> byte list \<Rightarrow> byte list \<Rightarrow> byte list
       \<Rightarrow> (error, ('hpk, 'ctx) open_key) res" where
  "open_new B alg key iv hp_key secret =
     and_then (header_protection_key_new B alg hp_key) (\<lambda>h.
     and_then (packet_key_new B alg key iv) (\<lambda>p.
       Ok \<lparr>op_alg = alg, op_secret = secret, op_header = h, op_packet = p\<rparr>))"

definition seal_new ::
    "('prk, 'hpk, 'ctx) backend \<Rightarrow> algorithm \<Rightarrow> byte list \<Rightarrow> byte list \<Rightarrow> byte list \<Rightarrow> byte list
       \<Rightarrow> (error, ('hpk, 'ctx) seal_key) res" where
  "seal_new B alg key iv hp_key secret =
     and_then (header_protection_key_new B alg hp_key) (\<lambda>h.
     and_then (packet_key_new B alg key iv) (\<lambda>p.
       Ok \<lparr>sl_alg = alg, sl_secret = secret, sl_header = h, sl_packet = p\<rparr>))"

definition open_from_secret ::
    "('prk, 'hpk, 'ctx) backend \<Rightarrow> algorithm \<Rightarrow> byte list \<Rightarrow> (error, ('hpk, 'ctx) open_key) res" where
  "open_from_secret B aead secret =
     and_then (header_protection_key_from_secret B aead secret) (\<lambda>h.
     and_then (packet_key_from_secret B aead secret) (\<lambda>p.
       Ok \<lparr>op_alg = aead, op_secret = secret, op_header = h, op_packet = p\<rparr>))"

definition seal_from_secret ::
    "('prk, 'hpk, 'ctx) backend \<Rightarrow> algorithm \<Rightarrow> byte list \<Rightarrow> (error, ('hpk, 'ctx) seal_key) res" where
  "seal_from_secret B aead secret =
     and_then (header_protection_key_from_secret B aead secret) (\<lambda>h.
     and_then (packet_key_from_secret B aead secret) (\<lambda>p.
       Ok \<lparr>sl_alg = aead, sl_secret = secret, sl_header = h, sl_packet = p\<rparr>))"

definition open_derive_next ::
    "('prk, 'hpk, 'ctx) backend \<Rightarrow> ('hpk, 'ctx) open_key \<Rightarrow> (error, ('hpk, 'ctx) open_key) res" where
  "open_derive_next B k =
     and_then (derive_next_secret B (op_alg k) (op_secret k)) (\<lambda>next_secret.
     and_then (packet_key_from_secret B (op_alg k) next_secret) (\<lambda>p.
     and_then (header_protection_key_new B (op_alg k) (hk_hp_key (op_header k))) (\<lambda>h.
       Ok \<lparr>op_alg = op_alg k, op_secret = next_secret, op_header = h, op_packet = p\<rparr>)))"

definition seal_derive_next ::
    "('prk, 'hpk, 'ctx) backend \<Rightarrow> ('hpk, 'ctx) seal_key \<Rightarrow> (error, ('hpk, 'ctx) seal_key) res" where
  "seal_derive_next B k =
     and_then (derive_next_secret B (sl_alg k) (sl_secret k)) (\<lambda>next_secret.
     and_then (packet_key_from_secret B (sl_alg k) next_secret) (\<lambda>p.
     and_then (header_protection_key_new B (sl_alg k) (hk_hp_key (sl_header k))) (\<lambda>h.
       Ok \<lparr>sl_alg = sl_alg k, sl_secret = next_secret, sl_header = h, sl_packet = p\<rparr>)))"

subsection \<open>Initial keys\<close>

definition INITIAL_SALT_V1 :: "byte list" where
  "INITIAL_SALT_V1 =
     [0x38, 0x76, 0x2c, 0xf7, 0xf5, 0x59, 0x34, 0xb3, 0x4d, 0x17, 0x9a, 0xe6,
      0xa4, 0xc8, 0x0c, 0xad, 0xcc, 0xbb, 0x7f, 0x0a]"

definition derive_initial_secret ::
    "('prk, 'hpk, 'ctx) backend \<Rightarrow> byte list \<Rightarrow> nat \<Rightarrow> 'prk" where
  "derive_initial_secret B secret version =
     (let salt = (if version = 1 then INITIAL_SALT_V1 else INITIAL_SALT_V1)
      in hkdf_extract B HKDF_SHA256 salt secret)"

definition derive_client_initial_secret ::
    "('prk, 'hpk, 'ctx) backend \<Rightarrow> 'prk \<Rightarrow> (error, byte list) res" where
  "derive_client_initial_secret B prk = hkdf_expand_label B prk (ascii ''client in'') 32"

definition derive_server_initial_secret ::
    "('prk, 'hpk, 'ctx) backend \<Rightarrow> 'prk \<Rightarrow> (error, byte list) res" where
  "derive_server_initial_secret B prk = hkdf_expand_label B prk (ascii ''server in'') 32"

definition derive_initial_key_material ::
    "('prk, 'hpk, 'ctx) backend \<Rightarrow> byte list \<Rightarrow> nat \<Rightarrow> bool
       \<Rightarrow> (error, ('hpk, 'ctx) open_key \<times> ('hpk, 'ctx) seal_key) res" where
  "derive_initial_key_material B cid version is_server =
     (let aead = AES128_GCM;
          key0 = replicate (key_len aead) 0;
          iv0 = replicate (nonce_len aead) 0;
          initial_secret = derive_initial_secret B cid version
      in and_then (derive_client_initial_secret B initial_secret) (\<lambda>client_secret.
         and_then (derive_pkt_key B aead client_secret key0) (\<lambda>client_key.
         and_then (derive_pkt_iv B aead client_secret iv0) (\<lambda>client_iv.
         and_then (derive_hdr_key B aead client_secret key0) (\<lambda>client_hp_key.
         and_then (derive_server_initial_secret B initial_secret) (\<lambda>server_secret.
         and_then (derive_pkt_key B aead server_secret key0) (\<lambda>server_key.
         and_then (derive_pkt_iv B aead server_secret iv0) (\<lambda>server_iv.
         and_then (derive_hdr_key B aead server_secret key0) (\<lambda>server_hp_key.
           if is_server then
             and_then (open_new B aead client_key client_iv client_hp_key client_secret) (\<lambda>opn.
             and_then (seal_new B aead server_key server_iv server_hp_key server_secret) (\<lambda>seal.
               Ok (opn, seal)))
           else
             and_then (open_new B aead server_key server_iv server_hp_key server_secret) (\<lambda>opn.
             and_then (seal_new B aead client_key client_iv client_hp_key client_secret) (\<lambda>seal.
               Ok (opn, seal))))))))))))"

subsection \<open>Using the keys\<close>

definition open_new_mask ::
    "('prk, 'hpk, 'ctx) backend \<Rightarrow> ('hpk, 'ctx) open_key \<Rightarrow> byte list \<Rightarrow> (error, byte list) res" where
  "open_new_mask B k sample = crypto_fail (hpk_new_mask B (hk_hpk (op_header k)) sample)"

definition seal_new_mask ::
    "('prk, 'hpk, 'ctx) backend \<Rightarrow> ('hpk, 'ctx) seal_key \<Rightarrow> byte list \<Rightarrow> (error, byte list) res" where
  "seal_new_mask B k sample = crypto_fail (hpk_new_mask B (hk_hpk (sl_header k)) sample)"

definition xor_bytes :: "byte list \<Rightarrow> byte list \<Rightarrow> byte list" where
  "xor_bytes xs ys = map2 (\<lambda>x y. x XOR y) xs ys @ drop (length ys) xs"

definition make_nonce :: "byte list \<Rightarrow> u64 \<Rightarrow> (error, byte list) res" where
  "make_nonce iv counter =
     (if length iv \<noteq> 12 then Panic
      else Ok (take 4 iv @ xor_bytes (drop 4 iv) (be_bytes 8 counter)))"

definition open_with_u64_counter ::
    "('prk, 'hpk, 'ctx) backend \<Rightarrow> ('hpk, 'ctx) open_key \<Rightarrow> u64 \<Rightarrow> byte list \<Rightarrow> byte list
       \<Rightarrow> (error, usize \<times> byte list) res" where
  "open_with_u64_counter B k counter ad buf =
     (if length buf < tag_len (op_alg k) then Err CryptoFail
      else and_then (make_nonce (pk_nonce (op_packet k)) counter) (\<lambda>nonce.
           and_then (crypto_fail (ctx_open B (pk_ctx (op_packet k))
                       (length buf - tag_len (op_alg k)) nonce ad buf)) (\<lambda>out.
             Ok (length out, overwrite 0 out buf))))"

definition seal_with_u64_counter ::
    "('prk, 'hpk, 'ctx) backend \<Rightarrow> ('hpk, 'ctx) seal_key \<Rightarrow> u64 \<Rightarrow> byte list \<Rightarrow> byte list \<Rightarrow> usize
       \<Rightarrow> byte list option \<Rightarrow> (error, usize \<times> byte list) res" where
  "seal_with_u64_counter B k counter ad buf in_len extra_in =
     (let extra = (case extra_in of Some v \<Rightarrow> v | None \<Rightarrow> []);
          tag_n = tag_len (sl_alg k)
      in if in_len + tag_n + length extra > length buf then Err CryptoFail
         else and_then (make_nonce (pk_nonce (sl_packet k)) counter) (\<lambda>nonce.
              and_then (crypto_fail (ctx_seal_scatter B (pk_ctx (sl_packet k))
                          (tag_n + length extra) nonce ad (take in_len buf) extra)) (\<lambda>(out, out_tag).
                Ok (in_len + length out_tag, overwrite in_len out_tag (overwrite 0 out buf)))))"

subsection \<open>What the primitives promise\<close>

definition backend_ok :: "('prk, 'hpk, 'ctx) backend \<Rightarrow> bool" where
  "backend_ok B \<longleftrightarrow>
     (\<forall>hpk sample mask. hpk_new_mask B hpk sample = Some mask \<longrightarrow> length mask = 5)
   \<and> (\<forall>ctx n nonce ad inp extra out tag.
        ctx_seal_scatter B ctx n nonce ad inp extra = Some (out, tag) \<longrightarrow>
          length out = length inp \<and> length tag = n
        \<and> ctx_open B ctx (length inp + length extra) nonce ad (out @ tag) = Some (inp @ extra))"

definition matched :: "('hpk, 'ctx) open_key \<Rightarrow> ('hpk, 'ctx) seal_key \<Rightarrow> bool" where
  "matched opn seal \<longleftrightarrow> op_alg opn = sl_alg seal \<and> op_secret opn = sl_secret seal
     \<and> op_header opn = sl_header seal \<and> op_packet opn = sl_packet seal"

subsection \<open>Masks and nonces\<close>

lemma length_xor_bytes [simp]: "length ys \<le> length xs \<Longrightarrow> length (xor_bytes xs ys) = length xs"
  by (simp add: xor_bytes_def)

lemma xor_bytes_cancel: "length ys \<le> length xs \<Longrightarrow> xor_bytes (xor_bytes xs ys) ys = xs"
proof (induction ys arbitrary: xs)
  case (Cons y ys)
  then obtain x xs' where x: "xs = x # xs'" and "length ys \<le> length xs'" by (cases xs) auto
  then have "xor_bytes (xor_bytes xs' ys) ys = xs'" using Cons.IH by blast
  moreover have "(x XOR y) XOR y = x" by (simp add: xor.assoc)
  ultimately show ?case by (simp add: x xor_bytes_def)
qed (simp add: xor_bytes_def)

lemma xor_bytes_inj:
  assumes "length ys = length xs" and "length zs = length xs" and "xor_bytes xs ys = xor_bytes xs zs"
  shows "ys = zs"
  using assms
proof (induction xs arbitrary: ys zs)
  case (Cons x xs)
  obtain y ys' z zs' where yz: "ys = y # ys'" "zs = z # zs'"
    using Cons.prems by (cases ys; cases zs) auto
  have xy: "x XOR y = x XOR z" and rest: "xor_bytes xs ys' = xor_bytes xs zs'"
    using Cons.prems by (auto simp: yz xor_bytes_def)
  have "x XOR (x XOR y) = x XOR (x XOR z)" using xy by (rule arg_cong)
  then have "y = z" by (simp only: bit.xor_left_self)
  have "length ys' = length xs" "length zs' = length xs" using Cons.prems(1,2) yz by simp_all
  then have "ys' = zs'" using rest by (rule Cons.IH)
  with \<open>y = z\<close> show ?case by (simp add: yz)
qed simp

lemma be_bytes_inj: "be_bytes n v = be_bytes n w \<Longrightarrow> v < 256 ^ n \<Longrightarrow> w < 256 ^ n \<Longrightarrow> v = w"
  by (drule arg_cong [of _ _ be_val]) (simp only: be_val_be_bytes mod_less)

subsection \<open>Matching keys\<close>

lemma open_new_seal_new:
  "open_new B alg key iv hp_key secret = Ok opn \<Longrightarrow>
     \<exists>seal. seal_new B alg key iv hp_key secret = Ok seal \<and> matched opn seal"
  by (auto simp: open_new_def seal_new_def and_then_eq_Ok matched_def)

lemma seal_new_open_new:
  "seal_new B alg key iv hp_key secret = Ok seal \<Longrightarrow>
     \<exists>opn. open_new B alg key iv hp_key secret = Ok opn \<and> matched opn seal"
  by (auto simp: open_new_def seal_new_def and_then_eq_Ok matched_def)

lemma matched_next:
  "matched opn seal \<Longrightarrow> open_derive_next B opn = Ok opn' \<Longrightarrow>
     \<exists>seal'. seal_derive_next B seal = Ok seal' \<and> matched opn' seal'"
  by (auto simp: open_derive_next_def seal_derive_next_def and_then_eq_Ok matched_def)

primrec open_updates :: "('prk, 'hpk, 'ctx) backend \<Rightarrow> nat \<Rightarrow> ('hpk, 'ctx) open_key \<Rightarrow> (error, ('hpk, 'ctx) open_key) res" where
  "open_updates B 0 k = Ok k"
| "open_updates B (Suc n) k = and_then (open_updates B n k) (open_derive_next B)"

primrec seal_updates :: "('prk, 'hpk, 'ctx) backend \<Rightarrow> nat \<Rightarrow> ('hpk, 'ctx) seal_key \<Rightarrow> (error, ('hpk, 'ctx) seal_key) res" where
  "seal_updates B 0 k = Ok k"
| "seal_updates B (Suc n) k = and_then (seal_updates B n k) (seal_derive_next B)"

lemma matched_updates:
  "matched opn seal \<Longrightarrow> open_updates B n opn = Ok opn' \<Longrightarrow>
     \<exists>seal'. seal_updates B n seal = Ok seal' \<and> matched opn' seal'"
proof (induction n arbitrary: opn')
  case (Suc n)
  then obtain k where "open_updates B n opn = Ok k" and k: "open_derive_next B k = Ok opn'"
    by (auto simp: and_then_eq_Ok)
  then obtain s where "seal_updates B n seal = Ok s" and "matched k s" using Suc by blast
  then show ?case using matched_next [OF \<open>matched k s\<close> k] by simp
qed simp

lemma initial_keys_matched:
  assumes "derive_initial_key_material B cid version True = Ok (s_open, s_seal)"
  shows "\<exists>c_open c_seal. derive_initial_key_material B cid version False = Ok (c_open, c_seal)
           \<and> matched s_open c_seal \<and> matched c_open s_seal"
proof -
  let ?key0 = "replicate (key_len AES128_GCM) 0" and ?iv0 = "replicate (nonce_len AES128_GCM) 0"
  let ?is = "derive_initial_secret B cid version"
  from assms obtain cs ck ci ch ss sk si sh where
    c: "derive_client_initial_secret B ?is = Ok cs" "derive_pkt_key B AES128_GCM cs ?key0 = Ok ck"
      "derive_pkt_iv B AES128_GCM cs ?iv0 = Ok ci" "derive_hdr_key B AES128_GCM cs ?key0 = Ok ch"
    and s: "derive_server_initial_secret B ?is = Ok ss" "derive_pkt_key B AES128_GCM ss ?key0 = Ok sk"
      "derive_pkt_iv B AES128_GCM ss ?iv0 = Ok si" "derive_hdr_key B AES128_GCM ss ?key0 = Ok sh"
    and o: "open_new B AES128_GCM ck ci ch cs = Ok s_open"
    and sl: "seal_new B AES128_GCM sk si sh ss = Ok s_seal"
    by (auto simp: derive_initial_key_material_def and_then_eq_Ok Let_def)
  obtain c_seal where "seal_new B AES128_GCM ck ci ch cs = Ok c_seal" "matched s_open c_seal"
    using open_new_seal_new [OF o] by blast
  moreover obtain c_open where "open_new B AES128_GCM sk si sh ss = Ok c_open" "matched c_open s_seal"
    using seal_new_open_new [OF sl] by blast
  ultimately show ?thesis
    by (simp add: derive_initial_key_material_def Let_def c s)
qed

subsection \<open>A concrete backend\<close>

text \<open>
  A backend with the promised behaviour and no secrecy: the mask is the first five bytes of
  the sample, sealing leaves the bytes alone and appends zeroes.
\<close>

definition plain_backend :: "(byte list, byte list, byte list) backend" where
  "plain_backend =
     \<lparr>hkdf_extract = (\<lambda>_ salt secret. salt @ secret),
      prk_new_less_safe = (\<lambda>_ secret. secret),
      prk_expand = (\<lambda>prk info n. Some (take n (concat info @ prk @ replicate n 0))),
      hpk_new = (\<lambda>_ key. Some key),
      hpk_new_mask = (\<lambda>_ sample. if length sample = 16 then Some (take 5 sample) else None),
      ctx_init = (\<lambda>_ key _ _. Some key),
      ctx_open = (\<lambda>_ n _ _ inp. Some (take n inp)),
      ctx_seal_scatter = (\<lambda>_ n _ _ inp extra.
        if length extra \<le> n then Some (inp, extra @ replicate (n - length extra) 0) else None)\<rparr>"

lemma plain_backend_ok: "backend_ok plain_backend"
  by (auto simp: backend_ok_def plain_backend_def split: if_splits)

lemma plain_backend_derives:
  "\<exists>k. hkdf_expand_label plain_backend prk label n = Ok k"
  "key_len aead \<le> length out \<Longrightarrow> \<exists>k. derive_hdr_key plain_backend aead secret out = Ok k"
  "key_len aead \<le> length out \<Longrightarrow> \<exists>k. derive_pkt_key plain_backend aead secret out = Ok k"
  "nonce_len aead \<le> length out \<Longrightarrow> \<exists>k. derive_pkt_iv plain_backend aead secret out = Ok k"
  "\<exists>k. open_new plain_backend aead key iv hp_key secret = Ok k"
  "\<exists>k. seal_new plain_backend aead key iv hp_key secret = Ok k"
  by (auto simp: hkdf_expand_label_def derive_hdr_key_def derive_pkt_key_def derive_pkt_iv_def
      open_new_def seal_new_def header_protection_key_new_def packet_key_new_def
      make_aead_ctx_def crypto_fail_def plain_backend_def Let_def)

lemma plain_backend_initial_keys:
  "\<exists>opn seal. derive_initial_key_material plain_backend cid version is_server = Ok (opn, seal)"
proof -
  let ?key0 = "replicate (key_len AES128_GCM) 0" and ?iv0 = "replicate (nonce_len AES128_GCM) 0"
  have keys: "\<exists>key iv hp_key. derive_pkt_key plain_backend AES128_GCM secret ?key0 = Ok key
      \<and> derive_pkt_iv plain_backend AES128_GCM secret ?iv0 = Ok iv
      \<and> derive_hdr_key plain_backend AES128_GCM secret ?key0 = Ok hp_key" for secret
    using plain_backend_derives(2,3) [of AES128_GCM ?key0 secret]
      plain_backend_derives(4) [of AES128_GCM ?iv0 secret] by auto
  obtain cs ss where "derive_client_initial_secret plain_backend (derive_initial_secret plain_backend cid version) = Ok cs"
    and "derive_server_initial_secret plain_backend (derive_initial_secret plain_backend cid version) = Ok ss"
    unfolding derive_client_initial_secret_def derive_server_initial_secret_def
    using plain_backend_derives(1) by blast
  moreover obtain ck ci ch where "derive_pkt_key plain_backend AES128_GCM cs ?key0 = Ok ck"
      "derive_pkt_iv plain_backend AES128_GCM cs ?iv0 = Ok ci"
      "derive_hdr_key plain_backend AES128_GCM cs ?key0 = Ok ch" using keys by blast
  moreover obtain sk si sh where "derive_pkt_key plain_backend AES128_GCM ss ?key0 = Ok sk"
      "derive_pkt_iv plain_backend AES128_GCM ss ?iv0 = Ok si"
      "derive_hdr_key plain_backend AES128_GCM ss ?key0 = Ok sh" using keys by blast
  moreover obtain o1 o2 s1 s2 where "open_new plain_backend AES128_GCM ck ci ch cs = Ok o1"
      "seal_new plain_backend AES128_GCM sk si sh ss = Ok s1"
      "open_new plain_backend AES128_GCM sk si sh ss = Ok o2"
      "seal_new plain_backend AES128_GCM ck ci ch cs = Ok s2"
    using plain_backend_derives(5,6) [of AES128_GCM ck ci ch cs]
      plain_backend_derives(5,6) [of AES128_GCM sk si sh ss] by auto
  ultimately show ?thesis by (simp add: derive_initial_key_material_def Let_def)
qed

subsection \<open>Properties\<close>

text \<open>
  C10: the Initial keys a client and a server derive from the same connection ID match
  crosswise: whenever the server obtains its keys so does the client, the server opens with
  what the client seals with and the client opens with what the server seals with, and after
  any number of key updates of the opening side the sealing side, updated as often, still
  matches it.
\<close>

theorem initial_keys_stay_matched:
  assumes "derive_initial_key_material B cid version True = Ok (s_open, s_seal)"
  shows "\<exists>c_open c_seal. derive_initial_key_material B cid version False = Ok (c_open, c_seal)
     \<and> (\<forall>n k. open_updates B n s_open = Ok k \<longrightarrow> (\<exists>k'. seal_updates B n c_seal = Ok k' \<and> matched k k'))
     \<and> (\<forall>n k. open_updates B n c_open = Ok k \<longrightarrow> (\<exists>k'. seal_updates B n s_seal = Ok k' \<and> matched k k'))"
  using initial_keys_matched [OF assms] matched_updates by blast

theorem initial_keys_stay_matched_witness:
  "\<exists>s_open s_seal c_open c_seal.
       derive_initial_key_material plain_backend [1, 2, 3] 1 True = Ok (s_open, s_seal)
     \<and> derive_initial_key_material plain_backend [1, 2, 3] 1 False = Ok (c_open, c_seal)
     \<and> (\<forall>n k. open_updates plain_backend n s_open = Ok k
            \<longrightarrow> (\<exists>k'. seal_updates plain_backend n c_seal = Ok k' \<and> matched k k'))"
proof -
  obtain s_open s_seal where
    s: "derive_initial_key_material plain_backend [1, 2, 3] 1 True = Ok (s_open, s_seal)"
    using plain_backend_initial_keys by blast
  show ?thesis using s initial_keys_stay_matched [OF s] by blast
qed

text \<open>
  Under one key, two packet numbers never share a nonce: for a 12-byte IV the nonce
  determines the packet number.
\<close>

theorem make_nonce_unique:
  assumes "make_nonce iv pn = Ok nonce" and "make_nonce iv pn' = Ok nonce"
    and "pn < 2 ^ 64" and "pn' < 2 ^ 64"
  shows "pn = pn' \<and> length nonce = 12"
proof -
  have iv: "length iv = 12"
    and n: "nonce = take 4 iv @ xor_bytes (drop 4 iv) (be_bytes 8 pn)"
    and n': "nonce = take 4 iv @ xor_bytes (drop 4 iv) (be_bytes 8 pn')"
    using assms(1,2) by (auto simp: make_nonce_def split: if_splits)
  then have "xor_bytes (drop 4 iv) (be_bytes 8 pn) = xor_bytes (drop 4 iv) (be_bytes 8 pn')" by simp
  then have "be_bytes 8 pn = be_bytes 8 pn'" using iv xor_bytes_inj [of "be_bytes 8 pn" "drop 4 iv"] by simp
  moreover have "(2 :: nat) ^ 64 = 256 ^ 8" by simp
  ultimately have "pn = pn'" using assms(3,4) be_bytes_inj [of 8 pn pn'] by metis
  moreover have "length nonce = 12" using iv n by simp
  ultimately show ?thesis by simp
qed

theorem make_nonce_unique_witness:
  "\<exists>nonce. make_nonce (replicate 12 7) 5 = Ok nonce \<and> length nonce = 12
     \<and> make_nonce (replicate 12 7) 6 \<noteq> Ok nonce"
proof -
  obtain nonce where n: "make_nonce (replicate 12 7) 5 = Ok nonce" by (simp add: make_nonce_def)
  then have "make_nonce (replicate 12 7) 6 \<noteq> Ok nonce"
    using make_nonce_unique [of "replicate 12 7" 5 nonce 6] by auto
  moreover have "length nonce = 12"
    using make_nonce_unique [of "replicate 12 7" 5 nonce 5] n by simp
  ultimately show ?thesis using n by blast
qed

end
