(* ===== verification/Packet.thy ===== *)
theory Packet
  imports PacketNumber Crypto
begin

text \<open>
  Packet headers, \<^verbatim>\<open>quiche/src/packet.rs\<close>: parsing and writing the header, header and packet
  protection, Version Negotiation and Retry packets.

  \<open>ring_tag_len\<close> and \<open>seal_tag\<close> stand for ring's \<^verbatim>\<open>AES_128_GCM.tag_len()\<close> and for
  \<^verbatim>\<open>seal_in_place_separate_tag\<close> with an empty plaintext (key, nonce, associated data).
  A connection ID is its bytes: the owned and the borrowed form of the code compare by them.
  The code hands out mutable views of one buffer; the model returns the changed buffer.
\<close>

definition FORM_BIT :: byte where "FORM_BIT = 0x80"
definition FIXED_BIT :: byte where "FIXED_BIT = 0x40"
definition KEY_PHASE_BIT :: byte where "KEY_PHASE_BIT = 0x04"
definition TYPE_MASK :: byte where "TYPE_MASK = 0x30"
definition PKT_NUM_MASK :: byte where "PKT_NUM_MASK = 0x03"
definition MAX_CID_LEN :: nat where "MAX_CID_LEN = 20"
definition MAX_PKT_NUM_LEN :: usize where "MAX_PKT_NUM_LEN = 4"
definition SAMPLE_LEN :: usize where "SAMPLE_LEN = 16"
definition PROTOCOL_VERSION_V1 :: nat where "PROTOCOL_VERSION_V1 = 1"

lemmas packet_consts = FORM_BIT_def FIXED_BIT_def KEY_PHASE_BIT_def TYPE_MASK_def PKT_NUM_MASK_def
  MAX_CID_LEN_def MAX_PKT_NUM_LEN_def SAMPLE_LEN_def

datatype epoch = Epoch_Initial | Epoch_Handshake | Epoch_Application

datatype pkt_type = Initial | Retry | Handshake | ZeroRTT | VersionNegotiation | Short

definition type_from_epoch :: "epoch \<Rightarrow> pkt_type" where
  "type_from_epoch e = (case e of Epoch_Initial \<Rightarrow> Initial | Epoch_Handshake \<Rightarrow> Handshake
                        | Epoch_Application \<Rightarrow> Short)"

definition type_to_epoch :: "pkt_type \<Rightarrow> (error, epoch) res" where
  "type_to_epoch t = (case t of Initial \<Rightarrow> Ok Epoch_Initial | ZeroRTT \<Rightarrow> Ok Epoch_Application
                      | Handshake \<Rightarrow> Ok Epoch_Handshake | Short \<Rightarrow> Ok Epoch_Application
                      | _ \<Rightarrow> Err InvalidPacket)"

record header =
  h_ty :: pkt_type
  h_version :: nat
  h_dcid :: "byte list"
  h_scid :: "byte list"
  h_pkt_num :: u64
  h_pkt_num_len :: usize
  h_token :: "byte list option"
  h_versions :: "nat list option"
  h_key_phase :: bool

definition version_is_supported :: "nat \<Rightarrow> bool" where
  "version_is_supported version \<longleftrightarrow> version = PROTOCOL_VERSION_V1"

definition is_long :: "byte \<Rightarrow> bool" where
  "is_long b \<longleftrightarrow> b AND FORM_BIT \<noteq> 0"

subsection \<open>Parsing a header\<close>

function read_versions :: "octets \<Rightarrow> nat list \<Rightarrow> (error, nat list \<times> octets) res" where
  "read_versions b vs =
     (if cap b > 0
      then (case get_u32 b of
              Ok (version, b') \<Rightarrow> read_versions b' (vs @ [version])
            | Err e \<Rightarrow> Err BufferTooShort
            | Panic \<Rightarrow> Panic)
      else Ok (vs, b))"
  by pat_completeness auto
termination
  by (relation "measure (\<lambda>(b, vs). cap b)")
    (auto simp: get_u32_def get_u_cases advance_def cap_def split: if_splits)

declare read_versions.simps [simp del]

definition long_type :: "byte \<Rightarrow> nat \<Rightarrow> (error, pkt_type) res" where
  "long_type first version =
     (if version = 0 then Ok VersionNegotiation
      else let t = drop_bit 4 (first AND TYPE_MASK)
           in if t = 0x00 then Ok Initial else if t = 0x01 then Ok ZeroRTT
              else if t = 0x02 then Ok Handshake else if t = 0x03 then Ok Retry
              else Err InvalidPacket)"

definition take_cid :: "nat \<Rightarrow> octets \<Rightarrow> (byte list \<Rightarrow> octets \<Rightarrow> (error, 'a) res) \<Rightarrow> (error, 'a) res" where
  "take_cid version b k =
     take_u8 b (\<lambda>cid_len b.
       if version_is_supported version \<and> cid_len > MAX_CID_LEN then Err InvalidPacket
       else take_bytes cid_len b (\<lambda>cid b. k (to_vec cid) b))"

definition header_from_bytes :: "usize \<Rightarrow> octets \<Rightarrow> usize \<Rightarrow> (error, header \<times> octets) res" where
  "header_from_bytes ring_tag_len b dcid_len =
     take_u8 b (\<lambda>first b.
     let first = word_of_nat first
     in if \<not> is_long first then
          take_bytes dcid_len b (\<lambda>dcid b.
            Ok (\<lparr>h_ty = Short, h_version = 0, h_dcid = to_vec dcid, h_scid = [], h_pkt_num = 0,
                 h_pkt_num_len = 0, h_token = None, h_versions = None, h_key_phase = False\<rparr>, b))
        else
          take_u32 b (\<lambda>version b.
          and_then (long_type first version) (\<lambda>ty.
          take_cid version b (\<lambda>dcid b.
          take_cid version b (\<lambda>scid b.
          and_then
            (case ty of
               Initial \<Rightarrow> take_bytes_varint b (\<lambda>t b. Ok (Some (to_vec t), None, b))
             | Retry \<Rightarrow>
                 if cap b < ring_tag_len then Err InvalidPacket
                 else take_bytes (cap b - ring_tag_len) b (\<lambda>t b. Ok (Some (to_vec t), None, b))
             | VersionNegotiation \<Rightarrow>
                 and_then (read_versions b []) (\<lambda>(vs, b). Ok (None, Some vs, b))
             | _ \<Rightarrow> Ok (None, None, b))
            (\<lambda>(token, versions, b).
              Ok (\<lparr>h_ty = ty, h_version = version, h_dcid = dcid, h_scid = scid, h_pkt_num = 0,
                   h_pkt_num_len = 0, h_token = token, h_versions = versions,
                   h_key_phase = False\<rparr>, b)))))))"

subsection \<open>Writing a header\<close>

definition short_first :: "header \<Rightarrow> byte" where
  "short_first h =
     (let first = word_of_nat (h_pkt_num_len h - 1);
          first = first AND NOT FORM_BIT;
          first = first OR FIXED_BIT
      in if h_key_phase h then first OR KEY_PHASE_BIT else first AND NOT KEY_PHASE_BIT)"

definition type_code :: "pkt_type \<Rightarrow> (error, byte) res" where
  "type_code t = (case t of Initial \<Rightarrow> Ok 0x00 | ZeroRTT \<Rightarrow> Ok 0x01 | Handshake \<Rightarrow> Ok 0x02
                  | Retry \<Rightarrow> Ok 0x03 | _ \<Rightarrow> Err InvalidPacket)"

definition long_first :: "header \<Rightarrow> byte \<Rightarrow> byte" where
  "long_first h ty = word_of_nat (h_pkt_num_len h - 1) OR (FORM_BIT OR FIXED_BIT OR push_bit 4 ty)"

definition header_to_bytes :: "header \<Rightarrow> octets \<Rightarrow> (error, octets) res" where
  "header_to_bytes h out =
     (if h_ty h = Short then
        put_seq [put_u8 (unat (short_first h)), put_bytes (h_dcid h)] out
      else
        and_then (type_code (h_ty h)) (\<lambda>ty.
        and_then
          (put_seq [put_u8 (unat (long_first h ty)), put_u32 (h_version h),
                    put_u8 (length (h_dcid h) mod 2 ^ 8), put_bytes (h_dcid h),
                    put_u8 (length (h_scid h) mod 2 ^ 8), put_bytes (h_scid h)] out)
          (\<lambda>out.
            case h_ty h of
              Initial \<Rightarrow>
                (case h_token h of
                   Some v \<Rightarrow> put_seq [put_varint (length v), put_bytes v] out
                 | None \<Rightarrow> put_seq [put_varint 0] out)
            | Retry \<Rightarrow> and_then (or_panic (h_token h)) (\<lambda>v. put_seq [put_bytes v] out)
            | _ \<Rightarrow> Ok out)))"

subsection \<open>Header and packet protection\<close>

definition mask_first :: "byte list \<Rightarrow> byte \<Rightarrow> byte" where
  "mask_first m first =
     (if is_long first then first XOR (m ! 0 AND 0x0f) else first XOR (m ! 0 AND 0x1f))"

definition decrypt_hdr ::
    "('prk, 'hpk, 'ctx) backend \<Rightarrow> octets \<Rightarrow> header \<Rightarrow> ('hpk, 'ctx) open_key \<Rightarrow> (error, header \<times> octets) res" where
  "decrypt_hdr B b hdr aead =
     and_then (q (split_at 1 b)) (\<lambda>(first_buf, _).
     let first = as_ref first_buf ! 0
     in and_then (q (peek_bytes (MAX_PKT_NUM_LEN + SAMPLE_LEN) b)) (\<lambda>pn_and_sample.
        and_then (q (split_at MAX_PKT_NUM_LEN pn_and_sample)) (\<lambda>(ciphertext, sample).
        and_then (open_new_mask B aead (as_ref sample)) (\<lambda>mask.
        let first = mask_first mask first;
            pn_len = unat (first AND PKT_NUM_MASK) + 1;
            pn_bytes = xor_bytes (take pn_len (as_ref ciphertext)) (seg 1 pn_len mask);
            b = b\<lparr>o_buf := overwrite (o_off b) pn_bytes (o_buf b)\<rparr>
        in and_then (get_pkt_num pn_len b) (\<lambda>(pn, b).
           let b = b\<lparr>o_buf := overwrite 0 [first] (o_buf b)\<rparr>;
               hdr = hdr\<lparr>h_pkt_num := pn, h_pkt_num_len := pn_len\<rparr>;
               hdr = (if h_ty hdr = Short
                      then hdr\<lparr>h_key_phase := first AND KEY_PHASE_BIT \<noteq> 0\<rparr> else hdr)
           in Ok (hdr, b))))))"

definition decrypt_pkt ::
    "('prk, 'hpk, 'ctx) backend \<Rightarrow> octets \<Rightarrow> u64 \<Rightarrow> usize \<Rightarrow> usize \<Rightarrow> ('hpk, 'ctx) open_key
       \<Rightarrow> (error, octets \<times> octets) res" where
  "decrypt_pkt B b pn pn_len payload_len aead =
     (let payload_offset = o_off b
      in and_then (q (split_at payload_offset b)) (\<lambda>(header, payload).
         if payload_len < pn_len then Err InvalidPacket
         else and_then (q (peek_bytes (payload_len - pn_len) payload)) (\<lambda>ciphertext.
              and_then (open_with_u64_counter B aead pn (as_ref header) (as_ref ciphertext))
                (\<lambda>(payload_len, plain).
                  q (get_bytes payload_len (b\<lparr>o_buf := overwrite payload_offset plain (o_buf b)\<rparr>))))))"

definition encrypt_hdr ::
    "('prk, 'hpk, 'ctx) backend \<Rightarrow> octets \<Rightarrow> usize \<Rightarrow> byte list \<Rightarrow> ('hpk, 'ctx) seal_key
       \<Rightarrow> (error, octets) res" where
  "encrypt_hdr B b pn_len payload aead =
     (if pn_len > MAX_PKT_NUM_LEN then Panic
      else if length payload < SAMPLE_LEN + (MAX_PKT_NUM_LEN - pn_len) then Panic
      else and_then (seal_new_mask B aead (seg (MAX_PKT_NUM_LEN - pn_len) SAMPLE_LEN payload)) (\<lambda>mask.
           and_then (q (split_at 1 b)) (\<lambda>(first, rest).
           let first = mask_first mask (as_ref first ! 0)
           in and_then (q (slice_last pn_len rest)) (\<lambda>pn_buf.
                Ok (b\<lparr>o_buf := first # overwrite (length (o_buf rest) - length pn_buf)
                                 (xor_bytes pn_buf (seg 1 pn_len mask)) (o_buf rest)\<rparr>)))))"

definition encrypt_pkt ::
    "('prk, 'hpk, 'ctx) backend \<Rightarrow> octets \<Rightarrow> u64 \<Rightarrow> usize \<Rightarrow> usize \<Rightarrow> usize \<Rightarrow> byte list option
       \<Rightarrow> ('hpk, 'ctx) seal_key \<Rightarrow> (error, usize \<times> octets) res" where
  "encrypt_pkt B b pn pn_len payload_len payload_offset extra_in aead =
     and_then (q (split_at payload_offset b)) (\<lambda>(header, payload).
     and_then (seal_with_u64_counter B aead pn (as_ref header) (as_ref payload) payload_len extra_in)
       (\<lambda>(ciphertext_len, payload).
     and_then (encrypt_hdr B header pn_len payload aead) (\<lambda>header.
       Ok (payload_offset + ciphertext_len, b\<lparr>o_buf := o_buf header @ payload\<rparr>))))"

subsection \<open>Version negotiation and Retry\<close>

definition negotiate_version :: "byte \<Rightarrow> byte list \<Rightarrow> byte list \<Rightarrow> byte list \<Rightarrow> (error, usize \<times> byte list) res" where
  "negotiate_version rand_u8 scid dcid out =
     and_then
       (put_seq [put_u8 (unat (rand_u8 OR FORM_BIT)), put_u32 0,
                 put_u8 (length scid mod 2 ^ 8), put_bytes scid,
                 put_u8 (length dcid mod 2 ^ 8), put_bytes dcid,
                 put_u32 PROTOCOL_VERSION_V1] (with_slice out))
       (\<lambda>b. Ok (o_off b, o_buf b))"

definition RETRY_INTEGRITY_KEY_V1 :: "byte list" where
  "RETRY_INTEGRITY_KEY_V1 =
     [0xbe, 0x0c, 0x69, 0x0b, 0x9f, 0x66, 0x57, 0x5a, 0x1d, 0x76, 0x6b, 0x54,
      0xe3, 0x68, 0xc8, 0x4e]"

definition RETRY_INTEGRITY_NONCE_V1 :: "byte list" where
  "RETRY_INTEGRITY_NONCE_V1 =
     [0x46, 0x15, 0x99, 0xd3, 0x5d, 0x63, 0x2b, 0xf2, 0x23, 0x98, 0x25, 0xbb]"

definition compute_retry_integrity_tag ::
    "(byte list \<Rightarrow> byte list \<Rightarrow> byte list \<Rightarrow> byte list option) \<Rightarrow> octets \<Rightarrow> byte list \<Rightarrow> nat
       \<Rightarrow> (error, byte list) res" where
  "compute_retry_integrity_tag seal_tag b odcid version =
     (let (key, nonce) =
            (if version = PROTOCOL_VERSION_V1 then (RETRY_INTEGRITY_KEY_V1, RETRY_INTEGRITY_NONCE_V1)
             else (RETRY_INTEGRITY_KEY_V1, RETRY_INTEGRITY_NONCE_V1));
          hdr_len = o_off b;
          pb = with_slice (replicate (1 + length odcid + hdr_len) 0)
      in and_then (put_seq [put_u8 (length odcid mod 2 ^ 8), put_bytes odcid,
                            put_bytes (take hdr_len (o_buf b))] pb)
           (\<lambda>pb. crypto_fail (seal_tag key nonce (o_buf pb))))"

definition verify_retry_integrity ::
    "(byte list \<Rightarrow> byte list \<Rightarrow> byte list \<Rightarrow> byte list option) \<Rightarrow> usize \<Rightarrow> octets \<Rightarrow> byte list \<Rightarrow> nat
       \<Rightarrow> (error, unit) res" where
  "verify_retry_integrity seal_tag ring_tag_len b odcid version =
     and_then (compute_retry_integrity_tag seal_tag b odcid version) (\<lambda>tag.
       if length (as_ref b) < ring_tag_len then Panic
       else if take ring_tag_len (as_ref b) = tag then Ok () else Err CryptoFail)"

definition retry ::
    "(byte list \<Rightarrow> byte list \<Rightarrow> byte list \<Rightarrow> byte list option) \<Rightarrow> byte list \<Rightarrow> byte list \<Rightarrow> byte list
       \<Rightarrow> byte list \<Rightarrow> nat \<Rightarrow> byte list \<Rightarrow> (error, usize \<times> byte list) res" where
  "retry seal_tag scid dcid new_scid token version out =
     (if \<not> version_is_supported version then Err UnknownVersion
      else
        let hdr = \<lparr>h_ty = Retry, h_version = version, h_dcid = scid, h_scid = new_scid, h_pkt_num = 0,
                   h_pkt_num_len = 0, h_token = Some token, h_versions = None, h_key_phase = False\<rparr>
        in and_then (header_to_bytes hdr (with_slice out)) (\<lambda>b.
           and_then (compute_retry_integrity_tag seal_tag b dcid version) (\<lambda>tag.
           and_then (put_seq [put_bytes tag] b) (\<lambda>b. Ok (o_off b, o_buf b)))))"

subsection \<open>The first byte\<close>

lemma byte_and_or_bits:
  "is_long first \<Longrightarrow> is_long (first XOR (m AND 0x0f))"
  "\<not> is_long first \<Longrightarrow> \<not> is_long (first XOR (m AND 0x1f))"
  by (simp_all add: is_long_def FORM_BIT_def bit.conj_xor_distrib2 and.assoc)

lemma is_long_mask_first [simp]: "is_long (mask_first m first) = is_long first"
  using byte_and_or_bits by (simp add: mask_first_def)

lemma mask_first_cancel [simp]: "mask_first m (mask_first m first) = first"
  using is_long_mask_first [of m first] by (simp add: mask_first_def xor.assoc split: if_splits)

lemma pkt_num_len_cases:
  "n \<le> 4 \<Longrightarrow> (n - 1 = 0 \<or> n - 1 = 1 \<or> n - 1 = 2 \<or> n - 1 = (3 :: nat))"
  by auto

lemma short_first_bits:
  assumes "h_pkt_num_len h \<le> 4"
  shows "\<not> is_long (short_first h)"
    and "short_first h AND PKT_NUM_MASK = word_of_nat (h_pkt_num_len h - 1)"
    and "(short_first h AND KEY_PHASE_BIT \<noteq> 0) = h_key_phase h"
  using pkt_num_len_cases [OF assms]
  by (elim disjE; simp add: short_first_def is_long_def packet_consts Let_def)+

lemma long_first_bits:
  assumes "h_pkt_num_len h \<le> 4" and "type_code t = Ok c"
  shows "is_long (long_first h c)"
    and "long_first h c AND PKT_NUM_MASK = word_of_nat (h_pkt_num_len h - 1)"
    and "version \<noteq> 0 \<Longrightarrow> long_type (long_first h c) version = Ok t"
  using pkt_num_len_cases [OF assms(1)] assms(2)
  by (cases t; elim disjE;
      simp add: type_code_def long_first_def is_long_def packet_consts long_type_def Let_def)+

subsection \<open>The header on the wire\<close>

text \<open>
  \<open>header_ok\<close>: a header this library writes (every type but Version Negotiation, connection IDs
  within the limit of version 1); \<open>enc_header\<close>: its bytes; \<open>parsed_header\<close>: what a receiver can
  know of it before header protection is removed.
\<close>

definition header_ok :: "header \<Rightarrow> bool" where
  "header_ok h \<longleftrightarrow> h_ty h \<noteq> VersionNegotiation \<and> h_version h < 2 ^ 32 \<and> h_pkt_num_len h \<le> 4
     \<and> (h_ty h \<noteq> Short \<longrightarrow> h_version h \<noteq> 0)
     \<and> length (h_dcid h) \<le> MAX_CID_LEN \<and> length (h_scid h) \<le> MAX_CID_LEN
     \<and> (h_ty h = Retry \<longrightarrow> h_token h \<noteq> None)
     \<and> (case h_token h of Some v \<Rightarrow> length v < 2 ^ 62 | None \<Rightarrow> True)"

definition token_bytes :: "header \<Rightarrow> byte list" where
  "token_bytes h = (case h_token h of Some v \<Rightarrow> v | None \<Rightarrow> [])"

definition enc_cid :: "byte list \<Rightarrow> byte list" where
  "enc_cid cid = be_bytes 1 (length cid) @ cid"

definition enc_token :: "header \<Rightarrow> byte list" where
  "enc_token h =
     (if h_ty h = Initial then enc_varint (length (token_bytes h)) @ token_bytes h
      else if h_ty h = Retry then token_bytes h else [])"

definition header_first :: "header \<Rightarrow> byte" where
  "header_first h =
     (case type_code (h_ty h) of Ok c \<Rightarrow> long_first h c | _ \<Rightarrow> short_first h)"

definition enc_header :: "header \<Rightarrow> byte list" where
  "enc_header h =
     be_bytes 1 (unat (header_first h))
     @ (if h_ty h = Short then h_dcid h
        else be_bytes 4 (h_version h) @ enc_cid (h_dcid h) @ enc_cid (h_scid h) @ enc_token h)"

definition parsed_header :: "header \<Rightarrow> header" where
  "parsed_header h =
     (if h_ty h = Short
      then \<lparr>h_ty = Short, h_version = 0, h_dcid = h_dcid h, h_scid = [], h_pkt_num = 0,
            h_pkt_num_len = 0, h_token = None, h_versions = None, h_key_phase = False\<rparr>
      else \<lparr>h_ty = h_ty h, h_version = h_version h, h_dcid = h_dcid h, h_scid = h_scid h,
            h_pkt_num = 0, h_pkt_num_len = 0,
            h_token = (if h_ty h = Initial \<or> h_ty h = Retry then Some (token_bytes h) else None),
            h_versions = None, h_key_phase = False\<rparr>)"

lemma unat_byte_256 [simp]: "unat (w :: byte) < 256"
  by (rule unat_byte_less)

lemma put_seq_concat:
  assumes "list_all2 writes ps es" and "octets_ok b"
    and "\<And>b. octets_ok b \<Longrightarrow> f b = q (write_bytes ts b)"
  shows "and_then (put_seq ps b) f = q (write_bytes (concat es @ ts) b)"
proof (cases "write_bytes (concat es) b")
  case (Ok b')
  then show ?thesis
    using put_seq_writes [OF assms(1,2)] octets_ok_write [OF assms(2) Ok] assms(3)
      write_bytes_append [OF assms(2), of "concat es" ts] by simp
next
  case (Err e)
  have "and_then (write_bytes (concat es) b) (write_bytes ts) = Err e" by (simp add: Err)
  then have "write_bytes (concat es @ ts) b = Err e"
    using write_bytes_append [OF assms(2), of "concat es" ts] by simp
  then show ?thesis using put_seq_writes [OF assms(1,2)] Err by simp
next
  case Panic
  then show ?thesis by (simp add: write_bytes_def split: if_splits)
qed

lemma put_token_writes:
  assumes h: "header_ok h" and b: "octets_ok b"
  shows "(case h_ty h of
            Initial \<Rightarrow>
              (case h_token h of
                 Some v \<Rightarrow> put_seq [put_varint (length v), put_bytes v] b
               | None \<Rightarrow> put_seq [put_varint 0] b)
          | Retry \<Rightarrow> and_then (or_panic (h_token h)) (\<lambda>v. put_seq [put_bytes v] b)
          | _ \<Rightarrow> Ok b) = q (write_bytes (enc_token h) b)"
proof (cases "h_ty h")
  case Initial
  show ?thesis
  proof (cases "h_token h")
    case None
    have "put_seq [put_varint 0] b = q (write_bytes (concat [enc_varint 0]) b)"
      by (rule put_seq_writes [OF _ b]) simp
    then show ?thesis using Initial None by (simp add: enc_token_def token_bytes_def)
  next
    case (Some v)
    have "put_seq [put_varint (length v), put_bytes v] b
        = q (write_bytes (concat [enc_varint (length v), v]) b)"
      by (rule put_seq_writes [OF _ b]) (use h Some in \<open>simp add: header_ok_def\<close>)
    then show ?thesis using Initial Some by (simp add: enc_token_def token_bytes_def)
  qed
next
  case Retry
  then obtain v where v: "h_token h = Some v" using h by (auto simp: header_ok_def)
  have "put_seq [put_bytes v] b = q (write_bytes (concat [v]) b)"
    by (rule put_seq_writes [OF _ b]) simp
  then show ?thesis using Retry v by (simp add: enc_token_def token_bytes_def)
qed (simp_all add: enc_token_def)

lemma header_to_bytes_writes:
  assumes h: "header_ok h" and b: "octets_ok b"
  shows "header_to_bytes h b = q (write_bytes (enc_header h) b)"
proof (cases "h_ty h = Short")
  case True
  have "put_seq [put_u8 (unat (short_first h)), put_bytes (h_dcid h)] b
      = q (write_bytes (concat [be_bytes 1 (unat (short_first h)), h_dcid h]) b)"
    by (rule put_seq_writes [OF _ b]) simp
  then show ?thesis
    using True by (simp add: header_to_bytes_def enc_header_def header_first_def type_code_def)
next
  case False
  then obtain c where c: "type_code (h_ty h) = Ok c"
    using h by (cases "h_ty h") (auto simp: type_code_def header_ok_def)
  have len: "length (h_dcid h) < 256" "length (h_scid h) < 256"
    using h by (auto simp: header_ok_def MAX_CID_LEN_def)
  let ?es = "[be_bytes 1 (unat (long_first h c)), be_bytes 4 (h_version h),
    be_bytes 1 (length (h_dcid h)), h_dcid h, be_bytes 1 (length (h_scid h)), h_scid h]"
  have "header_to_bytes h b = q (write_bytes (concat ?es @ enc_token h) b)"
    unfolding header_to_bytes_def using False c
    by (simp only: if_False and_then.simps)
      (rule put_seq_concat [OF _ b put_token_writes [OF h]]; use h len in \<open>simp add: header_ok_def\<close>)
  then show ?thesis using False c by (simp add: enc_header_def header_first_def enc_cid_def)
qed

lemma header_to_bytes_fits:
  "header_ok h \<Longrightarrow> length (enc_header h) \<le> length out \<Longrightarrow> \<exists>b'. header_to_bytes h (with_slice out) = Ok b'"
  by (simp add: header_to_bytes_writes write_bytes_def cap_def with_slice_def octets_ok_def)

lemma take_cid_enc [simp]:
  assumes "length cid \<le> MAX_CID_LEN"
  shows "take_cid version (cur pre (enc_cid cid @ rest)) k = k cid (cur (pre @ enc_cid cid) rest)"
  using assms by (simp add: take_cid_def enc_cid_def MAX_CID_LEN_def)

lemma header_from_bytes_enc:
  assumes h: "header_ok h" and r: "h_ty h = Retry \<Longrightarrow> length rest = ring_tag_len"
  shows "header_from_bytes ring_tag_len (cur pre (enc_header h @ rest)) (length (h_dcid h))
       = Ok (parsed_header h, cur (pre @ enc_header h) rest)"
proof (cases "h_ty h = Short")
  case True
  then have f: "header_first h = short_first h" by (simp add: header_first_def type_code_def)
  have "\<not> is_long (short_first h)" using short_first_bits h by (simp add: header_ok_def)
  then show ?thesis using True
    by (simp add: header_from_bytes_def enc_header_def f parsed_header_def)
next
  case False
  then obtain c where c: "type_code (h_ty h) = Ok c"
    using h by (cases "h_ty h") (auto simp: type_code_def header_ok_def)
  then have f: "header_first h = long_first h c" by (simp add: header_first_def)
  have bits: "is_long (long_first h c)" "long_type (long_first h c) (h_version h) = Ok (h_ty h)"
    using long_first_bits [OF _ c] h False by (auto simp: header_ok_def)
  have tok: "length (token_bytes h) < 2 ^ 62"
    using h by (auto simp: header_ok_def token_bytes_def split: option.splits)
  show ?thesis
  proof (cases "h_ty h")
    case Retry
    have "length (token_bytes h @ rest) - ring_tag_len = length (token_bytes h)" using r Retry by simp
    moreover have "\<not> length (token_bytes h @ rest) < ring_tag_len" using r Retry by simp
    ultimately show ?thesis using Retry h tok bits r
      by (simp add: header_from_bytes_def enc_header_def f parsed_header_def enc_token_def
          header_ok_def del: length_append)
  qed (use False h tok bits in \<open>simp_all add: header_from_bytes_def enc_header_def f
        parsed_header_def enc_token_def header_ok_def\<close>)
qed

subsection \<open>Parsing never panics\<close>

lemma read_versions_holds: "octets_ok b \<Longrightarrow> holds (\<lambda>(vs', b'). after b b') (read_versions b vs)"
proof (induction b vs rule: read_versions.induct)
  case (1 b vs)
  show ?case
  proof (cases "cap b > 0")
    case True
    show ?thesis
    proof (cases "4 \<le> length (as_ref b)")
      case four: True
      let ?v = "be_val (take 4 (as_ref b))"
      have g: "get_u32 b = Ok (?v, advance 4 b)" using four by (simp add: get_u32_def get_u_cases)
      have a: "after b (advance 4 b)" using "1.prems" four by (rule after_advance)
      have "holds (\<lambda>(vs', b'). after (advance 4 b) b') (read_versions (advance 4 b) (vs @ [?v]))"
        by (rule "1.IH" [OF True g refl after_ok [OF a]])
      then have "holds (\<lambda>(vs', b'). after b b') (read_versions (advance 4 b) (vs @ [?v]))"
        by (rule holds_weaken) (use after_trans [OF a] in auto)
      then show ?thesis using True g by (subst read_versions.simps) simp
    next
      case False
      then show ?thesis using True by (subst read_versions.simps) (simp add: get_u32_def get_u_cases)
    qed
  next
    case False
    then show ?thesis using "1.prems" by (subst read_versions.simps) simp
  qed
qed

lemma holds_take_cid:
  assumes "octets_ok b"
    and "\<And>cid b'. (version_is_supported version \<longrightarrow> length cid \<le> MAX_CID_LEN) \<Longrightarrow> after b b'
           \<Longrightarrow> holds P (k cid b')"
  shows "holds P (take_cid version b k)"
  unfolding take_cid_def
proof (rule holds_take_u8 [OF assms(1)])
  fix n b1
  assume b1: "after b b1"
  show "holds P (if version_is_supported version \<and> n > MAX_CID_LEN then Err InvalidPacket
                 else take_bytes n b1 (\<lambda>cid b. k (to_vec cid) b))"
  proof (cases "version_is_supported version \<and> n > MAX_CID_LEN")
    case False
    have "holds P (take_bytes n b1 (\<lambda>cid b. k (to_vec cid) b))"
      by (rule holds_take_bytes [OF after_ok [OF b1]], rule assms(2))
        (use False after_trans [OF b1] in auto)
    then show ?thesis using False by simp
  qed simp
qed

definition header_in :: "octets \<Rightarrow> header \<times> octets \<Rightarrow> bool" where
  "header_in b r \<longleftrightarrow> after b (snd r)
     \<and> (version_is_supported (h_version (fst r)) \<longrightarrow>
          length (h_dcid (fst r)) \<le> MAX_CID_LEN \<and> length (h_scid (fst r)) \<le> MAX_CID_LEN)"

lemma header_body_holds:
  assumes b: "octets_ok b"
  shows "holds (\<lambda>(token, versions, b'). after b b')
     (case ty of
        Initial \<Rightarrow> take_bytes_varint b (\<lambda>t b. Ok (Some (to_vec t), None, b))
      | Retry \<Rightarrow>
          if cap b < ring_tag_len then Err InvalidPacket
          else take_bytes (cap b - ring_tag_len) b (\<lambda>t b. Ok (Some (to_vec t), None, b))
      | VersionNegotiation \<Rightarrow>
          and_then (read_versions b []) (\<lambda>(vs, b). Ok (None, Some vs, b))
      | _ \<Rightarrow> Ok (None, None :: nat list option, b))"
  using b by (cases ty) (auto intro!: holds_take holds_and_then [OF read_versions_holds [OF b]])

lemma header_from_bytes_holds:
  assumes b: "octets_ok b"
  shows "holds (header_in b) (header_from_bytes ring_tag_len b dcid_len)"
  unfolding header_from_bytes_def
proof (rule holds_take_u8 [OF b], goal_cases)
  case (1 v b1)
  note b1 = 1(2) and ok1 = after_ok [OF 1(2)]
  show ?case
  proof (cases "is_long (word_of_nat v)")
    case False
    then show ?thesis
      unfolding Let_def
      by (simp only: if_True simp_thms, intro holds_take_bytes [OF ok1])
        (auto simp: header_in_def version_is_supported_def PROTOCOL_VERSION_V1_def
          intro: after_trans [OF b1])
  next
    case True
    have long: "holds (\<lambda>_. True) (long_type first version)" for first version
      by (simp add: long_type_def Let_def)
    show ?thesis
      unfolding Let_def
      apply (simp only: True simp_thms if_False)
      apply (rule holds_take_u32 [OF ok1])
      apply (rule holds_and_then [OF long])
      apply (rule holds_take_cid, erule after_ok)
      apply (rule holds_take_cid, erule after_ok)
      apply (rule holds_and_then [OF header_body_holds], erule after_ok)
      apply (clarsimp simp: header_in_def)
      using b1 by (meson after_trans)
  qed
qed

subsection \<open>Protection and its removal\<close>

lemma overwrite_append:
  "length ys = length zs \<Longrightarrow> overwrite (length xs) ys (xs @ zs @ ws) = xs @ ys @ ws"
  by (simp add: overwrite_def)

lemma split_at_append [simp]:
  "o_buf b = xs @ ys \<Longrightarrow> length xs = n \<Longrightarrow> split_at n b = Ok (with_slice xs, with_slice ys)"
  by (auto simp: split_at_def)

lemma get_pkt_num_read:
  assumes "1 \<le> n" and "n \<le> 4" and "n \<le> length (as_ref b)"
  shows "get_pkt_num n b = Ok (be_val (take n (as_ref b)), advance n b)"
proof -
  from assms(1,2) consider "n = 1" | "n = 2" | "n = 3" | "n = 4" by linarith
  then show ?thesis
    using assms(3) by cases (simp_all add: get_pkt_num_def get_uN_defs get_u_cases)
qed

lemma seal_result:
  assumes B: "backend_ok B"
    and s: "seal_with_u64_counter B k pn ad (pay @ space) (length pay) extra_in = Ok (n, buf')"
  obtains nonce out tag rest where
    "make_nonce (pk_nonce (sl_packet k)) pn = Ok nonce"
    "ctx_open B (pk_ctx (sl_packet k)) (length pay + length (case extra_in of Some v \<Rightarrow> v | None \<Rightarrow> []))
       nonce ad (out @ tag) = Some (pay @ (case extra_in of Some v \<Rightarrow> v | None \<Rightarrow> []))"
    "length out = length pay"
    "length tag = tag_len (sl_alg k) + length (case extra_in of Some v \<Rightarrow> v | None \<Rightarrow> [])"
    "buf' = out @ tag @ rest" "n = length out + length tag"
proof -
  let ?extra = "case extra_in of Some v \<Rightarrow> v | None \<Rightarrow> []"
  let ?tn = "tag_len (sl_alg k) + length ?extra"
  from s obtain nonce out tag where n: "make_nonce (pk_nonce (sl_packet k)) pn = Ok nonce"
    and c: "ctx_seal_scatter B (pk_ctx (sl_packet k)) ?tn nonce ad pay ?extra = Some (out, tag)"
    and len: "length pay + ?tn \<le> length (pay @ space)"
    and r: "n = length pay + length tag"
      "buf' = overwrite (length pay) tag (overwrite 0 out (pay @ space))"
    by (auto simp: seal_with_u64_counter_def Let_def crypto_fail_def and_then_eq_Ok
        split: if_splits option.splits)
  have o: "length out = length pay" "length tag = ?tn"
    "ctx_open B (pk_ctx (sl_packet k)) (length pay + length ?extra) nonce ad (out @ tag) = Some (pay @ ?extra)"
    using B c unfolding backend_ok_def by blast+
  have b1: "overwrite 0 out (pay @ space) = out @ space" using o(1) by (simp add: overwrite_def)
  have "space = take ?tn space @ drop ?tn space" by simp
  moreover have "length tag = length (take ?tn space)" using len o(2) by simp
  ultimately have "overwrite (length out) tag (out @ space) = out @ tag @ drop ?tn space"
    using overwrite_append [of tag "take ?tn space" out "drop ?tn space"] by simp
  then have "buf' = out @ tag @ drop ?tn space" using r(2) b1 o(1) by simp
  then show thesis using that [OF n o(3) o(1) o(2)] r(1) o(1) by simp
qed

lemma encrypt_hdr_result:
  assumes B: "backend_ok B" and pn: "length pnb = n"
    and e: "encrypt_hdr B (with_slice (f # hs @ pnb)) n payload k = Ok b'"
  obtains msk where
    "hpk_new_mask B (hk_hpk (sl_header k)) (seg (4 - n) 16 payload) = Some msk" "length msk = 5"
    "n \<le> 4" "o_buf b' = mask_first msk f # hs @ xor_bytes pnb (seg 1 n msk)"
proof -
  have sp: "split_at 1 (with_slice (f # hs @ pnb)) = Ok (with_slice [f], with_slice (hs @ pnb))"
    by (simp add: with_slice_def split_at_def)
  have sl: "slice_last n (with_slice (hs @ pnb)) = Ok pnb"
    using pn by (simp add: slice_last_def with_slice_def cap_def)
  from e obtain msk where
    m: "hpk_new_mask B (hk_hpk (sl_header k)) (seg (4 - n) 16 payload) = Some msk"
    and n: "n \<le> 4"
    and b': "o_buf b' = mask_first msk f # overwrite (length (hs @ pnb) - length pnb)
               (xor_bytes pnb (seg 1 n msk)) (hs @ pnb)"
    by (auto simp: encrypt_hdr_def packet_consts seal_new_mask_def crypto_fail_def and_then_eq_Ok sl
        sp [unfolded One_nat_def] split: if_splits option.splits)
  have l: "length msk = 5" using B m unfolding backend_ok_def by blast
  have "length (xor_bytes pnb (seg 1 n msk)) = length pnb" using pn l n by simp
  then have "o_buf b' = mask_first msk f # hs @ xor_bytes pnb (seg 1 n msk)"
    using b' overwrite_append [of "xor_bytes pnb (seg 1 n msk)" pnb hs "[]"] by simp
  then show thesis by (rule that [OF m l n])
qed

lemma decrypt_hdr_unmasks:
  assumes n: "1 \<le> n" "n \<le> 4" "length pnb = n" and long: "20 \<le> n + length ct"
    and first: "mask_first msk f' = f" "unat (f AND PKT_NUM_MASK) + 1 = n"
    and x: "length x = n" "xor_bytes x (seg 1 n msk) = pnb"
    and m: "hpk_new_mask B (hk_hpk (op_header k)) (seg (4 - n) 16 ct) = Some msk"
  shows "decrypt_hdr B \<lparr>o_buf = f' # hs @ x @ ct, o_off = Suc (length hs)\<rparr> hdr k
     = Ok (let h = hdr\<lparr>h_pkt_num := be_val pnb, h_pkt_num_len := n\<rparr>
           in if h_ty hdr = Short then h\<lparr>h_key_phase := f AND KEY_PHASE_BIT \<noteq> 0\<rparr> else h,
           \<lparr>o_buf = f # hs @ pnb @ ct, o_off = Suc (length hs) + n\<rparr>)"
proof -
  let ?b = "\<lparr>o_buf = f' # hs @ x @ ct, o_off = Suc (length hs)\<rparr>"
  have s1: "split_at (Suc 0) ?b = Ok (with_slice [f'], with_slice (hs @ x @ ct))"
    by (rule split_at_append) simp_all
  have pk: "peek_bytes 20 ?b = Ok (with_slice (x @ take (20 - n) ct))"
    using long x(1) n by (simp add: peek_bytes_def cap_def seg_def with_slice_def)
  have "take (20 - n) ct = take (4 - n) ct @ seg (4 - n) 16 ct"
    using n(2) take_add [of "4 - n" 16 ct] by (simp add: seg_def add.commute)
  then have s4: "split_at 4 (with_slice (x @ take (20 - n) ct))
      = Ok (with_slice (x @ take (4 - n) ct), with_slice (seg (4 - n) 16 ct))"
    using x(1) n long by (intro split_at_append) simp_all
  have ov: "overwrite (Suc (length hs)) pnb (f' # hs @ x @ ct) = f' # hs @ pnb @ ct"
    using overwrite_append [of pnb x "f' # hs" ct] x(1) n(3) by simp
  let ?b2 = "\<lparr>o_buf = f' # hs @ pnb @ ct, o_off = Suc (length hs)\<rparr>"
  have ar: "as_ref ?b2 = pnb @ ct" by (simp add: as_ref_def)
  have g: "get_pkt_num n ?b2 = Ok (be_val pnb, advance n ?b2)"
    using get_pkt_num_read [of n ?b2] n ar by simp
  have msk: "open_new_mask B k (seg (4 - n) 16 ct) = Ok msk"
    by (simp add: open_new_mask_def crypto_fail_def m)
  have pl: "Suc (unat (f AND PKT_NUM_MASK)) = n" using first(2) by simp
  show ?thesis
    by (simp add: decrypt_hdr_def s1 pk s4 msk MAX_PKT_NUM_LEN_def SAMPLE_LEN_def first(1) pl x
        x [unfolded One_nat_def] ov g advance_def overwrite_def [of 0] Let_def)
qed

lemma decrypt_pkt_opens:
  assumes op: "ctx_open B (pk_ctx (op_packet k)) (length ct - tag_len (op_alg k)) nonce ad ct = Some plain"
    and n: "make_nonce (pk_nonce (op_packet k)) pn = Ok nonce"
    and len: "tag_len (op_alg k) \<le> length ct" "length plain \<le> length ct"
  shows "decrypt_pkt B \<lparr>o_buf = ad @ ct, o_off = length ad\<rparr> pn pn_len (pn_len + length ct) k
     = Ok (with_slice plain, \<lparr>o_buf = ad @ overwrite 0 plain ct, o_off = length ad + length plain\<rparr>)"
proof -
  let ?b = "\<lparr>o_buf = ad @ ct, o_off = length ad\<rparr>"
  have s: "split_at (length ad) ?b = Ok (with_slice ad, with_slice ct)" by (rule split_at_append) simp_all
  have p: "peek_bytes (length ct) (with_slice ct) = Ok (with_slice ct)"
    by (simp add: peek_bytes_def cap_def seg_def with_slice_def)
  have o: "open_with_u64_counter B k pn ad ct = Ok (length plain, overwrite 0 plain ct)"
    using len n op by (simp add: open_with_u64_counter_def crypto_fail_def)
  have ov: "overwrite (length ad) (overwrite 0 plain ct) (ad @ ct) = ad @ overwrite 0 plain ct"
    using overwrite_append [of "overwrite 0 plain ct" ct ad "[]"] len by simp
  have "as_ref \<lparr>o_buf = ad @ overwrite 0 plain ct, o_off = length ad\<rparr> = plain @ drop (length plain) ct"
    by (simp add: as_ref_def overwrite_def)
  then have "get_bytes (length plain) \<lparr>o_buf = ad @ overwrite 0 plain ct, o_off = length ad\<rparr>
      = Ok (with_slice plain, advance (length plain) \<lparr>o_buf = ad @ overwrite 0 plain ct, o_off = length ad\<rparr>)"
    by (rule get_bytes_append) simp
  then show ?thesis using s p o ov by (simp add: decrypt_pkt_def advance_def)
qed

lemma tag_len_16 [simp]: "tag_len alg = 16"
  by (simp add: tag_len_def split: algorithm.split)

lemma encrypt_pkt_result:
  assumes B: "backend_ok B" and buf: "o_buf b = (f # hs @ pnb) @ pay @ space"
    and n: "length pnb \<le> 4" and long: "4 \<le> length pnb + length pay"
    and e: "encrypt_pkt B b pn (length pnb) (length pay) (Suc (length hs) + length pnb) extra_in k = Ok (len, b')"
  obtains nonce ct msk where
    "make_nonce (pk_nonce (sl_packet k)) pn = Ok nonce"
    "ctx_open B (pk_ctx (sl_packet k)) (length ct - 16) nonce (f # hs @ pnb) ct
       = Some (pay @ (case extra_in of Some v \<Rightarrow> v | None \<Rightarrow> []))"
    "length ct = length pay + length (case extra_in of Some v \<Rightarrow> v | None \<Rightarrow> []) + 16"
    "hpk_new_mask B (hk_hpk (sl_header k)) (seg (4 - length pnb) 16 ct) = Some msk" "length msk = 5"
    "take len (o_buf b') = mask_first msk f # hs @ xor_bytes pnb (seg 1 (length pnb) msk) @ ct"
    "len = Suc (length hs) + length pnb + length ct"
proof -
  let ?extra = "case extra_in of Some v \<Rightarrow> v | None \<Rightarrow> []" and ?n = "length pnb"
  let ?ad = "f # hs @ pnb"
  have "split_at (Suc (length hs) + ?n) b = Ok (with_slice ?ad, with_slice (pay @ space))"
    using buf by (intro split_at_append) simp_all
  with e obtain cl payload' hb where
    s: "seal_with_u64_counter B k pn ?ad (pay @ space) (length pay) extra_in = Ok (cl, payload')"
    and eh: "encrypt_hdr B (with_slice ?ad) ?n payload' k = Ok hb"
    and len: "len = Suc (length hs) + ?n + cl" and b': "o_buf b' = o_buf hb @ payload'"
    by (auto simp: encrypt_pkt_def and_then_eq_Ok)
  obtain nonce out tag rest where nonce: "make_nonce (pk_nonce (sl_packet k)) pn = Ok nonce"
    and co: "ctx_open B (pk_ctx (sl_packet k)) (length pay + length ?extra) nonce ?ad (out @ tag)
               = Some (pay @ ?extra)"
    and lo: "length out = length pay" and lt: "length tag = tag_len (sl_alg k) + length ?extra"
    and p': "payload' = out @ tag @ rest" and cl: "cl = length out + length tag"
    by (rule seal_result [OF B s])
  obtain msk where m: "hpk_new_mask B (hk_hpk (sl_header k)) (seg (4 - ?n) 16 payload') = Some msk"
    and ml: "length msk = 5"
    and hb: "o_buf hb = mask_first msk f # hs @ xor_bytes pnb (seg 1 ?n msk)"
    by (rule encrypt_hdr_result [OF B refl eh])
  let ?ct = "out @ tag" and ?x = "xor_bytes pnb (seg 1 ?n msk)"
  have lct: "length ?ct = length pay + length ?extra + 16" using lo lt by simp
  have lx: "length ?x = ?n" using ml n by simp
  have sg: "seg (4 - ?n) 16 payload' = seg (4 - ?n) 16 ?ct"
    using lct long n seg_prefix [of "4 - ?n" 16 ?ct rest] p' by simp
  have w: "take len (o_buf b') = mask_first msk f # hs @ ?x @ ?ct" using b' hb p' len cl lx by simp
  have mx: "length ?ct - 16 = length pay + length ?extra" using lct by simp
  have ln: "len = Suc (length hs) + ?n + length ?ct" using len cl by simp
  show thesis by (rule that [OF nonce co [folded mx] lct m [unfolded sg] ml w ln])
qed

subsection \<open>Retry and version negotiation\<close>

lemma compute_retry_integrity_tag_cong:
  "o_off b = o_off b' \<Longrightarrow> take (o_off b) (o_buf b) = take (o_off b') (o_buf b') \<Longrightarrow>
     compute_retry_integrity_tag seal_tag b odcid version = compute_retry_integrity_tag seal_tag b' odcid version"
  by (simp add: compute_retry_integrity_tag_def)

lemma written_prefix:
  assumes "octets_ok b" and "q (write_bytes bs b) = Ok b'"
  shows "octets_ok b'" "o_off b' = o_off b + length bs"
    "take (o_off b') (o_buf b') = take (o_off b) (o_buf b) @ bs"
proof -
  have w: "write_bytes bs b = Ok b'" using assms(2) by (cases "write_bytes bs b") auto
  show "octets_ok b'" "o_off b' = o_off b + length bs"
    "take (o_off b') (o_buf b') = take (o_off b) (o_buf b) @ bs"
    by (fact write_bytes_fits(2) [OF assms(1) w] write_bytes_fits(3) [OF assms(1) w]
        write_bytes_fits(5) [OF assms(1) w])+
qed

lemma with_slice_cur: "with_slice bs = cur [] bs"
  by (simp add: with_slice_def cur_def)

lemma header_round_trip_prefix:
  assumes h: "header_ok h" and w: "header_to_bytes h (with_slice out) = Ok b'"
    and r: "h_ty h = Retry \<Longrightarrow> length rest = ring_tag_len"
  shows "take (o_off b') (o_buf b') = enc_header h" "octets_ok b'" "o_off b' = length (enc_header h)"
    "header_from_bytes ring_tag_len (with_slice (take (o_off b') (o_buf b') @ rest)) (length (h_dcid h))
       = Ok (parsed_header h, cur (enc_header h) rest)"
proof -
  have e: "q (write_bytes (enc_header h) (with_slice out)) = Ok b'"
    using header_to_bytes_writes [OF h, of "with_slice out"] w by simp
  note p = written_prefix [OF octets_ok_with_slice e]
  show t: "take (o_off b') (o_buf b') = enc_header h" and "octets_ok b'"
    and "o_off b' = length (enc_header h)"
    using p by (simp_all add: with_slice_def)
  show "header_from_bytes ring_tag_len (with_slice (take (o_off b') (o_buf b') @ rest)) (length (h_dcid h))
       = Ok (parsed_header h, cur (enc_header h) rest)"
    using header_from_bytes_enc [OF h r, of "[]"] by (simp add: t with_slice_cur)
qed

lemma write_bytes_exact:
  "length bs = length out \<Longrightarrow> write_bytes bs (with_slice out) = Ok \<lparr>o_buf = bs, o_off = length bs\<rparr>"
  by (simp add: write_bytes_def cap_def with_slice_def overwrite_def)

lemma compute_retry_integrity_tag_eq:
  assumes "octets_ok b" and "length odcid < 256"
  shows "compute_retry_integrity_tag seal_tag b odcid version
    = crypto_fail (seal_tag RETRY_INTEGRITY_KEY_V1 RETRY_INTEGRITY_NONCE_V1
        (be_bytes 1 (length odcid) @ odcid @ take (o_off b) (o_buf b)))"
proof -
  let ?es = "[be_bytes 1 (length odcid), odcid, take (o_off b) (o_buf b)]"
  let ?pb = "with_slice (replicate (1 + length odcid + o_off b) 0)"
  have "length (concat ?es) = length (replicate (1 + length odcid + o_off b) 0)"
    using assms(1) by (simp add: octets_ok_def)
  then have w: "write_bytes (concat ?es) ?pb = Ok \<lparr>o_buf = concat ?es, o_off = length (concat ?es)\<rparr>"
    by (rule write_bytes_exact)
  have "put_seq [put_u8 (length odcid mod 2 ^ 8), put_bytes odcid, put_bytes (take (o_off b) (o_buf b))] ?pb
      = q (write_bytes (concat ?es) ?pb)"
    by (rule put_seq_writes) (use assms(2) in simp_all)
  then have "put_seq [put_u8 (length odcid mod 2 ^ 8), put_bytes odcid, put_bytes (take (o_off b) (o_buf b))] ?pb
      = Ok \<lparr>o_buf = concat ?es, o_off = length (concat ?es)\<rparr>"
    by (simp only: w q_simps)
  then show ?thesis
    unfolding compute_retry_integrity_tag_def Let_def if_cancel prod.case
    by (simp only: and_then.simps octets.simps concat.simps append_Nil2)
qed

lemma retry_fits:
  assumes "length scid \<le> 20" "length new_scid \<le> 20" "length token < 2 ^ 62" "length dcid < 256"
    and "\<And>k n a. \<exists>t. seal_tag k n a = Some t \<and> length t = ring_tag_len"
    and "7 + length scid + length new_scid + length token + ring_tag_len \<le> length out"
  shows "\<exists>n out'. retry seal_tag scid dcid new_scid token 1 out = Ok (n, out')"
proof -
  let ?h = "\<lparr>h_ty = Retry, h_version = 1, h_dcid = scid, h_scid = new_scid, h_pkt_num = 0,
     h_pkt_num_len = 0, h_token = Some token, h_versions = None, h_key_phase = False\<rparr>"
  have ok: "header_ok ?h" using assms(1-3) by (simp add: header_ok_def MAX_CID_LEN_def)
  have len: "length (enc_header ?h) = 7 + length scid + length new_scid + length token"
    by (simp add: enc_header_def enc_cid_def enc_token_def token_bytes_def)
  then obtain b where b: "header_to_bytes ?h (with_slice out) = Ok b"
    using header_to_bytes_fits [OF ok, of out] assms(6) by auto
  obtain t where t: "seal_tag RETRY_INTEGRITY_KEY_V1 RETRY_INTEGRITY_NONCE_V1
      (be_bytes 1 (length dcid) @ dcid @ take (o_off b) (o_buf b)) = Some t" "length t = ring_tag_len"
    using assms(5) by blast
  have w: "write_bytes (enc_header ?h) (with_slice out) = Ok b"
    using header_to_bytes_writes [OF ok octets_ok_with_slice, of out] b
    by (cases "write_bytes (enc_header ?h) (with_slice out)") auto
  note f = write_bytes_fits [OF octets_ok_with_slice w]
  have "cap b = length out - length (enc_header ?h)"
    using w by (auto simp: write_bytes_def cap_def with_slice_def split: if_splits)
  then have "length t \<le> cap b" using len assms(6) t(2) by simp
  then obtain b2 where "put_seq [put_bytes t] b = Ok b2" by (simp add: put_bytes_write write_bytes_def)
  moreover have "compute_retry_integrity_tag seal_tag b dcid 1 = Ok t"
    using compute_retry_integrity_tag_eq [OF f(2) assms(4)] t by (simp add: crypto_fail_def)
  ultimately show ?thesis
    using b by (simp add: retry_def version_is_supported_def PROTOCOL_VERSION_V1_def)
qed

lemma retry_written:
  assumes r: "retry seal_tag scid dcid new_scid token version out = Ok (n, out')"
    and len: "length scid \<le> 20" "length new_scid \<le> 20" "length token < 2 ^ 62"
    and tag: "\<And>k n a t. seal_tag k n a = Some t \<Longrightarrow> length t = ring_tag_len"
  obtains h t where
    "h = \<lparr>h_ty = Retry, h_version = 1, h_dcid = scid, h_scid = new_scid, h_pkt_num = 0,
          h_pkt_num_len = 0, h_token = Some token, h_versions = None, h_key_phase = False\<rparr>"
    "version = 1" "header_ok h" "length t = ring_tag_len" "take n out' = enc_header h @ t"
    "compute_retry_integrity_tag seal_tag (cur (enc_header h) t) dcid 1 = Ok t"
proof -
  have v: "version = 1"
    using r by (auto simp: retry_def version_is_supported_def PROTOCOL_VERSION_V1_def split: if_splits)
  define h where "h = \<lparr>h_ty = Retry, h_version = 1, h_dcid = scid, h_scid = new_scid, h_pkt_num = 0,
          h_pkt_num_len = 0, h_token = Some token, h_versions = None, h_key_phase = False\<rparr>"
  have ok: "header_ok h" using len by (simp add: header_ok_def h_def MAX_CID_LEN_def)
  from r obtain b t b2 where b: "header_to_bytes h (with_slice out) = Ok b"
    and t: "compute_retry_integrity_tag seal_tag b dcid 1 = Ok t"
    and p: "put_seq [put_bytes t] b = Ok b2" and n: "n = o_off b2" "out' = o_buf b2"
    by (auto simp: retry_def v version_is_supported_def PROTOCOL_VERSION_V1_def and_then_eq_Ok
        h_def)
  have lt: "length t = ring_tag_len"
  proof -
    from t obtain k nn a where "seal_tag k nn a = Some t"
      by (auto simp: compute_retry_integrity_tag_def and_then_eq_Ok crypto_fail_def Let_def
          split: option.splits if_splits)
    then show ?thesis by (rule tag)
  qed
  note hb = header_round_trip_prefix [OF ok b lt]
  have "put_seq [put_bytes t] b = q (write_bytes (concat [t]) b)"
    by (rule put_seq_writes [OF _ hb(2)]) simp
  then have "q (write_bytes t b) = Ok b2" using p by simp
  from written_prefix [OF hb(2) this] have e: "take n out' = enc_header h @ t"
    by (simp add: n hb(1))
  have "compute_retry_integrity_tag seal_tag (cur (enc_header h) t) dcid 1 = Ok t"
    using t compute_retry_integrity_tag_cong [of b "cur (enc_header h) t"] hb(1,3) by (simp add: cur_def)
  then show thesis using that [OF h_def v ok lt e] by simp
qed

subsection \<open>Properties\<close>


definition sample_seal :: "(byte list, byte list) seal_key" where
  "sample_seal = \<lparr>sl_alg = AES128_GCM, sl_secret = [], sl_header = \<lparr>hk_hpk = [], hk_hp_key = []\<rparr>,
     sl_packet = \<lparr>pk_ctx = [], pk_nonce = replicate 12 0\<rparr>\<rparr>"

definition sample_open :: "(byte list, byte list) open_key" where
  "sample_open = \<lparr>op_alg = AES128_GCM, op_secret = [], op_header = \<lparr>hk_hpk = [], hk_hp_key = []\<rparr>,
     op_packet = \<lparr>pk_ctx = [], pk_nonce = replicate 12 0\<rparr>\<rparr>"

definition short_header :: header where
  "short_header = \<lparr>h_ty = Short, h_version = 0, h_dcid = [9], h_scid = [], h_pkt_num = 0,
     h_pkt_num_len = 0, h_token = None, h_versions = None, h_key_phase = False\<rparr>"


text \<open>
  C7: a header that was written is parsed back: whatever follows it in the datagram, the
  parser returns the same type, version, connection IDs and token and stops right after it.
\<close>

theorem header_round_trip:
  assumes "header_ok h" and "header_to_bytes h (with_slice out) = Ok b'"
    and "h_ty h = Retry \<longrightarrow> length rest = ring_tag_len"
  shows "header_from_bytes ring_tag_len (with_slice (take (o_off b') (o_buf b') @ rest)) (length (h_dcid h))
       = Ok (parsed_header h, \<lparr>o_buf = take (o_off b') (o_buf b') @ rest, o_off = o_off b'\<rparr>)"
  using header_round_trip_prefix [of h out b' rest ring_tag_len] assms by (simp add: cur_def)

definition sample_header :: header where
  "sample_header = \<lparr>h_ty = Initial, h_version = 1, h_dcid = [1, 2], h_scid = [3], h_pkt_num = 7,
     h_pkt_num_len = 2, h_token = Some [9, 9], h_versions = None, h_key_phase = False\<rparr>"

theorem header_round_trip_witness:
  "\<exists>b'. header_to_bytes sample_header (with_slice (replicate 40 0)) = Ok b'
     \<and> header_from_bytes 16 (with_slice (take (o_off b') (o_buf b') @ [5])) 2
       = Ok (sample_header\<lparr>h_pkt_num := 0, h_pkt_num_len := 0\<rparr>,
             \<lparr>o_buf = take (o_off b') (o_buf b') @ [5], o_off = o_off b'\<rparr>)"
proof -
  have ok: "header_ok sample_header" by (simp add: header_ok_def sample_header_def MAX_CID_LEN_def)
  have "length (enc_header sample_header) \<le> 40"
    by (simp add: sample_header_def enc_header_def enc_cid_def enc_token_def token_bytes_def
        enc_varint_def varint_len_def varint_bytes_def)
  then obtain b' where b': "header_to_bytes sample_header (with_slice (replicate 40 0)) = Ok b'"
    using header_to_bytes_fits [OF ok, of "replicate 40 0"] by auto
  from ok show ?thesis
    using header_round_trip [of sample_header "replicate 40 0" b' "[5]" 16] b'
    by (simp add: sample_header_def parsed_header_def token_bytes_def flip: numeral_2_eq_2)
qed

text \<open>
  C8: parsing a header never panics, for any bytes: it ends with an error or with a header
  and the cursor further on in the same buffer, and the connection IDs of a supported
  version are at most 20 bytes long.
\<close>

theorem header_from_bytes_total:
  assumes "octets_ok b"
  shows "header_from_bytes ring_tag_len b dcid_len \<noteq> Panic
     \<and> (\<forall>h b'. header_from_bytes ring_tag_len b dcid_len = Ok (h, b') \<longrightarrow>
          octets_ok b' \<and> o_buf b' = o_buf b \<and> o_off b \<le> o_off b'
        \<and> (version_is_supported (h_version h) \<longrightarrow> length (h_dcid h) \<le> 20 \<and> length (h_scid h) \<le> 20))"
proof (intro conjI allI impI)
  note H = header_from_bytes_holds [OF assms, of ring_tag_len dcid_len]
  show "header_from_bytes ring_tag_len b dcid_len \<noteq> Panic" using H unfolding holds_def by blast
  fix h b'
  assume "header_from_bytes ring_tag_len b dcid_len = Ok (h, b')"
  then have hb: "header_in b (h, b')" using H unfolding holds_def by blast
  then show "octets_ok b'" "o_buf b' = o_buf b" "o_off b \<le> o_off b'"
    by (simp_all add: header_in_def after_def)
  assume "version_is_supported (h_version h)"
  then show "length (h_dcid h) \<le> 20" "length (h_scid h) \<le> 20"
    using hb by (simp_all add: header_in_def MAX_CID_LEN_def)
qed

theorem header_from_bytes_total_witness:
  "header_from_bytes 16 (with_slice [0xc0, 0, 0, 0, 1, 200]) 8 \<noteq> Panic"
  by (rule conjunct1 [OF header_from_bytes_total]) simp

text \<open>
  C9: a Retry packet built by the server is accepted by the client: it parses to a Retry
  header with the new connection ID and the token, and its integrity tag verifies against
  the original destination connection ID.
\<close>

theorem retry_verifies:
  assumes "retry seal_tag scid dcid new_scid token version out = Ok (n, out')"
    and "length scid \<le> 20" and "length new_scid \<le> 20" and "length token < 2 ^ 62"
    and "\<And>k n a t. seal_tag k n a = Some t \<Longrightarrow> length t = ring_tag_len"
  shows "\<exists>h b. header_from_bytes ring_tag_len (with_slice (take n out')) (length scid) = Ok (h, b)
     \<and> h_ty h = Retry \<and> h_dcid h = scid \<and> h_scid h = new_scid \<and> h_token h = Some token
     \<and> verify_retry_integrity seal_tag ring_tag_len b dcid (h_version h) = Ok ()"
proof -
  obtain h t where h: "h = \<lparr>h_ty = Retry, h_version = 1, h_dcid = scid, h_scid = new_scid,
      h_pkt_num = 0, h_pkt_num_len = 0, h_token = Some token, h_versions = None, h_key_phase = False\<rparr>"
    and "version = 1" and ok: "header_ok h" and lt: "length t = ring_tag_len"
    and e: "take n out' = enc_header h @ t"
    and c: "compute_retry_integrity_tag seal_tag (cur (enc_header h) t) dcid 1 = Ok t"
    by (rule retry_written [OF assms])
  have "header_from_bytes ring_tag_len (cur [] (enc_header h @ t)) (length (h_dcid h))
      = Ok (parsed_header h, cur ([] @ enc_header h) t)"
    by (rule header_from_bytes_enc [OF ok lt])
  moreover have "verify_retry_integrity seal_tag ring_tag_len (cur (enc_header h) t) dcid 1 = Ok ()"
    using c lt by (simp add: verify_retry_integrity_def)
  ultimately show ?thesis
    by (simp add: e with_slice_cur h parsed_header_def token_bytes_def)
qed

theorem retry_verifies_witness:
  "\<exists>n out' h b. retry (\<lambda>k n a. Some (replicate 16 7)) [1] [2] [3] [4, 4] 1 (replicate 40 0) = Ok (n, out')
     \<and> header_from_bytes 16 (with_slice (take n out')) (length [1 :: byte]) = Ok (h, b)
     \<and> h_token h = Some [4, 4]
     \<and> verify_retry_integrity (\<lambda>k n a. Some (replicate 16 7)) 16 b [2] (h_version h) = Ok ()"
proof -
  let ?tag = "\<lambda>(k :: byte list) (n :: byte list) (a :: byte list). Some (replicate 16 (7 :: byte))"
  obtain n out' where r: "retry ?tag [1] [2] [3] [4, 4] 1 (replicate 40 0) = Ok (n, out')"
    using retry_fits [of "[1]" "[3]" "[4, 4]" "[2]" ?tag 16 "replicate 40 0"] by auto
  have "\<exists>h b. header_from_bytes 16 (with_slice (take n out')) (length [1 :: byte]) = Ok (h, b)
     \<and> h_ty h = Retry \<and> h_dcid h = [1] \<and> h_scid h = [3] \<and> h_token h = Some [4, 4]
     \<and> verify_retry_integrity ?tag 16 b [2] (h_version h) = Ok ()"
    by (rule retry_verifies [OF r]) auto
  then show ?thesis using r by blast
qed

text \<open>
  A Version Negotiation packet parses to one that swaps the connection IDs it was built
  from and offers exactly version 1.
\<close>

theorem negotiate_version_parses:
  assumes "negotiate_version rand_u8 scid dcid out = Ok (n, out')"
    and "length scid < 256" and "length dcid < 256"
  shows "\<exists>h b. header_from_bytes ring_tag_len (with_slice (take n out')) dcid_len = Ok (h, b)
     \<and> h_ty h = VersionNegotiation \<and> h_version h = 0 \<and> h_dcid h = scid \<and> h_scid h = dcid
     \<and> h_versions h = Some [1] \<and> h_token h = None"
proof -
  let ?es = "[be_bytes 1 (unat (rand_u8 OR FORM_BIT)), be_bytes 4 0, be_bytes 1 (length scid), scid,
    be_bytes 1 (length dcid), dcid, be_bytes 4 1]"
  let ?f = "be_bytes 1 (unat (rand_u8 OR FORM_BIT))"
  from assms(1) obtain b where p: "put_seq [put_u8 (unat (rand_u8 OR FORM_BIT)), put_u32 0,
                 put_u8 (length scid mod 2 ^ 8), put_bytes scid,
                 put_u8 (length dcid mod 2 ^ 8), put_bytes dcid,
                 put_u32 PROTOCOL_VERSION_V1] (with_slice out) = Ok b"
    and n: "n = o_off b" "out' = o_buf b"
    by (auto simp: negotiate_version_def and_then_eq_Ok)
  have "q (write_bytes (concat ?es) (with_slice out)) = Ok b"
    using p put_seq_writes [of _ ?es "with_slice out"] assms(2,3)
    by (subst (asm) put_seq_writes [where es = ?es]) (simp_all add: PROTOCOL_VERSION_V1_def)
  from written_prefix [OF octets_ok_with_slice this]
  have e: "take n out' = ?f @ be_bytes 4 0 @ enc_cid scid @ enc_cid dcid @ be_bytes 4 1"
    by (simp add: n enc_cid_def with_slice_def)
  have long: "is_long (rand_u8 OR FORM_BIT)"
    by (simp add: is_long_def FORM_BIT_def bit.conj_disj_distrib2)
  have cid: "take_cid 0 (cur pre (enc_cid cid @ rest)) k = k cid (cur (pre @ enc_cid cid) rest)"
    if "length cid < 256" for cid pre rest and k :: "byte list \<Rightarrow> octets \<Rightarrow> (error, header \<times> octets) res"
    using that by (simp add: take_cid_def enc_cid_def version_is_supported_def PROTOCOL_VERSION_V1_def)
  have v: "read_versions (cur pre (be_bytes 4 1)) [] = Ok ([1], cur (pre @ be_bytes 4 1) [])" for pre
  proof -
    have g: "get_u32 (cur pre (be_bytes 4 1)) = Ok (1, cur (pre @ be_bytes 4 1) [])"
      using u32.dec_enc [of 1 "cur pre (be_bytes 4 1)" "[]"] advance_cur [of "be_bytes 4 1" pre "[]"] by simp
    have "read_versions (cur (pre @ be_bytes 4 1) []) [1] = Ok ([1], cur (pre @ be_bytes 4 1) [])"
      by (subst read_versions.simps) simp
    then show ?thesis by (subst read_versions.simps) (simp add: g [unfolded One_nat_def])
  qed
  show ?thesis
    unfolding e with_slice_cur
    using long assms(2,3)
    by (simp add: header_from_bytes_def long_type_def cid v [unfolded One_nat_def] v)
qed

theorem negotiate_version_parses_witness:
  "\<exists>n out' h b. negotiate_version 3 [1, 2] [7] (replicate 20 0) = Ok (n, out')
     \<and> header_from_bytes 16 (with_slice (take n out')) 0 = Ok (h, b) \<and> h_dcid h = [1, 2]
     \<and> h_versions h = Some [1]"
proof -
  obtain n out' where r: "negotiate_version 3 [1, 2] [7] (replicate 20 0) = Ok (n, out')"
    by (simp add: negotiate_version_def put_uN_defs put_u_def put_bytes_def cap_def with_slice_def
        octets_ok_def)
  show ?thesis
    using negotiate_version_parses [OF r, of 16 0] r by auto
qed

end
