(* ===== verification/Frame.thy ===== *)
theory Frame
  imports Packet Ranges RangeBuf
begin

text \<open>
  QUIC frames, \<^verbatim>\<open>quiche/src/frame.rs\<close>: the frame type, parsing, writing, the length on the
  wire and the classification of frames.

  The forward error correction frames carry values of the \<^verbatim>\<open>networkcoding\<close> package; its types
  are type variables and the functions of it that the code calls are the fields of the record
  \<open>networkcoding\<close> (a failure carries the code that \<^verbatim>\<open>to_u64\<close> gives).

  Writing a frame is a sequence of statements \<^verbatim>\<open>b.put_...()?;\<close>: \<open>frame_puts\<close> is that sequence, in
  three groups of arms of the \<^verbatim>\<open>match\<close>, of which one is empty for a given frame.  A statement
  that panics on an empty or ill-formed set of ranges is \<open>put_panic\<close>.
\<close>

type_synonym put = "octets \<Rightarrow> (octets_error, octets) res"

definition MAX_STREAM_SIZE :: u64 where "MAX_STREAM_SIZE = 2 ^ 62"

record ecn_counts =
  ect0_count :: u64
  ect1_count :: u64
  ecn_ce_count :: u64

record ('rep, 'src, 'meta) networkcoding =
  nc_symbol_size :: usize
  nc_read_repair_symbol :: "byte list \<Rightarrow> (u64, usize \<times> 'rep) res"
  nc_read_source_symbol_metadata :: "byte list \<Rightarrow> (u64, usize \<times> 'meta) res"
  nc_repair_get :: "'rep \<Rightarrow> byte list"
  nc_repair_wire_len :: "'rep \<Rightarrow> usize"
  nc_metadata_bytes :: "'meta \<Rightarrow> byte list"
  nc_source_new :: "'meta \<Rightarrow> byte list \<Rightarrow> 'src"
  nc_source_metadata :: "'src \<Rightarrow> 'meta"
  nc_source_get :: "'src \<Rightarrow> byte list"

datatype ('rep, 'src, 'meta) frame =
    Padding usize
  | Ping "usize option"
  | ACK u64 range_set "ecn_counts option"
  | ResetStream u64 u64 u64
  | StopSending u64 u64
  | Crypto range_buf
  | CryptoHeader u64 usize
  | NewToken "byte list"
  | Stream u64 range_buf
  | StreamHeader u64 u64 usize bool
  | MaxData u64
  | MaxStreamData u64 u64
  | MaxStreamsBidi u64
  | MaxStreamsUni u64
  | DataBlocked u64
  | StreamDataBlocked u64 u64
  | StreamsBlockedBidi u64
  | StreamsBlockedUni u64
  | NewConnectionId u64 u64 "byte list" "byte list"
  | RetireConnectionId u64
  | PathChallenge "byte list"
  | PathResponse "byte list"
  | ConnectionClose u64 u64 "byte list"
  | ApplicationClose u64 "byte list"
  | HandshakeDone
  | Datagram "byte list"
  | DatagramHeader usize
  | Repair 'rep
  | SourceSymbolHeader 'meta bool
  | SourceSymbol 'src
  | SourceSymbolACK range_set

subsection \<open>Parsing\<close>

function parse_padding :: "octets \<Rightarrow> usize \<Rightarrow> (error, usize \<times> octets) res" where
  "parse_padding b len =
     (if peek_u8 b = Ok 0
      then (case get_u8 b of
              Ok (_, b') \<Rightarrow> parse_padding b' (len + 1)
            | Err _ \<Rightarrow> Err BufferTooShort
            | Panic \<Rightarrow> Panic)
      else Ok (len, b))"
  by pat_completeness auto
termination
  by (relation "measure (\<lambda>(b, len). cap b)")
    (auto simp: get_u8_def get_u_cases advance_def cap_def as_ref_def split: if_splits)

declare parse_padding.simps [simp del]

primrec parse_ack_blocks ::
    "nat \<Rightarrow> u64 \<Rightarrow> range_set \<Rightarrow> octets \<Rightarrow> (range_set \<Rightarrow> octets \<Rightarrow> (error, 'a) res) \<Rightarrow> (error, 'a) res" where
  "parse_ack_blocks 0 smallest_ack ranges b k = k ranges b"
| "parse_ack_blocks (Suc n) smallest_ack ranges b k =
     take_varint b (\<lambda>gap b.
       if smallest_ack < 2 + gap then Err InvalidFrame
       else let largest_ack = (smallest_ack - gap) - 2
            in take_varint b (\<lambda>ack_block b.
                 if largest_ack < ack_block then Err InvalidFrame
                 else let smallest_ack = largest_ack - ack_block
                      in and_then (or_panic (rs_insert (smallest_ack, largest_ack + 1) ranges))
                           (\<lambda>ranges. parse_ack_blocks n smallest_ack ranges b k)))"

definition parse_ack_ranges ::
    "u64 \<Rightarrow> u64 \<Rightarrow> u64 \<Rightarrow> octets \<Rightarrow> (range_set \<Rightarrow> octets \<Rightarrow> (error, 'a) res) \<Rightarrow> (error, 'a) res" where
  "parse_ack_ranges largest_ack block_count ack_block b k =
     (if largest_ack < ack_block then Err InvalidFrame
      else let smallest_ack = largest_ack - ack_block
           in and_then (or_panic (rs_insert (smallest_ack, largest_ack + 1) rs_default))
                (\<lambda>ranges. parse_ack_blocks block_count smallest_ack ranges b k))"

definition parse_ack_frame :: "u64 \<Rightarrow> octets \<Rightarrow> (error, ('rep, 'src, 'meta) frame \<times> octets) res" where
  "parse_ack_frame ty b =
     (let first = ty mod 2 ^ 8
      in take_varint b (\<lambda>largest_ack b.
         take_varint b (\<lambda>ack_delay b.
         take_varint b (\<lambda>block_count b.
         take_varint b (\<lambda>ack_block b.
         parse_ack_ranges largest_ack block_count ack_block b (\<lambda>ranges b.
           if first AND 0x01 \<noteq> 0 then
             take_varint b (\<lambda>ect0 b.
             take_varint b (\<lambda>ect1 b.
             take_varint b (\<lambda>ecn_ce b.
               Ok (ACK ack_delay ranges (Some \<lparr>ect0_count = ect0, ect1_count = ect1,
                                               ecn_ce_count = ecn_ce\<rparr>), b))))
           else Ok (ACK ack_delay ranges None, b)))))))"

definition parse_source_symbol_ack_frame :: "octets \<Rightarrow> (error, ('rep, 'src, 'meta) frame \<times> octets) res" where
  "parse_source_symbol_ack_frame b =
     take_varint b (\<lambda>largest_ack b.
     take_varint b (\<lambda>block_count b.
     take_varint b (\<lambda>ack_block b.
     parse_ack_ranges largest_ack block_count ack_block b (\<lambda>ranges b.
       Ok (SourceSymbolACK ranges, b)))))"

definition parse_stream_frame :: "u64 \<Rightarrow> octets \<Rightarrow> (error, ('rep, 'src, 'meta) frame \<times> octets) res" where
  "parse_stream_frame ty b =
     (let first = ty mod 2 ^ 8;
          body = (\<lambda>stream_id offset len b.
            if offset + len \<ge> MAX_STREAM_SIZE then Err InvalidFrame
            else let fin = (first AND 0x01 \<noteq> 0)
                 in take_bytes len b (\<lambda>data b.
                      Ok (Stream stream_id (rb_from (as_ref data) offset fin), b)));
          with_len = (\<lambda>stream_id offset b.
            if first AND 0x02 \<noteq> 0 then take_varint b (\<lambda>len b. body stream_id offset len b)
            else body stream_id offset (cap b) b)
      in take_varint b (\<lambda>stream_id b.
           if first AND 0x04 \<noteq> 0 then take_varint b (\<lambda>offset b. with_len stream_id offset b)
           else with_len stream_id 0 b))"

definition parse_datagram_frame :: "u64 \<Rightarrow> octets \<Rightarrow> (error, ('rep, 'src, 'meta) frame \<times> octets) res" where
  "parse_datagram_frame ty b =
     (let first = ty mod 2 ^ 8;
          body = (\<lambda>len b. take_bytes len b (\<lambda>data b. Ok (Datagram (o_buf data), b)))
      in if first AND 0x01 \<noteq> 0 then take_varint b (\<lambda>len b. body len b) else body (cap b) b)"

definition parse_stream_frames ::
    "u64 \<Rightarrow> octets \<Rightarrow> (error, ('rep, 'src, 'meta) frame \<times> octets) res" where
  "parse_stream_frames frame_type b =
     (if frame_type = 0x00 then and_then (parse_padding b 1) (\<lambda>(len, b). Ok (Padding len, b))
      else if frame_type = 0x01 then Ok (Ping None, b)
      else if 0x02 \<le> frame_type \<and> frame_type \<le> 0x03 then parse_ack_frame frame_type b
      else if frame_type = 0x04 then
        take_varint b (\<lambda>stream_id b. take_varint b (\<lambda>error_code b. take_varint b (\<lambda>final_size b.
          Ok (ResetStream stream_id error_code final_size, b))))
      else if frame_type = 0x05 then
        take_varint b (\<lambda>stream_id b. take_varint b (\<lambda>error_code b.
          Ok (StopSending stream_id error_code, b)))
      else if frame_type = 0x06 then
        take_varint b (\<lambda>offset b. take_bytes_varint b (\<lambda>data b.
          Ok (Crypto (rb_from (as_ref data) offset False), b)))
      else if frame_type = 0x07 then
        take_varint b (\<lambda>len b. if len = 0 then Err InvalidFrame
          else take_bytes len b (\<lambda>token b. Ok (NewToken (to_vec token), b)))
      else parse_stream_frame frame_type b)"

definition parse_control_frames ::
    "u64 \<Rightarrow> octets \<Rightarrow> (error, ('rep, 'src, 'meta) frame \<times> octets) res" where
  "parse_control_frames frame_type b =
     (if frame_type = 0x10 then take_varint b (\<lambda>max b. Ok (MaxData max, b))
      else if frame_type = 0x11 then
        take_varint b (\<lambda>stream_id b. take_varint b (\<lambda>max b. Ok (MaxStreamData stream_id max, b)))
      else if frame_type = 0x12 then take_varint b (\<lambda>max b. Ok (MaxStreamsBidi max, b))
      else if frame_type = 0x13 then take_varint b (\<lambda>max b. Ok (MaxStreamsUni max, b))
      else if frame_type = 0x14 then take_varint b (\<lambda>limit b. Ok (DataBlocked limit, b))
      else if frame_type = 0x15 then
        take_varint b (\<lambda>stream_id b. take_varint b (\<lambda>limit b. Ok (StreamDataBlocked stream_id limit, b)))
      else if frame_type = 0x16 then take_varint b (\<lambda>limit b. Ok (StreamsBlockedBidi limit, b))
      else if frame_type = 0x17 then take_varint b (\<lambda>limit b. Ok (StreamsBlockedUni limit, b))
      else if frame_type = 0x18 then
        take_varint b (\<lambda>seq_num b. take_varint b (\<lambda>retire_prior_to b. take_u8 b (\<lambda>conn_id_len b.
          if \<not> (1 \<le> conn_id_len \<and> conn_id_len \<le> MAX_CID_LEN) then Err InvalidFrame
          else take_bytes conn_id_len b (\<lambda>conn_id b. take_bytes 16 b (\<lambda>reset_token b.
            Ok (NewConnectionId seq_num retire_prior_to (to_vec conn_id) (o_buf reset_token), b))))))
      else if frame_type = 0x19 then take_varint b (\<lambda>seq_num b. Ok (RetireConnectionId seq_num, b))
      else if frame_type = 0x1a then take_bytes 8 b (\<lambda>data b. Ok (PathChallenge (o_buf data), b))
      else if frame_type = 0x1b then take_bytes 8 b (\<lambda>data b. Ok (PathResponse (o_buf data), b))
      else if frame_type = 0x1c then
        take_varint b (\<lambda>error_code b. take_varint b (\<lambda>ft b. take_bytes_varint b (\<lambda>reason b.
          Ok (ConnectionClose error_code ft (to_vec reason), b))))
      else if frame_type = 0x1d then
        take_varint b (\<lambda>error_code b. take_bytes_varint b (\<lambda>reason b.
          Ok (ApplicationClose error_code (to_vec reason), b)))
      else Ok (HandshakeDone, b))"

definition parse_fec_frames ::
    "('rep, 'src, 'meta) networkcoding \<Rightarrow> u64 \<Rightarrow> octets \<Rightarrow> (error, ('rep, 'src, 'meta) frame \<times> octets) res" where
  "parse_fec_frames nc frame_type b =
     (if frame_type = 0x30 \<or> frame_type = 0x31 then parse_datagram_frame frame_type b
      else if frame_type = 0x32 then
        and_then (map_err FECDecoderError (nc_read_repair_symbol nc (to_vec b))) (\<lambda>(n, repair_symbol).
        and_then (q (skip n b)) (\<lambda>b. Ok (Repair repair_symbol, b)))
      else if frame_type = 0x33 then
        (let symbol_size = nc_symbol_size nc
         in and_then (map_err FECDecoderError (nc_read_source_symbol_metadata nc (as_ref b))) (\<lambda>(n, metadata).
            and_then (q (skip n b)) (\<lambda>b.
              if length (as_ref b) > symbol_size then Panic
              else Ok (SourceSymbol (nc_source_new nc metadata
                         (replicate (symbol_size - length (as_ref b)) 0 @ as_ref b)), b))))
      else parse_source_symbol_ack_frame b)"

definition frame_allowed :: "pkt_type \<Rightarrow> ('rep, 'src, 'meta) frame \<Rightarrow> bool" where
  "frame_allowed pkt f =
     (if (case f of Padding _ \<Rightarrow> True | Ping _ \<Rightarrow> True | _ \<Rightarrow> False) then True
      else if pkt = ZeroRTT \<and>
        (case f of ACK _ _ _ \<Rightarrow> True | Crypto _ \<Rightarrow> True | HandshakeDone \<Rightarrow> True | NewToken _ \<Rightarrow> True
           | PathResponse _ \<Rightarrow> True | RetireConnectionId _ \<Rightarrow> True | ConnectionClose _ _ _ \<Rightarrow> True
           | _ \<Rightarrow> False) then False
      else if (case f of ACK _ _ _ \<Rightarrow> True | Crypto _ \<Rightarrow> True | ConnectionClose _ _ _ \<Rightarrow> True | _ \<Rightarrow> False)
        then True
      else if pkt = Short then True
      else if pkt = ZeroRTT then True
      else False)"

definition frame_from_bytes ::
    "('rep, 'src, 'meta) networkcoding \<Rightarrow> octets \<Rightarrow> pkt_type \<Rightarrow> (error, ('rep, 'src, 'meta) frame \<times> octets) res" where
  "frame_from_bytes nc b pkt =
     take_varint b (\<lambda>frame_type b.
     and_then
       (if frame_type \<le> 0x0f then parse_stream_frames frame_type b
        else if 0x10 \<le> frame_type \<and> frame_type \<le> 0x1e then parse_control_frames frame_type b
        else if 0x30 \<le> frame_type \<and> frame_type \<le> 0x34 then parse_fec_frames nc frame_type b
        else Err InvalidFrame)
       (\<lambda>(frame, b). if \<not> frame_allowed pkt frame then Err InvalidPacket else Ok (frame, b)))"

subsection \<open>Writing\<close>

definition put_panic :: put where
  "put_panic b = Panic"

definition encode_crypto_header :: "u64 \<Rightarrow> u64 \<Rightarrow> put list" where
  "encode_crypto_header offset len = [put_varint 0x06, put_varint offset, put_varint_with_len len 2]"

definition encode_stream_header :: "u64 \<Rightarrow> u64 \<Rightarrow> u64 \<Rightarrow> bool \<Rightarrow> put list" where
  "encode_stream_header stream_id offset len fin =
     (let ty = (0x08 OR 0x04) OR 0x02; ty = (if fin then ty OR 0x01 else ty)
      in [put_varint ty, put_varint stream_id, put_varint offset, put_varint_with_len len 2])"

definition encode_dgram_header :: "u64 \<Rightarrow> put list" where
  "encode_dgram_header len = [put_varint (0x30 OR 0x01), put_varint_with_len len 2]"

fun put_ack_blocks :: "u64 \<Rightarrow> range list \<Rightarrow> put list" where
  "put_ack_blocks smallest_ack [] = []"
| "put_ack_blocks smallest_ack ((s, e) # it) =
     (if smallest_ack < e + 1 \<or> e < 1 \<or> e - 1 < s then [put_panic]
      else put_varint (smallest_ack - e - 1) # put_varint ((e - 1) - s) # put_ack_blocks s it)"

definition put_ack_ranges :: "u64 option \<Rightarrow> range_set \<Rightarrow> put list" where
  "put_ack_ranges ack_delay ranges =
     (case rev (rs_iter ranges) of
        [] \<Rightarrow> [put_panic]
      | (s, e) # it \<Rightarrow>
          if e < 1 \<or> e - 1 < s then [put_panic]
          else [put_varint (e - 1)] @ (case ack_delay of Some d \<Rightarrow> [put_varint d] | None \<Rightarrow> [])
               @ [put_varint (length it), put_varint ((e - 1) - s)] @ put_ack_blocks s it)"

fun frame_puts_stream :: "('rep, 'src, 'meta) frame \<Rightarrow> put list" where
  "frame_puts_stream (Padding len) = replicate len (put_varint 0x00)"
| "frame_puts_stream (Ping _) = [put_varint 0x01]"
| "frame_puts_stream (ACK ack_delay ranges ecn_counts) =
     (if ecn_counts = None then [put_varint 0x02] else [put_varint 0x03])
     @ put_ack_ranges (Some ack_delay) ranges
     @ (case ecn_counts of
          Some ecn \<Rightarrow> [put_varint (ect0_count ecn), put_varint (ect1_count ecn), put_varint (ecn_ce_count ecn)]
        | None \<Rightarrow> [])"
| "frame_puts_stream (ResetStream stream_id error_code final_size) =
     [put_varint 0x04, put_varint stream_id, put_varint error_code, put_varint final_size]"
| "frame_puts_stream (StopSending stream_id error_code) =
     [put_varint 0x05, put_varint stream_id, put_varint error_code]"
| "frame_puts_stream (Crypto data) =
     encode_crypto_header (rb_off data) (rb_length data) @ [put_bytes (rb_deref data)]"
| "frame_puts_stream (NewToken token) = [put_varint 0x07, put_varint (length token), put_bytes token]"
| "frame_puts_stream (Stream stream_id data) =
     encode_stream_header stream_id (rb_off data) (rb_length data) (rb_fin data) @ [put_bytes (rb_deref data)]"
| "frame_puts_stream _ = []"

fun frame_puts_control :: "('rep, 'src, 'meta) frame \<Rightarrow> put list" where
  "frame_puts_control (MaxData m) = [put_varint 0x10, put_varint m]"
| "frame_puts_control (MaxStreamData stream_id m) = [put_varint 0x11, put_varint stream_id, put_varint m]"
| "frame_puts_control (MaxStreamsBidi m) = [put_varint 0x12, put_varint m]"
| "frame_puts_control (MaxStreamsUni m) = [put_varint 0x13, put_varint m]"
| "frame_puts_control (DataBlocked limit) = [put_varint 0x14, put_varint limit]"
| "frame_puts_control (StreamDataBlocked stream_id limit) =
     [put_varint 0x15, put_varint stream_id, put_varint limit]"
| "frame_puts_control (StreamsBlockedBidi limit) = [put_varint 0x16, put_varint limit]"
| "frame_puts_control (StreamsBlockedUni limit) = [put_varint 0x17, put_varint limit]"
| "frame_puts_control (NewConnectionId seq_num retire_prior_to conn_id reset_token) =
     [put_varint 0x18, put_varint seq_num, put_varint retire_prior_to,
      put_u8 (length conn_id mod 2 ^ 8), put_bytes conn_id, put_bytes reset_token]"
| "frame_puts_control (RetireConnectionId seq_num) = [put_varint 0x19, put_varint seq_num]"
| "frame_puts_control (PathChallenge data) = [put_varint 0x1a, put_bytes data]"
| "frame_puts_control (PathResponse data) = [put_varint 0x1b, put_bytes data]"
| "frame_puts_control (ConnectionClose error_code frame_type reason) =
     [put_varint 0x1c, put_varint error_code, put_varint frame_type, put_varint (length reason), put_bytes reason]"
| "frame_puts_control (ApplicationClose error_code reason) =
     [put_varint 0x1d, put_varint error_code, put_varint (length reason), put_bytes reason]"
| "frame_puts_control HandshakeDone = [put_varint 0x1e]"
| "frame_puts_control _ = []"

fun frame_puts_fec :: "('rep, 'src, 'meta) networkcoding \<Rightarrow> ('rep, 'src, 'meta) frame \<Rightarrow> put list" where
  "frame_puts_fec nc (Datagram data) = encode_dgram_header (length data) @ [put_bytes data]"
| "frame_puts_fec nc (Repair repair_symbol) = [put_varint 0x32, put_bytes (nc_repair_get nc repair_symbol)]"
| "frame_puts_fec nc (SourceSymbolHeader metadata _) = [put_varint 0x33, put_bytes (nc_metadata_bytes nc metadata)]"
| "frame_puts_fec nc (SourceSymbol source_symbol) =
     [put_varint 0x33, put_bytes (nc_metadata_bytes nc (nc_source_metadata nc source_symbol)),
      put_bytes (nc_source_get nc source_symbol)]"
| "frame_puts_fec nc (SourceSymbolACK ranges) = [put_varint 0x34] @ put_ack_ranges None ranges"
| "frame_puts_fec nc _ = []"

definition frame_puts :: "('rep, 'src, 'meta) networkcoding \<Rightarrow> ('rep, 'src, 'meta) frame \<Rightarrow> put list" where
  "frame_puts nc f = frame_puts_stream f @ frame_puts_control f @ frame_puts_fec nc f"

definition frame_to_bytes ::
    "('rep, 'src, 'meta) networkcoding \<Rightarrow> ('rep, 'src, 'meta) frame \<Rightarrow> octets \<Rightarrow> (error, usize \<times> octets) res" where
  "frame_to_bytes nc f b =
     (let before = cap b
      in and_then (put_seq (frame_puts nc f) b) (\<lambda>b. Ok (before - cap b, b)))"

subsection \<open>Length on the wire and classes of frames\<close>

text \<open>
  \<^verbatim>\<open>wire_len\<close> adds up field lengths, and panics where one of them is undefined (a value of
  \<open>2 ^ 62\<close> or more, an empty set of ranges): \<open>frame_lens\<close> lists them in the same three groups.
\<close>

fun sum_lens :: "usize option list \<Rightarrow> usize option" where
  "sum_lens [] = Some 0"
| "sum_lens (x # xs) = (case x of None \<Rightarrow> None | Some n \<Rightarrow> map_option (\<lambda>m. n + m) (sum_lens xs))"

fun len_ack_blocks :: "u64 \<Rightarrow> range list \<Rightarrow> usize option list" where
  "len_ack_blocks smallest_ack [] = []"
| "len_ack_blocks smallest_ack ((s, e) # it) =
     (if smallest_ack < e + 1 \<or> e < 1 \<or> e - 1 < s then [None]
      else varint_len (smallest_ack - e - 1) # varint_len ((e - 1) - s) # len_ack_blocks s it)"

definition len_ack_ranges :: "u64 option \<Rightarrow> range_set \<Rightarrow> usize option list" where
  "len_ack_ranges ack_delay ranges =
     (case rev (rs_iter ranges) of
        [] \<Rightarrow> [None]
      | (s, e) # it \<Rightarrow>
          if e < 1 \<or> e - 1 < s then [None]
          else [varint_len (e - 1)] @ (case ack_delay of Some d \<Rightarrow> [varint_len d] | None \<Rightarrow> [])
               @ [varint_len (length it), varint_len ((e - 1) - s)] @ len_ack_blocks s it)"

fun frame_lens_stream :: "('rep, 'src, 'meta) frame \<Rightarrow> usize option list" where
  "frame_lens_stream (Padding len) = [Some len]"
| "frame_lens_stream (Ping _) = [Some 1]"
| "frame_lens_stream (ACK ack_delay ranges ecn_counts) =
     [Some 1] @ len_ack_ranges (Some ack_delay) ranges
     @ (case ecn_counts of
          Some ecn \<Rightarrow> [varint_len (ect0_count ecn), varint_len (ect1_count ecn), varint_len (ecn_ce_count ecn)]
        | None \<Rightarrow> [])"
| "frame_lens_stream (ResetStream stream_id error_code final_size) =
     [Some 1, varint_len stream_id, varint_len error_code, varint_len final_size]"
| "frame_lens_stream (StopSending stream_id error_code) =
     [Some 1, varint_len stream_id, varint_len error_code]"
| "frame_lens_stream (Crypto data) =
     [Some 1, varint_len (rb_off data), Some 2, Some (rb_length data)]"
| "frame_lens_stream (CryptoHeader offset len) = [Some 1, varint_len offset, Some 2, Some len]"
| "frame_lens_stream (NewToken token) = [Some 1, varint_len (length token), Some (length token)]"
| "frame_lens_stream (Stream stream_id data) =
     [Some 1, varint_len stream_id, varint_len (rb_off data), Some 2, Some (rb_length data)]"
| "frame_lens_stream (StreamHeader stream_id offset len _) =
     [Some 1, varint_len stream_id, varint_len offset, Some 2, Some len]"
| "frame_lens_stream _ = []"

fun frame_lens_control :: "('rep, 'src, 'meta) frame \<Rightarrow> usize option list" where
  "frame_lens_control (MaxData m) = [Some 1, varint_len m]"
| "frame_lens_control (MaxStreamData stream_id m) = [Some 1, varint_len stream_id, varint_len m]"
| "frame_lens_control (MaxStreamsBidi m) = [Some 1, varint_len m]"
| "frame_lens_control (MaxStreamsUni m) = [Some 1, varint_len m]"
| "frame_lens_control (DataBlocked limit) = [Some 1, varint_len limit]"
| "frame_lens_control (StreamDataBlocked stream_id limit) = [Some 1, varint_len stream_id, varint_len limit]"
| "frame_lens_control (StreamsBlockedBidi limit) = [Some 1, varint_len limit]"
| "frame_lens_control (StreamsBlockedUni limit) = [Some 1, varint_len limit]"
| "frame_lens_control (NewConnectionId seq_num retire_prior_to conn_id reset_token) =
     [Some 1, varint_len seq_num, varint_len retire_prior_to, Some 1, Some (length conn_id),
      Some (length reset_token)]"
| "frame_lens_control (RetireConnectionId seq_num) = [Some 1, varint_len seq_num]"
| "frame_lens_control (PathChallenge _) = [Some 1, Some 8]"
| "frame_lens_control (PathResponse _) = [Some 1, Some 8]"
| "frame_lens_control (ConnectionClose error_code frame_type reason) =
     [Some 1, varint_len error_code, varint_len frame_type, varint_len (length reason), Some (length reason)]"
| "frame_lens_control (ApplicationClose error_code reason) =
     [Some 1, varint_len error_code, varint_len (length reason), Some (length reason)]"
| "frame_lens_control HandshakeDone = [Some 1]"
| "frame_lens_control _ = []"

fun frame_lens_fec :: "('rep, 'src, 'meta) networkcoding \<Rightarrow> ('rep, 'src, 'meta) frame \<Rightarrow> usize option list" where
  "frame_lens_fec nc (Datagram data) = [Some 1, Some 2, Some (length data)]"
| "frame_lens_fec nc (DatagramHeader len) = [Some 1, Some 2, Some len]"
| "frame_lens_fec nc (Repair repair_symbol) = [Some 1, Some (nc_repair_wire_len nc repair_symbol)]"
| "frame_lens_fec nc (SourceSymbolHeader metadata _) = [Some 1, Some (length (nc_metadata_bytes nc metadata))]"
| "frame_lens_fec nc (SourceSymbol source_symbol) =
     [Some 1, Some (length (nc_metadata_bytes nc (nc_source_metadata nc source_symbol))),
      Some (length (nc_source_get nc source_symbol))]"
| "frame_lens_fec nc (SourceSymbolACK ranges) = [Some 1] @ len_ack_ranges None ranges"
| "frame_lens_fec nc _ = []"

definition frame_wire_len :: "('rep, 'src, 'meta) networkcoding \<Rightarrow> ('rep, 'src, 'meta) frame \<Rightarrow> usize option" where
  "frame_wire_len nc f = sum_lens (frame_lens_stream f @ frame_lens_control f @ frame_lens_fec nc f)"

definition ack_eliciting :: "('rep, 'src, 'meta) frame \<Rightarrow> bool" where
  "ack_eliciting f =
     (\<not> (case f of Padding _ \<Rightarrow> True | ACK _ _ _ \<Rightarrow> True | ApplicationClose _ _ \<Rightarrow> True
         | SourceSymbol _ \<Rightarrow> True | SourceSymbolHeader _ _ \<Rightarrow> True | SourceSymbolACK _ \<Rightarrow> True
         | ConnectionClose _ _ _ \<Rightarrow> True | _ \<Rightarrow> False))"

definition probing :: "('rep, 'src, 'meta) frame \<Rightarrow> bool" where
  "probing f =
     (case f of Padding _ \<Rightarrow> True | NewConnectionId _ _ _ _ \<Rightarrow> True | PathChallenge _ \<Rightarrow> True
      | PathResponse _ \<Rightarrow> True | _ \<Rightarrow> False)"

end
