(* ===== verification/FrameWire.thy ===== *)
theory FrameWire
  imports Frame
begin

text \<open>
  The wire format of frames: what \<open>frame_puts\<close> of \<open>Frame\<close> writes, that its length is the one
  \<open>frame_wire_len\<close> announces, and that the parser returns the frame that was written.
\<close>

subsection \<open>The wire format\<close>

text \<open>
  \<open>frame_ok\<close>: the frames a sender builds (fields that fit a variable-length integer, a payload
  that fits the two-byte length field, a non-empty and well-formed set of ranges);
  \<open>enc_frame\<close>: the fields of such a frame on the wire.
\<close>

definition ok_ranges :: "range_set \<Rightarrow> bool" where
  "ok_ranges r \<longleftrightarrow> rs_iter r \<noteq> [] \<and> ranges_wf (rs_iter r) \<and> ranges_nonempty (rs_iter r)
     \<and> snd (last (rs_iter r)) \<le> 2 ^ 62 \<and> length (rs_iter r) < 2 ^ 62"

definition ok_buf :: "range_buf \<Rightarrow> bool" where
  "ok_buf d \<longleftrightarrow> rb_ok d \<and> rb_length d < 2 ^ 14 \<and> rb_off d + rb_length d < 2 ^ 62"

fun frame_ok :: "('rep, 'src, 'meta) frame \<Rightarrow> bool" where
  "frame_ok (Padding n) \<longleftrightarrow> 0 < n"
| "frame_ok (Ping _) \<longleftrightarrow> True"
| "frame_ok (ACK d r e) \<longleftrightarrow> d < 2 ^ 62 \<and> ok_ranges r
     \<and> (case e of Some c \<Rightarrow> ect0_count c < 2 ^ 62 \<and> ect1_count c < 2 ^ 62 \<and> ecn_ce_count c < 2 ^ 62
        | None \<Rightarrow> True)"
| "frame_ok (ResetStream a b c) \<longleftrightarrow> a < 2 ^ 62 \<and> b < 2 ^ 62 \<and> c < 2 ^ 62"
| "frame_ok (StopSending a b) \<longleftrightarrow> a < 2 ^ 62 \<and> b < 2 ^ 62"
| "frame_ok (Crypto d) \<longleftrightarrow> ok_buf d"
| "frame_ok (NewToken t) \<longleftrightarrow> t \<noteq> [] \<and> length t < 2 ^ 62"
| "frame_ok (Stream i d) \<longleftrightarrow> i < 2 ^ 62 \<and> ok_buf d"
| "frame_ok (MaxData m) \<longleftrightarrow> m < 2 ^ 62"
| "frame_ok (MaxStreamData i m) \<longleftrightarrow> i < 2 ^ 62 \<and> m < 2 ^ 62"
| "frame_ok (MaxStreamsBidi m) \<longleftrightarrow> m < 2 ^ 62"
| "frame_ok (MaxStreamsUni m) \<longleftrightarrow> m < 2 ^ 62"
| "frame_ok (DataBlocked m) \<longleftrightarrow> m < 2 ^ 62"
| "frame_ok (StreamDataBlocked i m) \<longleftrightarrow> i < 2 ^ 62 \<and> m < 2 ^ 62"
| "frame_ok (StreamsBlockedBidi m) \<longleftrightarrow> m < 2 ^ 62"
| "frame_ok (StreamsBlockedUni m) \<longleftrightarrow> m < 2 ^ 62"
| "frame_ok (NewConnectionId s r c t) \<longleftrightarrow> s < 2 ^ 62 \<and> r < 2 ^ 62 \<and> 1 \<le> length c
     \<and> length c \<le> MAX_CID_LEN \<and> length t = 16"
| "frame_ok (RetireConnectionId s) \<longleftrightarrow> s < 2 ^ 62"
| "frame_ok (PathChallenge d) \<longleftrightarrow> length d = 8"
| "frame_ok (PathResponse d) \<longleftrightarrow> length d = 8"
| "frame_ok (ConnectionClose e f r) \<longleftrightarrow> e < 2 ^ 62 \<and> f < 2 ^ 62 \<and> length r < 2 ^ 62"
| "frame_ok (ApplicationClose e r) \<longleftrightarrow> e < 2 ^ 62 \<and> length r < 2 ^ 62"
| "frame_ok HandshakeDone \<longleftrightarrow> True"
| "frame_ok (Datagram d) \<longleftrightarrow> length d < 2 ^ 14"
| "frame_ok (SourceSymbolACK r) \<longleftrightarrow> ok_ranges r"
| "frame_ok _ \<longleftrightarrow> False"

fun enc_ack_blocks :: "u64 \<Rightarrow> range list \<Rightarrow> byte list list" where
  "enc_ack_blocks smallest_ack [] = []"
| "enc_ack_blocks smallest_ack ((s, e) # it) =
     enc_varint (smallest_ack - e - 1) # enc_varint ((e - 1) - s) # enc_ack_blocks s it"

definition enc_ack_ranges :: "u64 option \<Rightarrow> range_set \<Rightarrow> byte list list" where
  "enc_ack_ranges ack_delay ranges =
     (let (s, e) = last (rs_iter ranges); it = rev (butlast (rs_iter ranges))
      in [enc_varint (e - 1)] @ (case ack_delay of Some d \<Rightarrow> [enc_varint d] | None \<Rightarrow> [])
         @ [enc_varint (length it), enc_varint ((e - 1) - s)] @ enc_ack_blocks s it)"

fun enc_frame :: "('rep, 'src, 'meta) frame \<Rightarrow> byte list list" where
  "enc_frame (Padding n) = replicate n (enc_varint 0)"
| "enc_frame (Ping _) = [enc_varint 1]"
| "enc_frame (ACK d r e) =
     [enc_varint (if e = None then 0x02 else 0x03)] @ enc_ack_ranges (Some d) r
     @ (case e of Some c \<Rightarrow> [enc_varint (ect0_count c), enc_varint (ect1_count c), enc_varint (ecn_ce_count c)]
        | None \<Rightarrow> [])"
| "enc_frame (ResetStream a b c) = [enc_varint 0x04, enc_varint a, enc_varint b, enc_varint c]"
| "enc_frame (StopSending a b) = [enc_varint 0x05, enc_varint a, enc_varint b]"
| "enc_frame (Crypto d) =
     [enc_varint 0x06, enc_varint (rb_off d), varint_bytes 2 (rb_length d), rb_deref d]"
| "enc_frame (NewToken t) = [enc_varint 0x07, enc_varint (length t), t]"
| "enc_frame (Stream i d) =
     [enc_varint (if rb_fin d then 0x0f else 0x0e), enc_varint i, enc_varint (rb_off d),
      varint_bytes 2 (rb_length d), rb_deref d]"
| "enc_frame (MaxData m) = [enc_varint 0x10, enc_varint m]"
| "enc_frame (MaxStreamData i m) = [enc_varint 0x11, enc_varint i, enc_varint m]"
| "enc_frame (MaxStreamsBidi m) = [enc_varint 0x12, enc_varint m]"
| "enc_frame (MaxStreamsUni m) = [enc_varint 0x13, enc_varint m]"
| "enc_frame (DataBlocked m) = [enc_varint 0x14, enc_varint m]"
| "enc_frame (StreamDataBlocked i m) = [enc_varint 0x15, enc_varint i, enc_varint m]"
| "enc_frame (StreamsBlockedBidi m) = [enc_varint 0x16, enc_varint m]"
| "enc_frame (StreamsBlockedUni m) = [enc_varint 0x17, enc_varint m]"
| "enc_frame (NewConnectionId s r c t) =
     [enc_varint 0x18, enc_varint s, enc_varint r, be_bytes 1 (length c), c, t]"
| "enc_frame (RetireConnectionId s) = [enc_varint 0x19, enc_varint s]"
| "enc_frame (PathChallenge d) = [enc_varint 0x1a, d]"
| "enc_frame (PathResponse d) = [enc_varint 0x1b, d]"
| "enc_frame (ConnectionClose e f r) =
     [enc_varint 0x1c, enc_varint e, enc_varint f, enc_varint (length r), r]"
| "enc_frame (ApplicationClose e r) = [enc_varint 0x1d, enc_varint e, enc_varint (length r), r]"
| "enc_frame HandshakeDone = [enc_varint 0x1e]"
| "enc_frame (Datagram d) = [enc_varint 0x31, varint_bytes 2 (length d), d]"
| "enc_frame (SourceSymbolACK r) = [enc_varint 0x34] @ enc_ack_ranges None r"
| "enc_frame _ = []"

subsection \<open>Descending ranges\<close>

text \<open>The order in which an ACK frame lists its ranges, below the number \<open>sm\<close>.\<close>

fun descending :: "u64 \<Rightarrow> range list \<Rightarrow> bool" where
  "descending sm [] = True"
| "descending sm ((s, e) # it) \<longleftrightarrow> s < e \<and> e < sm \<and> descending s it"

lemma descending_snoc:
  "descending sm (it @ [(s, e)]) \<longleftrightarrow>
     descending sm it \<and> s < e \<and> (if it = [] then e < sm else e < fst (last it))"
proof (induction it arbitrary: sm)
  case (Cons r it)
  then show ?case by (cases r; cases it) auto
qed simp

lemma ranges_wf_ConsD:
  "ranges_wf ((s, e) # rs) \<Longrightarrow> ranges_wf rs \<and> (\<forall>(s', e') \<in> set rs. e < s')"
  by (auto simp: ranges_wf_def)

lemma descending_rev:
  "ranges_wf (xs @ [(s, e)]) \<Longrightarrow> ranges_nonempty (xs @ [(s, e)]) \<Longrightarrow> descending s (rev xs)"
proof (induction xs)
  case (Cons r xs)
  obtain s' e' where r: "r = (s', e')" by (cases r)
  have wf: "ranges_wf (xs @ [(s, e)])" and lt: "\<forall>(a, b) \<in> set (xs @ [(s, e)]). e' < a"
    using ranges_wf_ConsD [of s' e' "xs @ [(s, e)]"] Cons.prems(1) by (auto simp: r)
  have ne: "ranges_nonempty (xs @ [(s, e)])" "s' < e'"
    using Cons.prems(2) by (auto simp: r ranges_nonempty_def)
  have d: "descending s (rev xs)" by (rule Cons.IH [OF wf ne(1)])
  have "if rev xs = [] then e' < s else e' < fst (last (rev xs))"
    using lt by (cases xs) auto
  then show ?case using d ne(2) by (simp add: r descending_snoc)
qed simp

lemma rs_insert_below:
  assumes wf: "rs_wf r" and room: "length (rs_iter r) < rs_capacity r" and se: "s < e"
    and below: "\<forall>(s', e') \<in> set (rs_iter r). e < s'"
  shows "\<exists>r'. rs_insert (s, e) r = Some r' \<and> rs_wf r' \<and> rs_capacity r' = rs_capacity r
           \<and> rs_iter r' = (s, e) # rs_iter r"
proof -
  obtain r' where r': "rs_insert (s, e) r = Some r'" "rs_wf r'" "rs_capacity r' = rs_capacity r"
    "rs_iter r' = insert_spec (s, e) (rs_iter r)"
    using rs_insert_spec [OF wf, of "(s, e)"] room se by auto
  have wfl: "ranges_wf (rs_iter r)" using wf by (simp add: rs_wf_def rs_iter_inner)
  then have le: "\<forall>(s', e') \<in> set (rs_iter r). s' \<le> e'" by (simp add: ranges_wf_def)
  have "left_of (s, e) (rs_iter r) = []" "touching (s, e) (rs_iter r) = []"
    "right_of (s, e) (rs_iter r) = rs_iter r"
    using below le se by (force simp: left_of_def touching_def right_of_def filter_empty_conv filter_id_conv)+
  then show ?thesis using r' by (auto simp: insert_spec_def)
qed

subsection \<open>Writing\<close>

lemma put_ack_blocks_writes:
  "descending sm it \<Longrightarrow> sm \<le> 2 ^ 62 \<Longrightarrow> list_all2 writes (put_ack_blocks sm it) (enc_ack_blocks sm it)"
  by (induction sm it rule: put_ack_blocks.induct) auto

lemma len_ack_blocks_enc:
  "descending sm it \<Longrightarrow> sm \<le> 2 ^ 62 \<Longrightarrow>
     list_all2 (\<lambda>l e. l = Some (length e)) (len_ack_blocks sm it) (enc_ack_blocks sm it)"
  by (induction sm it rule: put_ack_blocks.induct) (auto simp: length_enc_varint_len)

lemma ok_rangesE:
  assumes "ok_ranges r"
  obtains s e it where "rs_iter r = rev it @ [(s, e)]" "s < e" "e \<le> 2 ^ 62" "descending s it"
    "length it < 2 ^ 62"
proof -
  obtain xs s e where i: "rs_iter r = xs @ [(s, e)]"
    using assms by (cases "rs_iter r" rule: rev_cases) (auto simp: ok_ranges_def)
  have "descending s (rev xs)" using assms i descending_rev [of xs s e] by (simp add: ok_ranges_def)
  moreover have "s < e" "e \<le> 2 ^ 62" "length xs < 2 ^ 62"
    using assms by (auto simp: ok_ranges_def i ranges_nonempty_def)
  ultimately show thesis using i by (intro that [of "rev xs" s e]) auto
qed

lemma put_ack_ranges_writes:
  assumes "ok_ranges r" and "case d of Some v \<Rightarrow> v < 2 ^ 62 | None \<Rightarrow> True"
  shows "list_all2 writes (put_ack_ranges d r) (enc_ack_ranges d r)"
    and "list_all2 (\<lambda>l e. l = Some (length e)) (len_ack_ranges d r) (enc_ack_ranges d r)"
proof -
  obtain s e it where i: "rs_iter r = rev it @ [(s, e)]" "s < e" "e \<le> 2 ^ 62" "descending s it"
    "length it < 2 ^ 62"
    using ok_rangesE [OF assms(1)] .
  have w: "list_all2 writes (put_ack_blocks s it) (enc_ack_blocks s it)"
    "list_all2 (\<lambda>l e. l = Some (length e)) (len_ack_blocks s it) (enc_ack_blocks s it)"
    using i put_ack_blocks_writes len_ack_blocks_enc by auto
  show "list_all2 writes (put_ack_ranges d r) (enc_ack_ranges d r)"
    using w(1) i assms(2)
    by (cases d) (simp_all add: put_ack_ranges_def enc_ack_ranges_def)
  show "list_all2 (\<lambda>l e. l = Some (length e)) (len_ack_ranges d r) (enc_ack_ranges d r)"
    using w(2) i assms(2)
    by (cases d) (simp_all add: len_ack_ranges_def enc_ack_ranges_def length_enc_varint_len)
qed

lemma sum_lens_enc:
  "list_all2 (\<lambda>l e. l = Some (length e)) ls es \<Longrightarrow> sum_lens ls = Some (length (concat es))"
  by (induction rule: list_all2_induct) auto

lemma length_enc_small [simp]: "v < 64 \<Longrightarrow> length (enc_varint v) = 1"
  by (simp add: enc_varint_def varint_len_def)

lemma writes_stream_type:
  "0x08 OR 0x04 = (12 :: nat)" "12 OR 0x02 = (14 :: nat)" "14 OR 0x01 = (15 :: nat)" "0x30 OR 0x01 = (49 :: nat)"
  by simp_all

lemma ok_buf_length: "ok_buf d \<Longrightarrow> length (rb_deref d) = rb_length d"
  by (simp add: ok_buf_def rb_length_deref)

lemma frame_puts_writes:
  assumes "frame_ok f"
  shows "list_all2 writes (frame_puts nc f) (enc_frame f)"
proof (cases f)
  case (Padding n)
  then show ?thesis by (simp add: frame_puts_def list_all2_conv_all_nth)
next
  case (ACK d r e)
  then have "list_all2 writes (put_ack_ranges (Some d) r) (enc_ack_ranges (Some d) r)"
    using assms put_ack_ranges_writes(1) [of r "Some d"] by simp
  then show ?thesis using assms
    by (cases e) (simp_all add: ACK frame_puts_def list_all2_appendI)
next
  case (SourceSymbolACK r)
  then show ?thesis
    using assms put_ack_ranges_writes(1) [of r None] by (simp add: frame_puts_def)
qed (use assms in \<open>simp_all add: frame_puts_def encode_crypto_header_def encode_stream_header_def
       encode_dgram_header_def ok_buf_def MAX_CID_LEN_def\<close>)

lemma frame_lens_enc:
  assumes "frame_ok f"
  shows "frame_wire_len nc f = Some (length (concat (enc_frame f)))"
proof -
  have "list_all2 (\<lambda>l e. l = Some (length e))
      (frame_lens_stream f @ frame_lens_control f @ frame_lens_fec nc f) (enc_frame f)"
    if "\<nexists>n. f = Padding n"
  proof (cases f)
    case (ACK d r e)
    then have "list_all2 (\<lambda>l e. l = Some (length e)) (len_ack_ranges (Some d) r) (enc_ack_ranges (Some d) r)"
      using assms put_ack_ranges_writes(2) [of r "Some d"] by simp
    then show ?thesis using assms
      by (cases e) (simp_all add: ACK list_all2_appendI length_enc_varint_len)
  next
    case (SourceSymbolACK r)
    then show ?thesis using assms put_ack_ranges_writes(2) [of r None] by simp
  qed (use assms that in \<open>simp_all add: length_enc_varint_len ok_buf_length ok_buf_def\<close>)
  then show ?thesis
    using assms by (cases "\<nexists>n. f = Padding n") (auto simp: frame_wire_len_def sum_lens_enc length_concat sum_list_replicate)
qed

subsection \<open>Reading\<close>

lemma parse_padding_zeros:
  assumes "rest = [] \<or> hd rest \<noteq> 0"
  shows "parse_padding (cur pre (replicate n 0 @ rest)) len
       = Ok (len + n, cur (pre @ replicate n 0) rest)"
proof (induction n arbitrary: pre len)
  case 0
  have "peek_u8 (cur pre rest) \<noteq> Ok 0"
    using assms by (cases rest) (auto simp: peek_u8_def peek_u_def be_val_def unat_eq_0)
  then show ?case by (subst parse_padding.simps) simp
next
  case (Suc n)
  have p: "peek_u8 (cur pre (replicate (Suc n) 0 @ rest)) = Ok 0"
    by (simp add: peek_u8_def peek_u_def be_val_def)
  have "get_u8 (cur pre (replicate (Suc n) 0 @ rest)) = Ok (0, cur (pre @ [0]) (replicate n 0 @ rest))"
    using advance_cur [of "[0]" pre "replicate n 0 @ rest"]
    by (simp add: get_u8_def get_u_cases be_val_def)
  then show ?case
    using Suc.IH [of "pre @ [0]" "len + 1"] p
    by (subst parse_padding.simps) (simp add: replicate_append_same)
qed

lemma parse_ack_blocks_enc:
  assumes "descending sm it" and "sm \<le> 2 ^ 62" and "rs_wf r" and "rs_capacity r = usize_max"
    and "rs_iter r = (sm, e) # tl (rs_iter r)" and "length (rs_iter r) + length it < 2 ^ 63"
  shows "\<exists>r'. rs_wf r' \<and> rs_iter r' = rev it @ rs_iter r
     \<and> parse_ack_blocks (length it) sm r (cur pre (concat (enc_ack_blocks sm it) @ rest)) k
        = k r' (cur (pre @ concat (enc_ack_blocks sm it)) rest)"
  using assms
proof (induction it arbitrary: sm e r pre)
  case (Cons x it)
  obtain s e' where x: "x = (s, e')" by (cases x)
  have d: "s < e'" "e' < sm" "descending s it" using Cons.prems(1) by (auto simp: x)
  have "ranges_wf (rs_iter r)" using Cons.prems(3) by (simp add: rs_wf_def rs_iter_inner)
  then have "\<forall>(a, b) \<in> set (rs_iter r). sm \<le> a"
    using Cons.prems(5) ranges_wf_ConsD [of sm e "tl (rs_iter r)"]
    by (cases "rs_iter r") (auto simp: ranges_wf_def)
  then have below: "\<forall>(a, b) \<in> set (rs_iter r). e' < a" using d by fastforce
  have "length (rs_iter r) < rs_capacity r" using Cons.prems(4,6) by simp
  then obtain r1 where r1: "rs_insert (s, e') r = Some r1" "rs_wf r1" "rs_capacity r1 = usize_max"
    "rs_iter r1 = (s, e') # rs_iter r"
    using rs_insert_below [OF Cons.prems(3) _ d(1) below] Cons.prems(4) by auto
  let ?g = "enc_varint (sm - e' - 1)" and ?a = "enc_varint ((e' - 1) - s)"
  obtain r' where r': "rs_wf r'" "rs_iter r' = rev it @ rs_iter r1"
    "parse_ack_blocks (length it) s r1 (cur (pre @ ?g @ ?a) (concat (enc_ack_blocks s it) @ rest)) k
      = k r' (cur ((pre @ ?g @ ?a) @ concat (enc_ack_blocks s it)) rest)"
    using Cons.IH [OF d(3) _ r1(2,3), of e' "pre @ ?g @ ?a"] d Cons.prems(2,6) r1(4) by auto
  have v: "sm - (sm - e' - 1) - 2 = e' - 1" "e' - 1 - (e' - 1 - s) = s" "e' - 1 + 1 = e'"
    "\<not> sm < 2 + (sm - e' - 1)" "\<not> e' - 1 < e' - 1 - s"
    "sm - e' - 1 < 2 ^ 62" "e' - 1 - s < 2 ^ 62"
    using d Cons.prems(2) by auto
  have "parse_ack_blocks (length (x # it)) sm r
          (cur pre (concat (enc_ack_blocks sm (x # it)) @ rest)) k
      = parse_ack_blocks (length it) s r1 (cur (pre @ ?g @ ?a) (concat (enc_ack_blocks s it) @ rest)) k"
    using r1(1) v by (simp add: x Let_def del: One_nat_def)
  then show ?case using r' r1(4) by (intro exI [of _ r']) (simp add: x)
qed auto

lemma parse_ack_ranges_enc:
  assumes i: "s < e" "e \<le> 2 ^ 62" "descending s it" "length it < 2 ^ 62"
  shows "\<exists>r'. rs_iter r' = rev it @ [(s, e)]
     \<and> parse_ack_ranges (e - 1) (length it) (e - 1 - s) (cur pre (concat (enc_ack_blocks s it) @ rest)) k
        = k r' (cur (pre @ concat (enc_ack_blocks s it)) rest)"
proof -
  have d: "rs_wf rs_default" "rs_iter rs_default = []" "rs_capacity rs_default = usize_max"
    by (simp_all add: rs_default_def rs_wf_def ranges_wf_def rs_iter_def MAX_INLINE_CAPACITY_def)
  obtain r1 where r1: "rs_insert (s, e) rs_default = Some r1" "rs_wf r1" "rs_capacity r1 = usize_max"
    "rs_iter r1 = [(s, e)]"
    using rs_insert_below [OF d(1) _ i(1)] d(2,3) by auto
  obtain r' where r': "rs_iter r' = rev it @ rs_iter r1"
    "parse_ack_blocks (length it) s r1 (cur pre (concat (enc_ack_blocks s it) @ rest)) k
      = k r' (cur (pre @ concat (enc_ack_blocks s it)) rest)"
    using parse_ack_blocks_enc [OF i(3) _ r1(2,3), of e pre rest k] i r1(4) by auto
  have v: "\<not> e - 1 < e - 1 - s" "e - 1 - (e - 1 - s) = s" "e - 1 + 1 = e" using i(1) by auto
  have "parse_ack_ranges (e - 1) (length it) (e - 1 - s) (cur pre (concat (enc_ack_blocks s it) @ rest)) k
      = parse_ack_blocks (length it) s r1 (cur pre (concat (enc_ack_blocks s it) @ rest)) k"
    unfolding parse_ack_ranges_def using v r1(1) by (simp add: Let_def del: One_nat_def)
  then show ?thesis using r' r1(4) by (intro exI [of _ r']) simp
qed

text \<open>
  \<open>same_frame f f'\<close>: \<open>f'\<close> carries what \<open>f\<close> does: the same ranges in whichever representation,
  the same stream bytes at the same offset, and no record of an MTU probe.
\<close>

definition same_frame :: "('rep, 'src, 'meta) frame \<Rightarrow> ('rep, 'src, 'meta) frame \<Rightarrow> bool" where
  "same_frame f f' \<longleftrightarrow>
     (case f of
        Ping _ \<Rightarrow> f' = Ping None
      | ACK d r e \<Rightarrow> (\<exists>r'. f' = ACK d r' e \<and> rs_iter r' = rs_iter r)
      | SourceSymbolACK r \<Rightarrow> (\<exists>r'. f' = SourceSymbolACK r' \<and> rs_iter r' = rs_iter r)
      | Crypto d \<Rightarrow> (\<exists>d'. f' = Crypto d' \<and> rb_ok d' \<and> rb_off d' = rb_off d \<and> rb_deref d' = rb_deref d)
      | Stream i d \<Rightarrow> (\<exists>d'. f' = Stream i d' \<and> rb_ok d' \<and> rb_off d' = rb_off d
                          \<and> rb_deref d' = rb_deref d \<and> rb_fin d' = rb_fin d)
      | _ \<Rightarrow> f' = f)"

lemmas parse_defs = frame_from_bytes_def parse_stream_frames_def parse_control_frames_def
  parse_fec_frames_def

lemma frame_allowed_cong:
  "frame_allowed pkt (ACK d r e) = frame_allowed pkt (ACK d' r' e')"
  "frame_allowed pkt (SourceSymbolACK r) = frame_allowed pkt (SourceSymbolACK r')"
  "frame_allowed pkt (Crypto x) = frame_allowed pkt (Crypto x')"
  "frame_allowed pkt (Stream i x) = frame_allowed pkt (Stream i x')"
  "frame_allowed pkt (Ping p)"
  by (simp_all add: frame_allowed_def)

lemma ecn_counts_eta [simp]:
  "\<lparr>ect0_count = ect0_count c, ect1_count = ect1_count c, ecn_ce_count = ecn_ce_count c\<rparr> = c"
  by (cases c) simp

lemma parse_ack_enc:
  fixes nc :: "('rep, 'src, 'meta) networkcoding"
  assumes ok: "frame_ok (ACK d r ecn :: ('rep, 'src, 'meta) frame)"
    and al: "frame_allowed pkt (ACK d r ecn :: ('rep, 'src, 'meta) frame)"
  shows "\<exists>r'. rs_iter r' = rs_iter r
     \<and> frame_from_bytes nc (cur pre (concat (enc_frame (ACK d r ecn :: ('rep, 'src, 'meta) frame)) @ rest)) pkt
        = Ok (ACK d r' ecn, cur (pre @ concat (enc_frame (ACK d r ecn :: ('rep, 'src, 'meta) frame))) rest)"
proof -
  have "ok_ranges r" using ok by simp
  then obtain s e it where i: "rs_iter r = rev it @ [(s, e)]" "s < e" "e \<le> 2 ^ 62" "descending s it"
    "length it < 2 ^ 62"
    by (rule ok_rangesE)
  have al': "frame_allowed pkt (ACK d r' ecn :: ('rep, 'src, 'meta) frame)" for r'
    using al frame_allowed_cong(1) by blast
  show ?thesis
  proof (cases ecn)
    case None
    let ?k = "\<lambda>ranges b. Ok (ACK d ranges None :: ('rep, 'src, 'meta) frame, b)"
    obtain r' where r': "rs_iter r' = rev it @ [(s, e)]"
      "parse_ack_ranges (e - 1) (length it) (e - 1 - s)
          (cur (pre @ enc_varint 2 @ enc_varint (e - 1) @ enc_varint d @ enc_varint (length it) @ enc_varint (e - 1 - s))
             (concat (enc_ack_blocks s it) @ rest)) ?k
        = ?k r' (cur ((pre @ enc_varint 2 @ enc_varint (e - 1) @ enc_varint d @ enc_varint (length it)
             @ enc_varint (e - 1 - s)) @ concat (enc_ack_blocks s it)) rest)"
      using parse_ack_ranges_enc [OF i(2-5)] by blast
    show ?thesis
      using ok al' r' i
      by (intro exI [of _ r'])
        (simp add: None parse_defs parse_ack_frame_def enc_ack_ranges_def del: One_nat_def,
         (simp add: None del: One_nat_def)?)
  next
    case (Some c)
    let ?k = "\<lambda>ranges b. take_varint b (\<lambda>ect0 b. take_varint b (\<lambda>ect1 b. take_varint b (\<lambda>ecn_ce b.
               Ok (ACK d ranges (Some \<lparr>ect0_count = ect0, ect1_count = ect1,
                       ecn_ce_count = ecn_ce\<rparr>) :: ('rep, 'src, 'meta) frame, b))))"
    let ?c = "enc_varint (ect0_count c) @ enc_varint (ect1_count c) @ enc_varint (ecn_ce_count c)"
    obtain r' where r': "rs_iter r' = rev it @ [(s, e)]"
      "parse_ack_ranges (e - 1) (length it) (e - 1 - s)
          (cur (pre @ enc_varint 3 @ enc_varint (e - 1) @ enc_varint d @ enc_varint (length it) @ enc_varint (e - 1 - s))
             (concat (enc_ack_blocks s it) @ ?c @ rest)) ?k
        = ?k r' (cur ((pre @ enc_varint 3 @ enc_varint (e - 1) @ enc_varint d @ enc_varint (length it)
             @ enc_varint (e - 1 - s)) @ concat (enc_ack_blocks s it)) (?c @ rest))"
      using parse_ack_ranges_enc [OF i(2-5)] by blast
    show ?thesis
      using ok al' r' i
      by (intro exI [of _ r'])
        (simp add: Some parse_defs parse_ack_frame_def enc_ack_ranges_def del: One_nat_def,
         (simp add: Some del: One_nat_def)?)
  qed
qed

lemma parse_source_symbol_ack_enc:
  fixes nc :: "('rep, 'src, 'meta) networkcoding"
  assumes ok: "frame_ok (SourceSymbolACK r :: ('rep, 'src, 'meta) frame)"
    and al: "frame_allowed pkt (SourceSymbolACK r :: ('rep, 'src, 'meta) frame)"
  shows "\<exists>r'. rs_iter r' = rs_iter r
     \<and> frame_from_bytes nc (cur pre (concat (enc_frame (SourceSymbolACK r :: ('rep, 'src, 'meta) frame)) @ rest)) pkt
        = Ok (SourceSymbolACK r', cur (pre @ concat (enc_frame (SourceSymbolACK r :: ('rep, 'src, 'meta) frame))) rest)"
proof -
  have "ok_ranges r" using ok by simp
  then obtain s e it where i: "rs_iter r = rev it @ [(s, e)]" "s < e" "e \<le> 2 ^ 62" "descending s it"
    "length it < 2 ^ 62"
    by (rule ok_rangesE)
  have al': "frame_allowed pkt (SourceSymbolACK r' :: ('rep, 'src, 'meta) frame)" for r'
    using al frame_allowed_cong(2) by blast
  let ?k = "\<lambda>ranges b. Ok (SourceSymbolACK ranges :: ('rep, 'src, 'meta) frame, b)"
  let ?p = "pre @ enc_varint 0x34 @ enc_varint (e - 1) @ enc_varint (length it) @ enc_varint (e - 1 - s)"
  obtain r' where r': "rs_iter r' = rev it @ [(s, e)]"
    "parse_ack_ranges (e - 1) (length it) (e - 1 - s) (cur ?p (concat (enc_ack_blocks s it) @ rest)) ?k
      = ?k r' (cur (?p @ concat (enc_ack_blocks s it)) rest)"
    using parse_ack_ranges_enc [OF i(2-5)] by blast
  show ?thesis
    using ok al' r' i
    by (intro exI [of _ r'])
      (simp add: parse_defs parse_source_symbol_ack_frame_def enc_ack_ranges_def del: One_nat_def,
       (simp del: One_nat_def)?)
qed

lemma enc_varint_0: "enc_varint 0 = [0]"
  by (simp add: enc_varint_def varint_len_def varint_bytes_def varint_tag_def be_bytes.simps(2))

lemma parse_padding_enc:
  assumes "0 < n" and "rest = [] \<or> hd rest \<noteq> 0"
  shows "frame_from_bytes nc (cur pre (concat (replicate n (enc_varint 0)) @ rest)) pkt
       = Ok (Padding n, cur (pre @ concat (replicate n (enc_varint 0))) rest)"
proof -
  obtain m where n: "n = Suc m" using assms(1) by (cases n) auto
  have c: "concat (replicate k (enc_varint 0)) = replicate k 0" for k
    by (induction k) (simp_all add: enc_varint_0)
  have "parse_padding (cur (pre @ enc_varint 0) (replicate m 0 @ rest)) 1
      = Ok (1 + m, cur ((pre @ enc_varint 0) @ replicate m 0) rest)"
    by (rule parse_padding_zeros [OF assms(2)])
  moreover have "frame_allowed pkt (Padding k)" for k by (simp add: frame_allowed_def)
  ultimately show ?thesis by (simp add: n c parse_defs)
qed

lemma frame_parse_enc:
  fixes f :: "('rep, 'src, 'meta) frame"
  assumes ok: "frame_ok f" and al: "frame_allowed pkt f"
    and pad: "\<And>n. f = Padding n \<Longrightarrow> rest = [] \<or> hd rest \<noteq> 0"
  shows "\<exists>f'. same_frame f f' \<and> frame_from_bytes nc (cur pre (concat (enc_frame f) @ rest)) pkt
     = Ok (f', cur (pre @ concat (enc_frame f)) rest)"
proof (cases f)
  case (Padding n)
  then show ?thesis using ok pad parse_padding_enc [of n rest nc pre pkt] by (auto simp: same_frame_def)
next
  case (ACK d r ecn)
  then show ?thesis
    using ok al parse_ack_enc [of d r ecn pkt nc pre rest]
    by (auto simp: same_frame_def simp del: enc_frame.simps)
next
  case (SourceSymbolACK r)
  then show ?thesis
    using ok al parse_source_symbol_ack_enc [of r pkt nc pre rest]
    by (auto simp: same_frame_def simp del: enc_frame.simps)
next
  case (Crypto d)
  then have d: "ok_buf d" and len: "rb_length d = length (rb_deref d)"
    using ok ok_buf_length by auto
  have al': "frame_allowed pkt (Crypto x :: ('rep, 'src, 'meta) frame)" for x
    using al Crypto frame_allowed_cong(3) by metis
  have "frame_from_bytes nc (cur pre (concat (enc_frame f) @ rest)) pkt
     = Ok (Crypto (rb_from (rb_deref d) (rb_off d) False), cur (pre @ concat (enc_frame f)) rest)"
    using d al' by (simp add: Crypto parse_defs ok_buf_def len)
  then show ?thesis by (simp add: same_frame_def Crypto)
next
  case (Stream i d)
  then have d: "ok_buf d" and len: "rb_length d = length (rb_deref d)"
    using ok ok_buf_length by auto
  have al': "frame_allowed pkt (Stream i x :: ('rep, 'src, 'meta) frame)" for x
    using al Stream frame_allowed_cong(4) by metis
  have "frame_from_bytes nc (cur pre (concat (enc_frame f) @ rest)) pkt
     = Ok (Stream i (rb_from (rb_deref d) (rb_off d) (rb_fin d)), cur (pre @ concat (enc_frame f)) rest)"
    using d ok al'
    by (cases "rb_fin d")
      (simp_all add: Stream parse_defs parse_stream_frame_def ok_buf_def len MAX_STREAM_SIZE_def)
  then show ?thesis by (simp add: same_frame_def Stream)
qed (use ok al in \<open>simp_all add: same_frame_def parse_defs frame_allowed_cong
       parse_datagram_frame_def MAX_CID_LEN_def\<close>)

subsection \<open>Parsing arbitrary bytes\<close>

lemma parse_padding_holds:
  "octets_ok b \<Longrightarrow> 0 < len \<Longrightarrow> holds (\<lambda>(n, b'). 0 < n \<and> after b b') (parse_padding b len)"
proof (induction b len rule: parse_padding.induct)
  case (1 b len)
  show ?case
  proof (cases "peek_u8 b = Ok 0")
    case True
    then have one: "1 \<le> length (as_ref b)"
      by (cases "as_ref b") (auto simp: peek_u8_def peek_u_def)
    let ?v = "be_val (take 1 (as_ref b))"
    have g: "get_u8 b = Ok (?v, advance 1 b)" using one by (simp add: get_u8_def get_u_cases)
    have a: "after b (advance 1 b)" using "1.prems"(1) one by (rule after_advance)
    have "holds (\<lambda>(n, b'). 0 < n \<and> after (advance 1 b) b') (parse_padding (advance 1 b) (len + 1))"
      by (rule "1.IH" [OF True g refl after_ok [OF a]]) simp
    then have "holds (\<lambda>(n, b'). 0 < n \<and> after b b') (parse_padding (advance 1 b) (len + 1))"
      by (rule holds_weaken) (use after_trans [OF a] in auto)
    then show ?thesis using True g by (subst parse_padding.simps) simp
  next
    case False
    then show ?thesis using "1.prems" by (subst parse_padding.simps) simp
  qed
qed

lemma parse_ack_blocks_holds:
  assumes "rs_wf r" and "rs_capacity r = usize_max" and "\<forall>(a, b) \<in> set (rs_iter r). sm \<le> a"
    and "length (rs_iter r) + sm \<le> 2 ^ 63" and "octets_ok b"
    and "\<And>r' b'. after b b' \<Longrightarrow> rs_wf r' \<Longrightarrow> holds P (k r' b')"
  shows "holds P (parse_ack_blocks n sm r b k)"
  using assms
proof (induction n arbitrary: sm r b)
  case (Suc n)
  show ?case
    unfolding parse_ack_blocks.simps Let_def
  proof (rule holds_take_varint [OF Suc.prems(5)])
    fix gap b1
    assume b1: "after b b1"
    show "holds P (if sm < 2 + gap then Err InvalidFrame
       else take_varint b1 (\<lambda>ack_block b. if sm - gap - 2 < ack_block then Err InvalidFrame
         else and_then (or_panic (rs_insert (sm - gap - 2 - ack_block, sm - gap - 2 + 1) r))
           (\<lambda>ranges. parse_ack_blocks n (sm - gap - 2 - ack_block) ranges b k)))"
    proof (cases "sm < 2 + gap")
      case False
      have "holds P (take_varint b1 (\<lambda>ack_block b. if sm - gap - 2 < ack_block then Err InvalidFrame
         else and_then (or_panic (rs_insert (sm - gap - 2 - ack_block, sm - gap - 2 + 1) r))
           (\<lambda>ranges. parse_ack_blocks n (sm - gap - 2 - ack_block) ranges b k)))"
      proof (rule holds_take_varint [OF after_ok [OF b1]])
        fix v b2
        assume b2: "after b1 b2"
        let ?s = "sm - gap - 2 - v" and ?e = "sm - gap - 2 + 1"
        show "holds P (if sm - gap - 2 < v then Err InvalidFrame
          else and_then (or_panic (rs_insert (?s, ?e) r)) (\<lambda>ranges. parse_ack_blocks n ?s ranges b2 k))"
        proof (cases "sm - gap - 2 < v")
          case v: False
          have below: "\<forall>(a, b) \<in> set (rs_iter r). ?e < a" and se: "?s < ?e"
            using Suc.prems(3) False by fastforce+
          obtain r1 where r1: "rs_insert (?s, ?e) r = Some r1" "rs_wf r1" "rs_capacity r1 = usize_max"
            "rs_iter r1 = (?s, ?e) # rs_iter r"
            using rs_insert_below [OF Suc.prems(1) _ se below] Suc.prems(2,4) by auto
          have "holds P (parse_ack_blocks n ?s r1 b2 k)"
          proof (rule Suc.IH [OF r1(2,3)])
            show "\<forall>(a, b) \<in> set (rs_iter r1). ?s \<le> a" using below se by (fastforce simp: r1(4))
            show "length (rs_iter r1) + ?s \<le> 2 ^ 63" using Suc.prems(4) False by (simp add: r1(4))
            show "octets_ok b2" using after_ok [OF b2] .
            show "holds P (k r' b')" if "after b2 b'" "rs_wf r'" for r' b'
              using Suc.prems(6) after_trans [OF after_trans [OF b1 b2]] that by blast
          qed
          then show ?thesis using v r1(1) by simp
        qed simp
      qed
      then show ?thesis using False by simp
    qed simp
  qed
qed simp

lemma parse_ack_ranges_holds:
  assumes "largest < 2 ^ 62" and "octets_ok b"
    and "\<And>r' b'. after b b' \<Longrightarrow> rs_wf r' \<Longrightarrow> holds P (k r' b')"
  shows "holds P (parse_ack_ranges largest n ack_block b k)"
proof (cases "largest < ack_block")
  case False
  have d: "rs_wf rs_default" "rs_iter rs_default = []" "rs_capacity rs_default = usize_max"
    by (simp_all add: rs_default_def rs_wf_def ranges_wf_def rs_iter_def MAX_INLINE_CAPACITY_def)
  have se: "largest - ack_block < largest + 1" by simp
  obtain r1 where r1: "rs_insert (largest - ack_block, largest + 1) rs_default = Some r1" "rs_wf r1"
    "rs_capacity r1 = usize_max" "rs_iter r1 = [(largest - ack_block, largest + 1)]"
    using rs_insert_below [OF d(1) _ se] d(2,3) by auto
  have "holds P (parse_ack_blocks n (largest - ack_block) r1 b k)"
    by (rule parse_ack_blocks_holds [OF r1(2,3)]) (use assms in \<open>auto simp: r1(4)\<close>)
  then show ?thesis using False r1(1) by (simp add: parse_ack_ranges_def)
qed (simp add: parse_ack_ranges_def)

text \<open>\<open>walk\<close>: the same rules, with every cursor compared to the one the parser started from.\<close>

lemma walk_varint:
  "after b0 b \<Longrightarrow> (\<And>v b'. v < 2 ^ 62 \<Longrightarrow> after b0 b' \<Longrightarrow> holds P (k v b')) \<Longrightarrow> holds P (take_varint b k)"
  by (rule holds_take_varint [OF after_ok]) (auto dest: after_trans)

lemma walk_u8:
  "after b0 b \<Longrightarrow> (\<And>v b'. after b0 b' \<Longrightarrow> holds P (k v b')) \<Longrightarrow> holds P (take_u8 b k)"
  by (rule holds_take_u8 [OF after_ok]) (auto dest: after_trans)

lemma walk_bytes:
  "after b0 b \<Longrightarrow>
     (\<And>d b'. o_off d = 0 \<Longrightarrow> length (o_buf d) = n \<Longrightarrow> after b0 b' \<Longrightarrow> holds P (k d b')) \<Longrightarrow>
     holds P (take_bytes n b k)"
  by (rule holds_take_bytes [OF after_ok]) (auto dest: after_trans simp: to_vec_def as_ref_def)

lemma walk_bytes_varint:
  "after b0 b \<Longrightarrow> (\<And>d b'. after b0 b' \<Longrightarrow> holds P (k d b')) \<Longrightarrow> holds P (take_bytes_varint b k)"
  by (rule holds_take_bytes_varint [OF after_ok]) (auto dest: after_trans)

lemma walk_ack_ranges:
  "after b0 b \<Longrightarrow> largest < 2 ^ 62 \<Longrightarrow> (\<And>r b'. rs_wf r \<Longrightarrow> after b0 b' \<Longrightarrow> holds P (k r b')) \<Longrightarrow>
     holds P (parse_ack_ranges largest n ack_block b k)"
  by (rule parse_ack_ranges_holds [OF _ after_ok]) (auto dest: after_trans)

lemmas walk = walk_varint walk_u8 walk_bytes walk_bytes_varint walk_ack_ranges

text \<open>What the parser guarantees of a frame it accepts.\<close>

fun frame_shape :: "('rep, 'src, 'meta) frame \<Rightarrow> bool" where
  "frame_shape (Padding n) \<longleftrightarrow> 0 < n"
| "frame_shape (ACK _ r _) \<longleftrightarrow> rs_wf r"
| "frame_shape (SourceSymbolACK r) \<longleftrightarrow> rs_wf r"
| "frame_shape (Stream _ d) \<longleftrightarrow> rb_ok d \<and> rb_max_off d < 2 ^ 62"
| "frame_shape (Crypto d) \<longleftrightarrow> rb_ok d"
| "frame_shape (NewToken t) \<longleftrightarrow> t \<noteq> []"
| "frame_shape (NewConnectionId _ _ c t) \<longleftrightarrow> 1 \<le> length c \<and> length c \<le> 20 \<and> length t = 16"
| "frame_shape (PathChallenge d) \<longleftrightarrow> length d = 8"
| "frame_shape (PathResponse d) \<longleftrightarrow> length d = 8"
| "frame_shape _ \<longleftrightarrow> True"

definition parsed_in :: "octets \<Rightarrow> ('rep, 'src, 'meta) frame \<times> octets \<Rightarrow> bool" where
  "parsed_in b r \<longleftrightarrow> after b (snd r) \<and> frame_shape (fst r)"

lemma parsed_in_simp [simp]: "parsed_in b (f, b') \<longleftrightarrow> after b b' \<and> frame_shape f"
  by (simp add: parsed_in_def)

lemma parse_ack_frame_holds: "after b0 b \<Longrightarrow> holds (parsed_in b0) (parse_ack_frame ty b)"
  unfolding parse_ack_frame_def Let_def by (auto intro!: walk [of b0])

lemma parse_stream_frame_holds: "after b0 b \<Longrightarrow> holds (parsed_in b0) (parse_stream_frame ty b)"
  unfolding parse_stream_frame_def Let_def
  by (auto intro!: walk [of b0] simp: MAX_STREAM_SIZE_def as_ref_def)

lemma parse_datagram_frame_holds: "after b0 b \<Longrightarrow> holds (parsed_in b0) (parse_datagram_frame ty b)"
  unfolding parse_datagram_frame_def Let_def by (auto intro!: walk [of b0])

lemma parse_source_symbol_ack_holds:
  "after b0 b \<Longrightarrow> holds (parsed_in b0) (parse_source_symbol_ack_frame b)"
  unfolding parse_source_symbol_ack_frame_def by (auto intro!: walk [of b0])

lemma parse_stream_frames_holds:
  assumes b: "after b0 b"
  shows "holds (parsed_in b0) (parse_stream_frames ty b)"
proof -
  have "holds (\<lambda>(n, b'). 0 < n \<and> after b0 b') (parse_padding b 1)"
    by (rule holds_weaken [OF parse_padding_holds [OF after_ok [OF b]]])
      (use after_trans [OF b] in auto)
  then have pad: "holds (parsed_in b0) (and_then (parse_padding b 1) (\<lambda>(len, b). Ok (Padding len, b)))"
    by (rule holds_and_then) auto
  show ?thesis
    using b pad unfolding parse_stream_frames_def
    by (auto intro!: walk [of b0] parse_ack_frame_holds parse_stream_frame_holds
        simp: to_vec_def as_ref_def)
qed

lemma parse_control_frames_holds:
  "after b0 b \<Longrightarrow> holds (parsed_in b0) (parse_control_frames ty b)"
  unfolding parse_control_frames_def
  by (auto intro!: walk [of b0] simp: to_vec_def as_ref_def MAX_CID_LEN_def)

definition nc_total :: "('rep, 'src, 'meta) networkcoding \<Rightarrow> bool" where
  "nc_total nc \<longleftrightarrow> (\<forall>bs. nc_read_repair_symbol nc bs \<noteq> Panic \<and> nc_read_source_symbol_metadata nc bs \<noteq> Panic)"

lemma skip_after: "after b0 b \<Longrightarrow> holds (after b0) (q (skip n b))"
  by (auto simp: skip_def after_def octets_ok_def cap_def)

lemma parse_fec_frames_holds:
  fixes nc :: "('rep, 'src, 'meta) networkcoding"
  assumes nc: "nc_total nc" and b: "after b0 b" and size: "length (as_ref b0) \<le> nc_symbol_size nc"
  shows "holds (parsed_in b0) (parse_fec_frames nc ty b)"
proof -
  have fits: "\<not> nc_symbol_size nc < length (as_ref b')" if "after b0 b'" for b'
    using that size by (auto simp: after_def as_ref_def)
  have r: "holds (\<lambda>_. True) (map_err FECDecoderError (nc_read_repair_symbol nc bs))"
    "holds (\<lambda>_. True) (map_err FECDecoderError (nc_read_source_symbol_metadata nc bs))" for bs
    using nc by (cases "nc_read_repair_symbol nc bs"; cases "nc_read_source_symbol_metadata nc bs";
        simp add: nc_total_def; metis)+
  have repair: "holds (parsed_in b0)
      (and_then (map_err FECDecoderError (nc_read_repair_symbol nc (to_vec b))) (\<lambda>(n, repair_symbol).
        and_then (q (skip n b)) (\<lambda>b. Ok (Repair repair_symbol :: ('rep, 'src, 'meta) frame, b))))"
    by (rule holds_and_then [OF r(1)]) (auto intro!: holds_and_then [OF skip_after [OF b]])
  have source: "holds (parsed_in b0)
      (and_then (map_err FECDecoderError (nc_read_source_symbol_metadata nc (as_ref b))) (\<lambda>(n, metadata).
        and_then (q (skip n b)) (\<lambda>b.
          if length (as_ref b) > nc_symbol_size nc then Panic
          else Ok (SourceSymbol (nc_source_new nc metadata
                (replicate (nc_symbol_size nc - length (as_ref b)) 0 @ as_ref b))
                  :: ('rep, 'src, 'meta) frame, b))))"
    by (rule holds_and_then [OF r(2)])
      (auto intro!: holds_and_then [OF skip_after [OF b]] simp: fits)
  show ?thesis
    using repair source
    by (simp add: parse_fec_frames_def Let_def parse_datagram_frame_holds [OF b]
        parse_source_symbol_ack_holds [OF b])
qed

lemma frame_from_bytes_holds:
  fixes nc :: "('rep, 'src, 'meta) networkcoding"
  assumes nc: "nc_total nc" and b: "octets_ok b" and size: "length (as_ref b) \<le> nc_symbol_size nc"
  shows "holds (\<lambda>r. parsed_in b r \<and> frame_allowed pkt (fst r)) (frame_from_bytes nc b pkt)"
  unfolding frame_from_bytes_def
proof (rule walk_varint [of b b], goal_cases)
  case 1
  then show ?case using b by simp
next
  case (2 ty b1)
  show ?case
  proof (rule holds_and_then [of "parsed_in b"], goal_cases)
    case 1
    then show ?case
      using parse_stream_frames_holds parse_control_frames_holds parse_fec_frames_holds [OF nc] size 2
      by auto
  next
    case (2 x)
    then show ?case by (cases x) auto
  qed
qed

lemma frame_to_bytes_enc:
  assumes "frame_ok f" and "octets_ok b"
  shows "frame_to_bytes nc f b =
    (let bs = concat (enc_frame f)
     in if length bs \<le> cap b
        then Ok (length bs, b\<lparr>o_buf := overwrite (o_off b) bs (o_buf b), o_off := o_off b + length bs\<rparr>)
        else Err BufferTooShort)"
proof -
  let ?bs = "concat (enc_frame f)"
  have p: "put_seq (frame_puts nc f) b = q (write_bytes ?bs b)"
    by (rule put_seq_writes [OF frame_puts_writes [OF assms(1)] assms(2)])
  have "cap b - cap (b\<lparr>o_buf := overwrite (o_off b) ?bs (o_buf b), o_off := o_off b + length ?bs\<rparr>) = length ?bs"
    if "length ?bs \<le> cap b"
    using that assms(2) by (simp add: cap_def octets_ok_def)
  then show ?thesis by (simp add: frame_to_bytes_def p write_bytes_def Let_def)
qed

subsection \<open>Properties\<close>


definition sample_nc :: "(byte list, byte list \<times> byte list, byte list) networkcoding" where
  "sample_nc = \<lparr>nc_symbol_size = 16,
     nc_read_repair_symbol = (\<lambda>bs. Ok (length bs, bs)),
     nc_read_source_symbol_metadata = (\<lambda>bs. if length bs < 2 then Err 1 else Ok (2, take 2 bs)),
     nc_repair_get = (\<lambda>r. r), nc_repair_wire_len = length, nc_metadata_bytes = (\<lambda>m. m),
     nc_source_new = Pair, nc_source_metadata = fst, nc_source_get = snd\<rparr>"

definition sample_frame :: "(byte list, byte list \<times> byte list, byte list) frame" where
  "sample_frame = Stream 4 (rb_from [1, 2, 3] 9 True)"

lemma sample_frame_ok: "frame_ok sample_frame" "length (concat (enc_frame sample_frame)) = 8"
  by (simp_all add: sample_frame_def ok_buf_def rb_from_def rb_ok_def rb_off_def rb_length_def
      rb_deref_def seg_def)




text \<open>
  C5: parsing arbitrary bytes is safe as long as the payload is no longer than a source
  symbol: no panic, the cursor stays in the packet, and an accepted frame may be carried by
  this type of packet and is well-shaped (a stream frame ends below \<open>2 ^ 62\<close>, connection IDs
  have 1 to 20 bytes, the ranges of an acknowledgement are disjoint and ordered).
\<close>

theorem frame_from_bytes_safe:
  assumes "nc_total nc" and "octets_ok b" and "length (as_ref b) \<le> nc_symbol_size nc"
  shows "frame_from_bytes nc b pkt \<noteq> Panic
     \<and> (\<forall>f b'. frame_from_bytes nc b pkt = Ok (f, b') \<longrightarrow>
          octets_ok b' \<and> o_buf b' = o_buf b \<and> o_off b \<le> o_off b' \<and> frame_allowed pkt f \<and> frame_shape f)"
proof (intro conjI allI impI)
  note H = frame_from_bytes_holds [OF assms, of pkt]
  show "frame_from_bytes nc b pkt \<noteq> Panic" using H unfolding holds_def by blast
  fix f b'
  assume "frame_from_bytes nc b pkt = Ok (f, b')"
  then have "parsed_in b (f, b') \<and> frame_allowed pkt (fst (f, b'))" using H unfolding holds_def by blast
  then show "octets_ok b'" "o_buf b' = o_buf b" "o_off b \<le> o_off b'" "frame_allowed pkt f" "frame_shape f"
    by (simp_all add: after_def)
qed

theorem frame_from_bytes_safe_witness:
  "frame_from_bytes sample_nc (with_slice [0x0f, 4, 0xc0]) Short \<noteq> Panic"
  by (rule conjunct1 [OF frame_from_bytes_safe])
    (auto simp: nc_total_def sample_nc_def)

text \<open>
  C35: a source symbol frame takes the rest of the packet as its payload, padded on the left to
  the symbol size, without consuming it; a packet whose rest is longer than the symbol size
  makes the parser panic.
\<close>

theorem source_symbol_payload:
  assumes "nc_read_source_symbol_metadata nc bs = Ok (n, md)" and "n \<le> length bs" and "pkt = Short"
  shows "frame_from_bytes nc (with_slice (enc_varint 0x33 @ bs)) pkt =
     (if nc_symbol_size nc < length bs - n then Panic
      else Ok (SourceSymbol (nc_source_new nc md
                 (replicate (nc_symbol_size nc - (length bs - n)) 0 @ drop n bs)),
               \<lparr>o_buf = enc_varint 0x33 @ bs, o_off = length (enc_varint 0x33) + n\<rparr>))"
proof -
  have "skip n (cur ([] @ enc_varint 0x33) bs) = Ok \<lparr>o_buf = enc_varint 0x33 @ bs, o_off = length (enc_varint 0x33) + n\<rparr>"
    using assms(2) by (simp add: skip_def cap_def cur_def)
  moreover have "as_ref \<lparr>o_buf = enc_varint 0x33 @ bs, o_off = length (enc_varint 0x33) + n\<rparr> = drop n bs"
    by (simp add: as_ref_def)
  ultimately show ?thesis
    using assms(1,3) by (simp add: with_slice_cur parse_defs frame_allowed_def)
qed

theorem source_symbol_payload_witness:
  "frame_from_bytes sample_nc (with_slice (enc_varint 0x33 @ [1, 2] @ replicate 17 5)) Short = Panic
   \<and> frame_from_bytes sample_nc (with_slice (enc_varint 0x33 @ [1, 2, 9])) Short
      = Ok (SourceSymbol ([1, 2], replicate 15 0 @ [9]),
            \<lparr>o_buf = enc_varint 0x33 @ [1, 2, 9], o_off = 3\<rparr>)"
  using source_symbol_payload [of sample_nc "[1, 2] @ replicate 17 5" 2 "[1, 2]" Short]
    source_symbol_payload [of sample_nc "[1, 2, 9]" 2 "[1, 2]" Short]
  by (simp add: sample_nc_def)

end
