(* ===== verification/Cid.thy ===== *)
theory Cid
  imports Frame
begin

text \<open>
  Connection identifiers, \<^verbatim>\<open>quiche/src/cid.rs\<close>.

  A connection keeps two bounded, never empty deques of entries: the source connection IDs it
  gave to its peer and the destination connection IDs the peer gave to it.  It also keeps the
  queue of source IDs to announce, the set of destination IDs whose retirement has to be
  announced and the list of retired source IDs the application has not been told about.

  The operations of \<^verbatim>\<open>ConnectionIdentifiers\<close> change the state before some of their error
  returns, so they return the new state beside the result in every case.  Two choices of the
  standard library are arguments: the order in which a \<^verbatim>\<open>HashSet\<close> is iterated, and
  \<^verbatim>\<open>VecDeque::partition_point\<close>, whose result is specified on partitioned deques only (locale
  \<open>partition_search\<close>).  The locale \<open>bounded_table\<close> is the contract of the deques: a map from
  sequence numbers to entries with a capacity.
\<close>

type_synonym cid = "byte list"

definition RETIRED_CONN_ID_LIMIT_MULTIPLIER :: usize where
  "RETIRED_CONN_ID_LIMIT_MULTIPLIER = 3"

subsection \<open>The bounded set of retired sequence numbers\<close>

record seq_set =
  ss_inner :: "u64 set"
  ss_capacity :: usize

definition ss_new :: "usize \<Rightarrow> seq_set" where
  "ss_new capacity = \<lparr>ss_inner = {}, ss_capacity = capacity\<rparr>"

definition ss_insert :: "u64 \<Rightarrow> seq_set \<Rightarrow> (error, bool \<times> seq_set) res" where
  "ss_insert e s =
     (if card (ss_inner s) \<ge> ss_capacity s then Err IdLimit
      else Ok (e \<notin> ss_inner s, s\<lparr>ss_inner := insert e (ss_inner s)\<rparr>))"

definition ss_remove :: "u64 \<Rightarrow> seq_set \<Rightarrow> bool \<times> seq_set" where
  "ss_remove e s = (e \<in> ss_inner s, s\<lparr>ss_inner := ss_inner s - {e}\<rparr>)"

definition ss_front :: "(u64 set \<Rightarrow> u64 list) \<Rightarrow> seq_set \<Rightarrow> u64 option" where
  "ss_front hash_iter s = (case hash_iter (ss_inner s) of [] \<Rightarrow> None | e # _ \<Rightarrow> Some e)"

definition ss_is_empty :: "seq_set \<Rightarrow> bool" where
  "ss_is_empty s \<longleftrightarrow> ss_inner s = {}"

subsection \<open>The bounded deque of entries\<close>

record cid_entry =
  ce_cid :: cid
  ce_seq :: u64
  ce_reset_token :: "nat option"
  ce_path_id :: "usize option"

record cid_deque =
  dq_inner :: "cid_entry list"
  dq_capacity :: usize

fun update_first :: "('a \<Rightarrow> bool) \<Rightarrow> ('a \<Rightarrow> 'a) \<Rightarrow> 'a list \<Rightarrow> 'a list" where
  "update_first P f [] = []"
| "update_first P f (x # xs) = (if P x then f x # xs else x # update_first P f xs)"

fun remove_first :: "('a \<Rightarrow> bool) \<Rightarrow> 'a list \<Rightarrow> 'a list" where
  "remove_first P [] = []"
| "remove_first P (x # xs) = (if P x then xs else x # remove_first P xs)"

definition dq_new :: "usize \<Rightarrow> cid_entry \<Rightarrow> cid_deque" where
  "dq_new capacity initial_entry = \<lparr>dq_inner = [initial_entry], dq_capacity = capacity\<rparr>"

definition dq_resize :: "usize \<Rightarrow> cid_deque \<Rightarrow> cid_deque" where
  "dq_resize new_capacity d =
     (if new_capacity > dq_capacity d then d\<lparr>dq_capacity := new_capacity\<rparr> else d)"

definition dq_get_oldest :: "cid_deque \<Rightarrow> cid_entry option" where
  "dq_get_oldest d = (case dq_inner d of [] \<Rightarrow> None | e # _ \<Rightarrow> Some e)"

definition dq_get :: "u64 \<Rightarrow> cid_deque \<Rightarrow> cid_entry option" where
  "dq_get seq d = find (\<lambda>e. ce_seq e = seq) (dq_inner d)"

definition dq_update :: "u64 \<Rightarrow> (cid_entry \<Rightarrow> cid_entry) \<Rightarrow> cid_deque \<Rightarrow> cid_deque" where
  "dq_update seq f d = d\<lparr>dq_inner := update_first (\<lambda>e. ce_seq e = seq) f (dq_inner d)\<rparr>"

definition dq_len :: "cid_deque \<Rightarrow> usize" where
  "dq_len d = length (dq_inner d)"

definition dq_insert :: "cid_entry \<Rightarrow> cid_deque \<Rightarrow> (error, cid_deque) res" where
  "dq_insert e d =
     (case dq_get (ce_seq e) d of
        Some oe \<Rightarrow> Ok (dq_update (ce_seq e) (\<lambda>_. e) d)
      | None \<Rightarrow>
          if dq_len d \<ge> dq_capacity d then Err IdLimit
          else Ok (d\<lparr>dq_inner := dq_inner d @ [e]\<rparr>))"

definition dq_clear_and_insert :: "cid_entry \<Rightarrow> cid_deque \<Rightarrow> cid_deque" where
  "dq_clear_and_insert e d = d\<lparr>dq_inner := [e]\<rparr>"

definition dq_remove :: "u64 \<Rightarrow> cid_deque \<Rightarrow> (error, cid_entry option \<times> cid_deque) res" where
  "dq_remove seq d =
     (if dq_len d \<le> 1 then Err OutOfIdentifiers
      else Ok (dq_get seq d, d\<lparr>dq_inner := remove_first (\<lambda>e. ce_seq e = seq) (dq_inner d)\<rparr>))"

subsection \<open>The identifiers of a connection\<close>

record conn_ids =
  ci_dcids :: cid_deque
  ci_scids :: cid_deque
  ci_advertise_new_scid_seqs :: "u64 list"
  ci_retire_dcid_seqs :: seq_set
  ci_retired_scids :: "cid list"
  ci_largest_peer_retire_prior_to :: u64
  ci_largest_destination_seq :: u64
  ci_next_scid_seq :: u64
  ci_retire_prior_to :: u64
  ci_source_conn_id_limit :: usize
  ci_zero_length_scid :: bool
  ci_zero_length_dcid :: bool

definition ids_new :: "usize \<Rightarrow> cid \<Rightarrow> usize \<Rightarrow> nat option \<Rightarrow> conn_ids option" where
  "ids_new destination_conn_id_limit initial_scid initial_path_id reset_token =
     (let limit = max destination_conn_id_limit 2; source_conn_id_limit = 2 in
      map_option (\<lambda>retired_capacity.
        \<lparr>ci_dcids = dq_new limit
           \<lparr>ce_cid = [], ce_seq = 0, ce_reset_token = None, ce_path_id = Some initial_path_id\<rparr>,
         ci_scids = dq_new (2 * source_conn_id_limit - 1)
           \<lparr>ce_cid = initial_scid, ce_seq = 0, ce_reset_token = reset_token,
            ce_path_id = Some initial_path_id\<rparr>,
         ci_advertise_new_scid_seqs = [],
         ci_retire_dcid_seqs = ss_new retired_capacity,
         ci_retired_scids = [],
         ci_largest_peer_retire_prior_to = 0, ci_largest_destination_seq = 0,
         ci_next_scid_seq = 1, ci_retire_prior_to = 0,
         ci_source_conn_id_limit = source_conn_id_limit,
         ci_zero_length_scid = (initial_scid = []), ci_zero_length_dcid = False\<rparr>)
        (u64_mul limit RETIRED_CONN_ID_LIMIT_MULTIPLIER))"

definition set_source_conn_id_limit :: "u64 \<Rightarrow> conn_ids \<Rightarrow> conn_ids" where
  "set_source_conn_id_limit v0 ids =
     (let v = min v0 (usize_max div 2) in
      if v \<ge> 2 then ids\<lparr>ci_source_conn_id_limit := v,
                        ci_scids := dq_resize (2 * v - 1) (ci_scids ids)\<rparr>
      else ids)"

definition ok_or :: "'e \<Rightarrow> 'a option \<Rightarrow> ('e, 'a) res" where
  "ok_or e x = (case x of Some v \<Rightarrow> Ok v | None \<Rightarrow> Err e)"

definition get_dcid :: "u64 \<Rightarrow> conn_ids \<Rightarrow> (error, cid_entry) res" where
  "get_dcid seq_num ids = ok_or InvalidState (dq_get seq_num (ci_dcids ids))"

definition get_scid :: "u64 \<Rightarrow> conn_ids \<Rightarrow> (error, cid_entry) res" where
  "get_scid seq_num ids = ok_or InvalidState (dq_get seq_num (ci_scids ids))"

definition min_of :: "u64 list \<Rightarrow> u64 option" where
  "min_of xs = (if xs = [] then None else Some (Min (set xs)))"

definition lowest_usable_scid_seq :: "conn_ids \<Rightarrow> (error, u64) res" where
  "lowest_usable_scid_seq ids =
     ok_or InvalidState
       (min_of (filter (\<lambda>s. s \<ge> ci_retire_prior_to ids) (map ce_seq (dq_inner (ci_scids ids)))))"

definition lowest_available_dcid_seq :: "conn_ids \<Rightarrow> u64 option" where
  "lowest_available_dcid_seq ids =
     min_of (map ce_seq (filter (\<lambda>e. ce_path_id e = None) (dq_inner (ci_dcids ids))))"

definition mark_advertise_new_scid_seq :: "u64 \<Rightarrow> bool \<Rightarrow> conn_ids \<Rightarrow> conn_ids" where
  "mark_advertise_new_scid_seq scid_seq advertise ids =
     ids\<lparr>ci_advertise_new_scid_seqs :=
       (if advertise then ci_advertise_new_scid_seqs ids @ [scid_seq]
        else remove_first (\<lambda>s. s = scid_seq) (ci_advertise_new_scid_seqs ids))\<rparr>"

definition mark_retire_dcid_seq :: "u64 \<Rightarrow> bool \<Rightarrow> conn_ids \<Rightarrow> (error, unit) res \<times> conn_ids" where
  "mark_retire_dcid_seq dcid_seq retire ids =
     (if retire then
        (case ss_insert dcid_seq (ci_retire_dcid_seqs ids) of
           Ok (_, s) \<Rightarrow> (Ok (), ids\<lparr>ci_retire_dcid_seqs := s\<rparr>)
         | Err e \<Rightarrow> (Err e, ids)
         | Panic \<Rightarrow> (Panic, ids))
      else (Ok (), ids\<lparr>ci_retire_dcid_seqs := snd (ss_remove dcid_seq (ci_retire_dcid_seqs ids))\<rparr>))"

text \<open>
  \<open>new_scid\<close> raises \<^verbatim>\<open>retire_prior_to\<close> first and keeps it raised whatever happens next;
  \<open>new_scid_add\<close> is the part of the method after the limit check.
\<close>

definition new_scid_add ::
  "cid \<Rightarrow> nat option \<Rightarrow> bool \<Rightarrow> usize option \<Rightarrow> conn_ids \<Rightarrow> (error, u64) res \<times> conn_ids" where
  "new_scid_add cid reset_token advertise path_id ids =
     (let seq = ci_next_scid_seq ids in
      if reset_token = None \<and> seq \<noteq> 0 then (Err InvalidState, ids)
      else case find (\<lambda>e. ce_cid e = cid) (dq_inner (ci_scids ids)) of
        Some e \<Rightarrow> (if ce_reset_token e \<noteq> reset_token then Err InvalidState else Ok (ce_seq e), ids)
      | None \<Rightarrow>
          (case dq_insert \<lparr>ce_cid = cid, ce_seq = seq, ce_reset_token = reset_token, ce_path_id = path_id\<rparr>
                  (ci_scids ids) of
             Err e \<Rightarrow> (Err e, ids)
           | Panic \<Rightarrow> (Panic, ids)
           | Ok scids \<Rightarrow>
               (case u64_add seq 1 of
                  None \<Rightarrow> (Panic, ids\<lparr>ci_scids := scids\<rparr>)
                | Some next \<Rightarrow>
                    (Ok seq, mark_advertise_new_scid_seq seq advertise
                       (ids\<lparr>ci_scids := scids, ci_next_scid_seq := next\<rparr>)))))"

definition new_scid ::
  "cid \<Rightarrow> nat option \<Rightarrow> bool \<Rightarrow> usize option \<Rightarrow> bool \<Rightarrow> conn_ids \<Rightarrow> (error, u64) res \<times> conn_ids" where
  "new_scid cid reset_token advertise path_id retire_if_needed ids =
     (if ci_zero_length_scid ids then (Err InvalidState, ids)
      else if dq_len (ci_scids ids) \<ge> ci_source_conn_id_limit ids then
        (if \<not> retire_if_needed then (Err IdLimit, ids)
         else case lowest_usable_scid_seq ids of
             Err e \<Rightarrow> (Err e, ids)
           | Panic \<Rightarrow> (Panic, ids)
           | Ok lowest \<Rightarrow>
               (case u64_add lowest 1 of
                  None \<Rightarrow> (Panic, ids)
                | Some r \<Rightarrow>
                    new_scid_add cid reset_token advertise path_id (ids\<lparr>ci_retire_prior_to := r\<rparr>)))
      else new_scid_add cid reset_token advertise path_id ids)"

definition set_initial_dcid :: "cid \<Rightarrow> nat option \<Rightarrow> usize option \<Rightarrow> conn_ids \<Rightarrow> conn_ids" where
  "set_initial_dcid cid reset_token path_id ids =
     ids\<lparr>ci_zero_length_dcid := (cid = []),
         ci_dcids := dq_clear_and_insert
           \<lparr>ce_cid = cid, ce_seq = 0, ce_reset_token = reset_token, ce_path_id = path_id\<rparr> (ci_dcids ids)\<rparr>"

subsubsection \<open>New destination identifiers\<close>

text \<open>
  The loop over the drained entries: a linked path is reported, then the number is queued for
  retirement; the first refusal of the queue ends the loop.  The drained entries are gone
  from the deque in either case.
\<close>

type_synonym retired_paths = "(u64 \<times> usize) list"

fun drain_retired ::
  "cid_entry list \<Rightarrow> seq_set \<Rightarrow> retired_paths \<Rightarrow> error option \<times> seq_set \<times> retired_paths" where
  "drain_retired [] retired paths = (None, retired, paths)"
| "drain_retired (e # es) retired paths =
     (let paths' = (case ce_path_id e of Some pid \<Rightarrow> paths @ [(ce_seq e, pid)] | None \<Rightarrow> paths) in
      case ss_insert (ce_seq e) retired of
        Ok (_, retired') \<Rightarrow> drain_retired es retired' paths'
      | Err err \<Rightarrow> (Some err, retired, paths')
      | Panic \<Rightarrow> (None, retired, paths'))"

type_synonym partition_fun = "(cid_entry \<Rightarrow> bool) \<Rightarrow> cid_entry list \<Rightarrow> nat"

definition retire_prior ::
  "partition_fun \<Rightarrow> u64 \<Rightarrow> conn_ids \<Rightarrow> retired_paths \<Rightarrow> error option \<times> conn_ids \<times> retired_paths" where
  "retire_prior partition_point retire_prior_to ids paths =
     (if retire_prior_to > ci_largest_peer_retire_prior_to ids then
        (let inner = dq_inner (ci_dcids ids);
             index = partition_point (\<lambda>e. ce_seq e < retire_prior_to) inner in
         case drain_retired (take index inner) (ci_retire_dcid_seqs ids) paths of
           (err, retired, paths') \<Rightarrow>
             (err, ids\<lparr>ci_retire_dcid_seqs := retired,
                       ci_dcids := (ci_dcids ids)\<lparr>dq_inner := drop index inner\<rparr>,
                       ci_largest_peer_retire_prior_to := retire_prior_to\<rparr>, paths'))
      else (None, ids, paths))"

definition new_dcid ::
  "partition_fun \<Rightarrow> cid \<Rightarrow> u64 \<Rightarrow> nat \<Rightarrow> u64 \<Rightarrow> conn_ids \<Rightarrow> retired_paths
     \<Rightarrow> (error, unit) res \<times> conn_ids \<times> retired_paths" where
  "new_dcid partition_point cid seq reset_token retire_prior_to ids paths =
     (if ci_zero_length_dcid ids then (Err InvalidState, ids, paths)
      else case find (\<lambda>e. ce_cid e = cid \<or> ce_seq e = seq) (dq_inner (ci_dcids ids)) of
        Some e \<Rightarrow>
          (if ce_cid e \<noteq> cid \<or> ce_seq e \<noteq> seq \<or> ce_reset_token e \<noteq> Some reset_token
           then Err InvalidFrame else Ok (), ids, paths)
      | None \<Rightarrow>
          if retire_prior_to > seq then (Err InvalidFrame, ids, paths)
          else if seq < ci_largest_peer_retire_prior_to ids then
            (case mark_retire_dcid_seq seq True ids of (r, ids') \<Rightarrow> (r, ids', paths))
          else
            let ids1 = (if seq > ci_largest_destination_seq ids
                        then ids\<lparr>ci_largest_destination_seq := seq\<rparr> else ids);
                new_entry = \<lparr>ce_cid = cid, ce_seq = seq, ce_reset_token = Some reset_token,
                             ce_path_id = None\<rparr> in
            if retire_prior_to > ci_largest_peer_retire_prior_to ids \<and> seq < retire_prior_to
            then (Err OutOfIdentifiers, ids1, paths)
            else case retire_prior partition_point retire_prior_to ids1 paths of
              (err, ids2, paths') \<Rightarrow>
                (case dq_insert new_entry (ci_dcids ids2) of
                   Err e \<Rightarrow> (Err e, ids2, paths')
                 | Panic \<Rightarrow> (Panic, ids2, paths')
                 | Ok dcids \<Rightarrow>
                     (case err of Some e \<Rightarrow> Err e | None \<Rightarrow> Ok (), ids2\<lparr>ci_dcids := dcids\<rparr>, paths')))"

subsubsection \<open>Retirement and the remaining operations\<close>

definition retire_scid :: "u64 \<Rightarrow> cid \<Rightarrow> conn_ids \<Rightarrow> (error, usize option) res \<times> conn_ids" where
  "retire_scid seq pkt_dcid ids =
     (if seq \<ge> ci_next_scid_seq ids then (Err InvalidState, ids)
      else case dq_remove seq (ci_scids ids) of
        Err e \<Rightarrow> (Err e, ids)
      | Panic \<Rightarrow> (Panic, ids)
      | Ok (None, scids) \<Rightarrow> (Ok None, ids\<lparr>ci_scids := scids\<rparr>)
      | Ok (Some e, scids) \<Rightarrow>
          let ids1 = ids\<lparr>ci_scids := scids\<rparr> in
          if ce_cid e = pkt_dcid then (Err InvalidState, ids1)
          else let ids2 = ids1\<lparr>ci_retired_scids := ci_retired_scids ids1 @ [ce_cid e]\<rparr> in
            case lowest_usable_scid_seq ids2 of
              Ok lowest \<Rightarrow> (Ok (ce_path_id e), ids2\<lparr>ci_retire_prior_to := lowest\<rparr>)
            | Err err \<Rightarrow> (Err err, ids2)
            | Panic \<Rightarrow> (Panic, ids2))"

definition retire_dcid :: "u64 \<Rightarrow> conn_ids \<Rightarrow> (error, usize option) res \<times> conn_ids" where
  "retire_dcid seq ids =
     (if ci_zero_length_dcid ids then (Err InvalidState, ids)
      else case dq_remove seq (ci_dcids ids) of
        Err e \<Rightarrow> (Err e, ids)
      | Panic \<Rightarrow> (Panic, ids)
      | Ok (None, dcids) \<Rightarrow> (Err InvalidState, ids\<lparr>ci_dcids := dcids\<rparr>)
      | Ok (Some e, dcids) \<Rightarrow>
          (case mark_retire_dcid_seq seq True (ids\<lparr>ci_dcids := dcids\<rparr>) of
             (r, ids') \<Rightarrow> (and_then r (\<lambda>_. Ok (ce_path_id e)), ids')))"

definition scids_iter :: "conn_ids \<Rightarrow> cid list" where
  "scids_iter ids = map ce_cid (dq_inner (ci_scids ids))"

definition link_scid_to_path_id :: "u64 \<Rightarrow> usize \<Rightarrow> conn_ids \<Rightarrow> (error, unit) res \<times> conn_ids" where
  "link_scid_to_path_id dcid_seq path_id ids =
     (case dq_get dcid_seq (ci_scids ids) of
        None \<Rightarrow> (Err InvalidState, ids)
      | Some _ \<Rightarrow>
          (Ok (), ids\<lparr>ci_scids := dq_update dcid_seq (\<lambda>e. e\<lparr>ce_path_id := Some path_id\<rparr>) (ci_scids ids)\<rparr>))"

definition link_dcid_to_path_id :: "u64 \<Rightarrow> usize \<Rightarrow> conn_ids \<Rightarrow> (error, unit) res \<times> conn_ids" where
  "link_dcid_to_path_id dcid_seq path_id ids =
     (case dq_get dcid_seq (ci_dcids ids) of
        None \<Rightarrow> (Err InvalidState, ids)
      | Some _ \<Rightarrow>
          (Ok (), ids\<lparr>ci_dcids := dq_update dcid_seq (\<lambda>e. e\<lparr>ce_path_id := Some path_id\<rparr>) (ci_dcids ids)\<rparr>))"

definition find_scid_seq :: "cid \<Rightarrow> conn_ids \<Rightarrow> (u64 \<times> usize option) option" where
  "find_scid_seq scid ids =
     map_option (\<lambda>e. (ce_seq e, ce_path_id e)) (find (\<lambda>e. ce_cid e = scid) (dq_inner (ci_scids ids)))"

definition available_scids :: "conn_ids \<Rightarrow> usize" where
  "available_scids ids = length (filter (\<lambda>e. ce_path_id e = None) (dq_inner (ci_scids ids)))"

definition available_dcids :: "conn_ids \<Rightarrow> usize" where
  "available_dcids ids =
     (if ci_zero_length_dcid ids then 0
      else length (filter (\<lambda>e. ce_path_id e = None) (dq_inner (ci_dcids ids))))"

definition oldest_scid :: "conn_ids \<Rightarrow> cid_entry option" where
  "oldest_scid ids = dq_get_oldest (ci_scids ids)"

definition oldest_dcid :: "conn_ids \<Rightarrow> cid_entry option" where
  "oldest_dcid ids = dq_get_oldest (ci_dcids ids)"

definition next_advertise_new_scid_seq :: "conn_ids \<Rightarrow> u64 option" where
  "next_advertise_new_scid_seq ids =
     (case ci_advertise_new_scid_seqs ids of [] \<Rightarrow> None | s # _ \<Rightarrow> Some s)"

definition next_retire_dcid_seq :: "(u64 set \<Rightarrow> u64 list) \<Rightarrow> conn_ids \<Rightarrow> u64 option" where
  "next_retire_dcid_seq hash_iter ids = ss_front hash_iter (ci_retire_dcid_seqs ids)"

definition has_new_scids :: "conn_ids \<Rightarrow> bool" where
  "has_new_scids ids \<longleftrightarrow> ci_advertise_new_scid_seqs ids \<noteq> []"

definition has_retire_dcids :: "conn_ids \<Rightarrow> bool" where
  "has_retire_dcids ids \<longleftrightarrow> \<not> ss_is_empty (ci_retire_dcid_seqs ids)"

definition get_new_connection_id_frame_for ::
  "u64 \<Rightarrow> conn_ids \<Rightarrow> (error, ('rep, 'src, 'meta) frame) res" where
  "get_new_connection_id_frame_for seq_num ids =
     and_then (ok_or InvalidState (dq_get seq_num (ci_scids ids))) (\<lambda>e.
     and_then (ok_or InvalidState (ce_reset_token e)) (\<lambda>t.
       Ok (NewConnectionId seq_num (ci_retire_prior_to ids) (ce_cid e) (be_bytes 16 t))))"

definition active_source_cids :: "conn_ids \<Rightarrow> usize" where
  "active_source_cids ids = dq_len (ci_scids ids)"

definition retired_source_cids :: "conn_ids \<Rightarrow> usize" where
  "retired_source_cids ids = length (ci_retired_scids ids)"

definition pop_retired_scid :: "conn_ids \<Rightarrow> cid option \<times> conn_ids" where
  "pop_retired_scid ids =
     (case ci_retired_scids ids of
        [] \<Rightarrow> (None, ids)
      | c # cs \<Rightarrow> (Some c, ids\<lparr>ci_retired_scids := cs\<rparr>))"


subsection \<open>The deque as a bounded table\<close>

text \<open>
  What the rest of the connection relies on: a table of entries by sequence number that
  refuses to grow past its capacity and to lose its last entry.
\<close>

type_synonym cid_table = "u64 \<Rightarrow> cid_entry option"

definition tbl_insert :: "usize \<Rightarrow> cid_entry \<Rightarrow> cid_table \<Rightarrow> (error, cid_table) res" where
  "tbl_insert capacity e m =
     (if m (ce_seq e) = None \<and> capacity \<le> card (dom m) then Err IdLimit
      else Ok (m(ce_seq e \<mapsto> e)))"

definition tbl_remove :: "u64 \<Rightarrow> cid_table \<Rightarrow> (error, cid_entry option \<times> cid_table) res" where
  "tbl_remove seq m =
     (if card (dom m) \<le> 1 then Err OutOfIdentifiers else Ok (m seq, m(seq := None)))"

locale bounded_table =
  fixes ins :: "cid_entry \<Rightarrow> 't \<Rightarrow> (error, 't) res"
    and rem :: "u64 \<Rightarrow> 't \<Rightarrow> (error, cid_entry option \<times> 't) res"
    and table :: "'t \<Rightarrow> cid_table" and capacity :: "'t \<Rightarrow> usize" and ok :: "'t \<Rightarrow> bool"
  assumes ins_table: "ok t \<Longrightarrow> map_res id table (ins e t) = tbl_insert (capacity t) e (table t)"
    and rem_table: "ok t \<Longrightarrow> map_res id (map_prod id table) (rem s t) = tbl_remove s (table t)"
    and ins_ok: "ok t \<Longrightarrow> ins e t = Ok t' \<Longrightarrow> ok t' \<and> capacity t' = capacity t"
    and rem_ok: "ok t \<Longrightarrow> rem s t = Ok (x, t') \<Longrightarrow> ok t' \<and> capacity t' = capacity t"
begin

lemma lookup_ins: "ok t \<Longrightarrow> ins e t = Ok t' \<Longrightarrow> table t' = (table t)(ce_seq e \<mapsto> e)"
  using ins_table [of t e] by (auto simp: tbl_insert_def split: if_splits)

lemma lookup_rem: "ok t \<Longrightarrow> rem s t = Ok (x, t') \<Longrightarrow> x = table t s \<and> table t' = (table t)(s := None)"
  using rem_table [of t s] by (auto simp: tbl_remove_def split: if_splits)

lemma ins_no_panic: "ok t \<Longrightarrow> ins e t \<noteq> Panic"
  using ins_table [of t e] by (auto simp: tbl_insert_def split: if_splits)

lemma rem_no_panic: "ok t \<Longrightarrow> rem s t \<noteq> Panic"
  using rem_table [of t s] by (auto simp: tbl_remove_def split: if_splits)

end

lemma find_None: "find P xs = None \<longleftrightarrow> (\<forall>x \<in> set xs. \<not> P x)"
  by (auto simp: find_None_iff)

lemma find_SomeD: "find P xs = Some x \<Longrightarrow> x \<in> set xs \<and> P x"
  by (auto simp: find_Some_iff)

lemma find_key:
  "distinct (map f xs) \<Longrightarrow> find (\<lambda>x. f x = k) xs = Some x \<longleftrightarrow> x \<in> set xs \<and> f x = k"
  by (induction xs) auto

lemma set_remove_first_key:
  "distinct (map f xs) \<Longrightarrow> set (remove_first (\<lambda>x. f x = k) xs) = {x \<in> set xs. f x \<noteq> k}"
  by (induction xs) (auto simp: image_iff)

lemma set_remove_first_subset: "set (remove_first P xs) \<subseteq> set xs"
  by (induction xs) auto

lemma length_remove_first:
  "length xs \<le> Suc (length (remove_first P xs)) \<and> length (remove_first P xs) \<le> length xs"
  by (induction xs) auto

lemma distinct_remove_first:
  "distinct (map f xs) \<Longrightarrow> distinct (map f (remove_first P xs))"
  using set_remove_first_subset by (induction xs) fastforce+

lemma map_update_first:
  "(\<And>x. x \<in> set xs \<Longrightarrow> P x \<Longrightarrow> f (g x) = f x) \<Longrightarrow> map f (update_first P g xs) = map f xs"
  by (induction xs) auto

lemma set_update_first_key:
  "distinct (map f xs) \<Longrightarrow>
   set (update_first (\<lambda>x. f x = k) g xs) = {x \<in> set xs. f x \<noteq> k} \<union> g ` {x \<in> set xs. f x = k}"
  by (induction xs) (auto 0 4 simp: image_iff)

lemma length_update_first [simp]: "length (update_first P g xs) = length xs"
  by (induction xs) auto

definition dq_ok :: "cid_deque \<Rightarrow> bool" where
  "dq_ok d \<longleftrightarrow>
     dq_inner d \<noteq> [] \<and> distinct (map ce_seq (dq_inner d)) \<and> length (dq_inner d) \<le> dq_capacity d"

lemma dq_get_iff:
  "dq_ok d \<Longrightarrow> dq_get s d = Some e \<longleftrightarrow> e \<in> set (dq_inner d) \<and> ce_seq e = s"
  by (simp add: dq_get_def dq_ok_def find_key)

lemma dq_get_None: "dq_get s d = None \<longleftrightarrow> s \<notin> ce_seq ` set (dq_inner d)"
  by (auto simp: dq_get_def find_None)

lemma dom_dq_get: "dom (\<lambda>s. dq_get s d) = ce_seq ` set (dq_inner d)"
  using dq_get_None by (auto simp: dom_def)

lemma card_dom_dq_get: "dq_ok d \<Longrightarrow> card (dom (\<lambda>s. dq_get s d)) = length (dq_inner d)"
  by (metis dom_dq_get dq_ok_def distinct_card length_map set_map)

lemma dq_eqI:
  assumes "dq_ok d'" and "\<And>s e. m s = Some e \<longleftrightarrow> e \<in> set (dq_inner d') \<and> ce_seq e = s"
  shows "(\<lambda>s. dq_get s d') = m"
proof
  fix s show "dq_get s d' = m s"
    using assms(2) [of s] dq_get_iff [OF assms(1), of s] by (metis not_None_eq)
qed

lemma dq_insert_new:
  "dq_insert e d =
     (if dq_get (ce_seq e) d = None then
        (if dq_capacity d \<le> length (dq_inner d) then Err IdLimit else Ok (d\<lparr>dq_inner := dq_inner d @ [e]\<rparr>))
      else Ok (dq_update (ce_seq e) (\<lambda>_. e) d))"
  by (auto simp: dq_insert_def dq_len_def split: option.split)

lemma dq_update_ok:
  assumes "dq_ok d" and "\<And>e. ce_seq (f e) = s"
  shows "dq_ok (dq_update s f d)"
proof -
  have "map ce_seq (dq_inner (dq_update s f d)) = map ce_seq (dq_inner d)"
    unfolding dq_update_def using assms(2) by (simp, intro map_update_first) simp
  then show ?thesis using assms(1) unfolding dq_ok_def
    by (metis (no_types, lifting) dq_update_def length_map map_is_Nil_conv cid_deque.select_convs(2)
        cid_deque.surjective cid_deque.update_convs(1))
qed

lemma dq_insert_ok:
  assumes "dq_ok d" and "dq_insert e d = Ok d'"
  shows "dq_ok d' \<and> dq_capacity d' = dq_capacity d \<and> (\<lambda>s. dq_get s d') = (\<lambda>s. dq_get s d)(ce_seq e \<mapsto> e)"
proof (cases "dq_get (ce_seq e) d")
  case None
  then have d': "d' = d\<lparr>dq_inner := dq_inner d @ [e]\<rparr>" and n: "ce_seq e \<notin> ce_seq ` set (dq_inner d)"
    using assms by (auto simp: dq_insert_new dq_get_None split: if_splits)
  have ok: "dq_ok d'"
    using assms None n by (auto simp: d' dq_ok_def dq_insert_new split: if_splits)
  have "(\<lambda>s. dq_get s d') = (\<lambda>s. dq_get s d)(ce_seq e \<mapsto> e)"
    using n by (intro dq_eqI [OF ok]) (auto simp: d' dq_get_iff [OF assms(1)] image_iff)
  then show ?thesis using ok d' by simp
next
  case (Some oe)
  then have d': "d' = dq_update (ce_seq e) (\<lambda>_. e) d" using assms by (auto simp: dq_insert_new)
  then have ok: "dq_ok d'" using assms(1) by (simp add: dq_update_ok)
  have "set (dq_inner d') = {x \<in> set (dq_inner d). ce_seq x \<noteq> ce_seq e} \<union> {e}"
    using Some assms(1) by (auto simp: d' dq_update_def dq_ok_def set_update_first_key dq_get_def find_key)
  then have "(\<lambda>s. dq_get s d') = (\<lambda>s. dq_get s d)(ce_seq e \<mapsto> e)"
    by (intro dq_eqI [OF ok]) (auto simp: dq_get_iff [OF assms(1)])
  then show ?thesis using ok d' by (simp add: dq_update_def)
qed

lemma dq_remove_ok:
  assumes "dq_ok d" and "dq_remove s d = Ok (x, d')"
  shows "dq_ok d' \<and> dq_capacity d' = dq_capacity d \<and> x = dq_get s d
       \<and> (\<lambda>k. dq_get k d') = (\<lambda>k. dq_get k d)(s := None)"
proof -
  have d': "d' = d\<lparr>dq_inner := remove_first (\<lambda>e. ce_seq e = s) (dq_inner d)\<rparr>" and x: "x = dq_get s d"
    and "\<not> length (dq_inner d) \<le> 1"
    using assms(2) by (auto simp: dq_remove_def dq_len_def split: if_splits)
  then have ok: "dq_ok d'"
    using assms(1) length_remove_first [of "dq_inner d" "\<lambda>e. ce_seq e = s"]
    by (auto simp: dq_ok_def intro: distinct_remove_first)
  have "(\<lambda>k. dq_get k d') = (\<lambda>k. dq_get k d)(s := None)"
    using assms(1) by (intro dq_eqI [OF ok]) (auto simp: d' dq_get_iff set_remove_first_key dq_ok_def)
  then show ?thesis using ok d' x by simp
qed

interpretation dq: bounded_table dq_insert dq_remove "\<lambda>d s. dq_get s d" dq_capacity dq_ok
proof unfold_locales
  fix t e t' s x
  assume t: "dq_ok t"
  show "map_res id (\<lambda>d s. dq_get s d) (dq_insert e t) = tbl_insert (dq_capacity t) e (\<lambda>s. dq_get s t)"
  proof (cases "dq_get (ce_seq e) t = None \<and> dq_capacity t \<le> length (dq_inner t)")
    case True
    then show ?thesis by (simp add: tbl_insert_def card_dom_dq_get [OF t] dq_insert_new)
  next
    case False
    then obtain u where u: "dq_insert e t = Ok u" unfolding dq_insert_new by (metis (full_types))
    show ?thesis
      using False dq_insert_ok [OF t u] unfolding u by (simp add: tbl_insert_def card_dom_dq_get [OF t])
  qed
  show "map_res id (map_prod id (\<lambda>d s. dq_get s d)) (dq_remove s t) = tbl_remove s (\<lambda>s. dq_get s t)"
  proof (cases "length (dq_inner t) \<le> 1")
    case True
    then show ?thesis by (simp add: tbl_remove_def card_dom_dq_get [OF t] dq_remove_def dq_len_def)
  next
    case False
    then obtain y u where u: "dq_remove s t = Ok (y, u)" unfolding dq_remove_def dq_len_def by simp
    show ?thesis
      using False dq_remove_ok [OF t u] unfolding u by (simp add: tbl_remove_def card_dom_dq_get [OF t])
  qed
  show "dq_insert e t = Ok t' \<Longrightarrow> dq_ok t' \<and> dq_capacity t' = dq_capacity t"
    using dq_insert_ok [OF t] by blast
  show "dq_remove s t = Ok (x, t') \<Longrightarrow> dq_ok t' \<and> dq_capacity t' = dq_capacity t"
    using dq_remove_ok [OF t] by blast
qed

subsection \<open>Invariant\<close>

definition entries_wf :: "cid_deque \<Rightarrow> bool" where
  "entries_wf d \<longleftrightarrow>
     distinct (map ce_seq (dq_inner d)) \<and> distinct (map ce_cid (dq_inner d))
     \<and> length (dq_inner d) \<le> dq_capacity d
     \<and> (\<forall>e \<in> set (dq_inner d). ce_seq e \<noteq> 0 \<longrightarrow> ce_reset_token e \<noteq> None)"

definition ss_ok :: "seq_set \<Rightarrow> bool" where
  "ss_ok s \<longleftrightarrow> finite (ss_inner s) \<and> card (ss_inner s) \<le> ss_capacity s"

definition dcids_ok :: "conn_ids \<Rightarrow> bool" where
  "dcids_ok ids \<longleftrightarrow>
     entries_wf (ci_dcids ids) \<and> dq_inner (ci_dcids ids) \<noteq> [] \<and> 2 \<le> dq_capacity (ci_dcids ids)
     \<and> (\<forall>e \<in> set (dq_inner (ci_dcids ids)). ce_seq e \<le> ci_largest_destination_seq ids)"

definition scids_ok :: "conn_ids \<Rightarrow> bool" where
  "scids_ok ids \<longleftrightarrow>
     entries_wf (ci_scids ids) \<and> dq_inner (ci_scids ids) \<noteq> []
     \<and> 2 \<le> ci_source_conn_id_limit ids
     \<and> 2 * ci_source_conn_id_limit ids - 1 \<le> dq_capacity (ci_scids ids)
     \<and> (\<forall>e \<in> set (dq_inner (ci_scids ids)). ce_seq e < ci_next_scid_seq ids)
     \<and> (ci_zero_length_scid ids \<longrightarrow> length (dq_inner (ci_scids ids)) = 1)"

definition cid_ok :: "conn_ids \<Rightarrow> bool" where
  "cid_ok ids \<longleftrightarrow> scids_ok ids \<and> dcids_ok ids \<and> ss_ok (ci_retire_dcid_seqs ids)"

lemma entries_wf_dq_ok: "entries_wf d \<Longrightarrow> dq_inner d \<noteq> [] \<Longrightarrow> dq_ok d"
  by (simp add: entries_wf_def dq_ok_def)

lemma dq_insert_fresh:
  "ce_seq e \<notin> ce_seq ` set (dq_inner d) \<Longrightarrow>
   dq_insert e d = (if dq_capacity d \<le> length (dq_inner d) then Err IdLimit
                    else Ok (d\<lparr>dq_inner := dq_inner d @ [e]\<rparr>))"
  by (simp add: dq_insert_new dq_get_None)

lemma entries_wf_append:
  assumes "entries_wf d" "length (dq_inner d) < dq_capacity d"
    "ce_seq e \<notin> ce_seq ` set (dq_inner d)" "ce_cid e \<notin> ce_cid ` set (dq_inner d)"
    "ce_seq e \<noteq> 0 \<longrightarrow> ce_reset_token e \<noteq> None"
  shows "entries_wf (d\<lparr>dq_inner := dq_inner d @ [e]\<rparr>)"
  using assms by (auto simp: entries_wf_def)

lemma entries_wf_sub:
  assumes "entries_wf d" "distinct (map ce_seq xs)" "distinct (map ce_cid xs)" "set xs \<subseteq> set (dq_inner d)"
    "length xs \<le> length (dq_inner d)"
  shows "entries_wf (d\<lparr>dq_inner := xs\<rparr>)"
  using assms by (auto simp: entries_wf_def)

lemma entries_wf_drop: "entries_wf d \<Longrightarrow> entries_wf (d\<lparr>dq_inner := drop n (dq_inner d)\<rparr>)"
  by (rule entries_wf_sub) (auto simp: entries_wf_def drop_map [symmetric] set_drop_subset)

lemma entries_wf_remove:
  "entries_wf d \<Longrightarrow> entries_wf (d\<lparr>dq_inner := remove_first P (dq_inner d)\<rparr>)"
  using set_remove_first_subset [of P "dq_inner d"] length_remove_first [of "dq_inner d" P]
  by (intro entries_wf_sub) (auto simp: entries_wf_def intro: distinct_remove_first)

lemma map_link:
  "(\<And>e. g (e\<lparr>ce_path_id := p\<rparr>) = g e) \<Longrightarrow>
   map g (dq_inner (dq_update s (\<lambda>e. e\<lparr>ce_path_id := p\<rparr>) d)) = map g (dq_inner d)"
  unfolding dq_update_def by (simp, intro map_update_first) simp

lemma link_simps [simp]:
  "map ce_seq (dq_inner (dq_update s (\<lambda>e. e\<lparr>ce_path_id := p\<rparr>) d)) = map ce_seq (dq_inner d)"
  "map ce_cid (dq_inner (dq_update s (\<lambda>e. e\<lparr>ce_path_id := p\<rparr>) d)) = map ce_cid (dq_inner d)"
  "length (dq_inner (dq_update s f d)) = length (dq_inner d)"
  "dq_capacity (dq_update s f d) = dq_capacity d"
  "dq_inner (dq_update s f d) = [] \<longleftrightarrow> dq_inner d = []"
  by (simp_all add: map_link, simp_all add: dq_update_def flip: length_0_conv)

lemma link_all:
  assumes "\<And>e. P (e\<lparr>ce_path_id := p\<rparr>) = P e"
  shows "(\<forall>e \<in> set (dq_inner (dq_update s (\<lambda>e. e\<lparr>ce_path_id := p\<rparr>) d)). P e) \<longleftrightarrow> (\<forall>e \<in> set (dq_inner d). P e)"
  using arg_cong [OF map_link [of P p s d, OF assms], of "list_all (\<lambda>b. b)"]
  by (simp add: list_all_iff)

lemma entries_wf_link: "entries_wf d \<Longrightarrow> entries_wf (dq_update s (\<lambda>e. e\<lparr>ce_path_id := p\<rparr>) d)"
  unfolding entries_wf_def by (subst link_all) simp_all

lemma ss_insert_ok [simp]:
  "ss_insert e s = Ok (b, s') \<longleftrightarrow>
     card (ss_inner s) < ss_capacity s \<and> b = (e \<notin> ss_inner s) \<and> s' = s\<lparr>ss_inner := insert e (ss_inner s)\<rparr>"
  by (auto simp: ss_insert_def)

lemma ss_insert_keeps: "ss_ok s \<Longrightarrow> card (ss_inner s) < ss_capacity s \<Longrightarrow> ss_ok (s\<lparr>ss_inner := insert e (ss_inner s)\<rparr>)"
  by (auto simp: ss_ok_def card_insert_if)

definition linked_path :: "cid_entry \<Rightarrow> retired_paths" where
  "linked_path e = (case ce_path_id e of Some pid \<Rightarrow> [(ce_seq e, pid)] | None \<Rightarrow> [])"

lemma drain_retired_Cons:
  "drain_retired (e # es) r p =
     (if ss_capacity r \<le> card (ss_inner r) then (Some IdLimit, r, p @ linked_path e)
      else drain_retired es (r\<lparr>ss_inner := insert (ce_seq e) (ss_inner r)\<rparr>) (p @ linked_path e))"
  by (simp add: ss_insert_def linked_path_def Let_def split: option.split)

declare drain_retired.simps(2) [simp del]

lemma drain_retired_ok:
  "ss_ok r \<Longrightarrow> ss_ok (fst (snd (drain_retired es r p)))
     \<and> ss_capacity (fst (snd (drain_retired es r p))) = ss_capacity r"
proof (induction es arbitrary: r p)
  case (Cons e es)
  then show ?case using ss_insert_keeps [of r "ce_seq e"] by (simp add: drain_retired_Cons)
qed simp

lemma ss_remove_keeps: "ss_ok s \<Longrightarrow> ss_ok (s\<lparr>ss_inner := ss_inner s - {e}\<rparr>)"
  unfolding ss_ok_def using card_Diff1_le [of "ss_inner s" e] by simp

lemma cid_ok_ss [simp]:
  "cid_ok (ids\<lparr>ci_retire_dcid_seqs := s\<rparr>) \<longleftrightarrow> scids_ok ids \<and> dcids_ok ids \<and> ss_ok s"
  by (simp add: cid_ok_def scids_ok_def dcids_ok_def)

lemma mark_retire_eq:
  "mark_retire_dcid_seq s b ids =
     (if b \<and> ss_capacity (ci_retire_dcid_seqs ids) \<le> card (ss_inner (ci_retire_dcid_seqs ids)) then (Err IdLimit, ids)
      else (Ok (), ids\<lparr>ci_retire_dcid_seqs := (ci_retire_dcid_seqs ids)
              \<lparr>ss_inner := (if b then insert s (ss_inner (ci_retire_dcid_seqs ids))
                           else ss_inner (ci_retire_dcid_seqs ids) - {s})\<rparr>\<rparr>))"
  by (simp add: mark_retire_dcid_seq_def ss_insert_def ss_remove_def)

lemma mark_retire_ok [keeps_inv]: "cid_ok ids \<Longrightarrow> cid_ok (snd (mark_retire_dcid_seq s b ids))"
  using ss_insert_keeps [of "ci_retire_dcid_seqs ids" s] ss_remove_keeps [of "ci_retire_dcid_seqs ids" s]
  by (simp add: mark_retire_eq cid_ok_def [of ids])

lemma mark_advertise_ok [keeps_inv]: "cid_ok (mark_advertise_new_scid_seq s b ids) \<longleftrightarrow> cid_ok ids"
  by (simp add: mark_advertise_new_scid_seq_def cid_ok_def scids_ok_def dcids_ok_def)

lemma set_limit_ok [keeps_inv]: "cid_ok ids \<Longrightarrow> cid_ok (set_source_conn_id_limit v ids)"
  by (auto simp: set_source_conn_id_limit_def cid_ok_def scids_ok_def dcids_ok_def dq_resize_def
      entries_wf_def Let_def)

lemma set_initial_dcid_ok [keeps_inv]: "cid_ok ids \<Longrightarrow> cid_ok (set_initial_dcid c t p ids)"
  by (auto simp: set_initial_dcid_def dq_clear_and_insert_def cid_ok_def scids_ok_def dcids_ok_def
      entries_wf_def)

lemma link_scid_ok [keeps_inv]: "cid_ok ids \<Longrightarrow> cid_ok (snd (link_scid_to_path_id s p ids))"
  by (auto simp: link_scid_to_path_id_def cid_ok_def scids_ok_def dcids_ok_def entries_wf_link link_all
      split: option.split)

lemma link_dcid_ok [keeps_inv]: "cid_ok ids \<Longrightarrow> cid_ok (snd (link_dcid_to_path_id s p ids))"
  by (auto simp: link_dcid_to_path_id_def cid_ok_def scids_ok_def dcids_ok_def entries_wf_link link_all
      split: option.split)

lemma pop_retired_ok [keeps_inv]: "cid_ok ids \<Longrightarrow> cid_ok (snd (pop_retired_scid ids))"
  by (auto simp: pop_retired_scid_def cid_ok_def scids_ok_def dcids_ok_def split: list.split)

lemma ids_new_ok [keeps_inv]: "ids_new l c p t = Some ids \<Longrightarrow> cid_ok ids"
  by (auto simp: ids_new_def Let_def cid_ok_def scids_ok_def dcids_ok_def entries_wf_def dq_new_def ss_new_def
      ss_ok_def)

lemma dq_remove_wf:
  assumes "entries_wf d" "dq_remove s d = Ok (x, d')"
  shows "entries_wf d'" "dq_inner d' \<noteq> []" "set (dq_inner d') \<subseteq> set (dq_inner d)"
    "dq_capacity d' = dq_capacity d" "x = dq_get s d" "1 < length (dq_inner d)"
  using assms set_remove_first_subset [of "\<lambda>e. ce_seq e = s" "dq_inner d"]
    length_remove_first [of "dq_inner d" "\<lambda>e. ce_seq e = s"]
  by (auto simp: dq_remove_def dq_len_def entries_wf_remove split: if_splits)

lemma dq_remove_cases:
  obtains "dq_remove s d = Err OutOfIdentifiers" | x d' where "dq_remove s d = Ok (x, d')"
  unfolding dq_remove_def by (cases "dq_len d \<le> 1") simp_all

lemma scids_removed:
  assumes "cid_ok ids" "dq_remove s (ci_scids ids) = Ok (x, d')"
  shows "cid_ok (ids\<lparr>ci_scids := d'\<rparr>)"
  using assms dq_remove_wf [OF _ assms(2)] by (auto simp: cid_ok_def scids_ok_def dcids_ok_def)

lemma dcids_removed:
  assumes "cid_ok ids" "dq_remove s (ci_dcids ids) = Ok (x, d')"
  shows "cid_ok (ids\<lparr>ci_dcids := d'\<rparr>)"
  using assms dq_remove_wf [OF _ assms(2)] by (auto simp: cid_ok_def scids_ok_def dcids_ok_def)

lemma cid_ok_unrelated [simp]:
  "cid_ok (ids\<lparr>ci_retired_scids := r\<rparr>) = cid_ok ids"
  "cid_ok (ids\<lparr>ci_retire_prior_to := n\<rparr>) = cid_ok ids"
  by (simp_all add: cid_ok_def scids_ok_def dcids_ok_def)

lemma retire_scid_ok [keeps_inv]: "cid_ok ids \<Longrightarrow> cid_ok (snd (retire_scid s c ids))"
  by (cases rule: dq_remove_cases [of s "ci_scids ids"])
    (auto simp: retire_scid_def scids_removed Let_def split: res.split option.split)

lemma retire_dcid_ok [keeps_inv]:
  assumes ok: "cid_ok ids"
  shows "cid_ok (snd (retire_dcid s ids))"
proof (cases rule: dq_remove_cases [of s "ci_dcids ids"])
  case 1
  then show ?thesis using ok by (simp add: retire_dcid_def)
next
  case (2 x d')
  note r = dcids_removed [OF ok 2]
  show ?thesis using ok r mark_retire_ok [OF r, of s True]
    by (simp add: retire_dcid_def 2 split: option.split prod.split) auto
qed

lemma new_scid_add_fresh:
  assumes "cid_ok ids" "find (\<lambda>e. ce_cid e = c) (dq_inner (ci_scids ids)) = None"
  shows "dq_insert \<lparr>ce_cid = c, ce_seq = ci_next_scid_seq ids, ce_reset_token = t, ce_path_id = p\<rparr> (ci_scids ids)
     = (if dq_capacity (ci_scids ids) \<le> length (dq_inner (ci_scids ids)) then Err IdLimit
        else Ok ((ci_scids ids)\<lparr>dq_inner := dq_inner (ci_scids ids) @
               [\<lparr>ce_cid = c, ce_seq = ci_next_scid_seq ids, ce_reset_token = t, ce_path_id = p\<rparr>]\<rparr>))"
  using assms by (subst dq_insert_fresh) (auto simp: cid_ok_def scids_ok_def)

lemma new_scid_add_ok:
  assumes ok: "cid_ok ids" and z: "\<not> ci_zero_length_scid ids"
    and np: "fst (new_scid_add c t a p ids) \<noteq> Panic"
  shows "cid_ok (snd (new_scid_add c t a p ids))"
proof (cases "(t = None \<and> ci_next_scid_seq ids \<noteq> 0)
    \<or> find (\<lambda>e. ce_cid e = c) (dq_inner (ci_scids ids)) \<noteq> None
    \<or> dq_capacity (ci_scids ids) \<le> length (dq_inner (ci_scids ids))")
  case True
  then show ?thesis using ok new_scid_add_fresh [OF ok]
    by (auto simp: new_scid_add_def Let_def split: option.split)
next
  case False
  let ?e = "\<lparr>ce_cid = c, ce_seq = ci_next_scid_seq ids, ce_reset_token = t, ce_path_id = p\<rparr>"
  let ?d = "(ci_scids ids)\<lparr>dq_inner := dq_inner (ci_scids ids) @ [?e]\<rparr>"
  have f: "find (\<lambda>e. ce_cid e = c) (dq_inner (ci_scids ids)) = None" using False by simp
  have w: "entries_wf ?d"
    using ok f False by (intro entries_wf_append) (auto simp: cid_ok_def scids_ok_def find_None)
  have "cid_ok (ids\<lparr>ci_scids := ?d, ci_next_scid_seq := Suc (ci_next_scid_seq ids)\<rparr>)"
    using ok w z by (auto simp: cid_ok_def scids_ok_def dcids_ok_def)
  moreover have "u64_add (ci_next_scid_seq ids) 1 = Some (Suc (ci_next_scid_seq ids))"
    using np f False new_scid_add_fresh [OF ok f]
    by (auto simp: new_scid_add_def Let_def u64_add_def split: if_splits)
  ultimately show ?thesis
    using False f new_scid_add_fresh [OF ok f] by (auto simp: new_scid_add_def Let_def mark_advertise_ok)
qed

lemma new_scid_ok [keeps_inv]:
  assumes ok: "cid_ok ids" and np: "fst (new_scid c t a p r ids) \<noteq> Panic"
  shows "cid_ok (snd (new_scid c t a p r ids))"
proof (cases "ci_zero_length_scid ids \<or> dq_len (ci_scids ids) < ci_source_conn_id_limit ids")
  case True
  then show ?thesis using ok np new_scid_add_ok [OF ok, of c t a p] by (auto simp: new_scid_def)
next
  case False
  have "cid_ok (snd (new_scid_add c t a p (ids\<lparr>ci_retire_prior_to := n\<rparr>)))"
    if "fst (new_scid_add c t a p (ids\<lparr>ci_retire_prior_to := n\<rparr>)) \<noteq> Panic" for n
    using that ok False by (intro new_scid_add_ok) simp_all
  then show ?thesis using False ok np by (auto simp: new_scid_def split: res.splits option.splits if_splits)
qed

subsubsection \<open>New destination identifiers keep the invariant\<close>

lemma retire_prior_eq:
  "retire_prior pp r ids p =
     (if r > ci_largest_peer_retire_prior_to ids then
        (let inner = dq_inner (ci_dcids ids); i = pp (\<lambda>e. ce_seq e < r) inner;
             q = drain_retired (take i inner) (ci_retire_dcid_seqs ids) p in
         (fst q, ids\<lparr>ci_retire_dcid_seqs := fst (snd q),
            ci_dcids := (ci_dcids ids)\<lparr>dq_inner := drop i inner\<rparr>,
            ci_largest_peer_retire_prior_to := r\<rparr>, snd (snd q)))
      else (None, ids, p))"
  by (simp add: retire_prior_def Let_def split: prod.split)

definition dcids_add :: "cid_entry \<Rightarrow> nat \<Rightarrow> conn_ids \<Rightarrow> conn_ids" where
  "dcids_add e i ids = ids\<lparr>ci_dcids := (ci_dcids ids)\<lparr>dq_inner := drop i (dq_inner (ci_dcids ids)) @ [e]\<rparr>\<rparr>"

lemma dcids_add_ok:
  assumes "dcids_ok ids" "ce_seq e \<notin> ce_seq ` set (dq_inner (ci_dcids ids))"
    "ce_cid e \<notin> ce_cid ` set (dq_inner (ci_dcids ids))" "ce_reset_token e \<noteq> None"
    "length (drop i (dq_inner (ci_dcids ids))) < dq_capacity (ci_dcids ids)"
    "ce_seq e \<le> ci_largest_destination_seq ids"
  shows "dcids_ok (dcids_add e i ids)"
proof -
  let ?d = "(ci_dcids ids)\<lparr>dq_inner := drop i (dq_inner (ci_dcids ids))\<rparr>"
  have "entries_wf ?d" using assms(1) by (intro entries_wf_drop) (simp add: dcids_ok_def)
  then have "entries_wf (?d\<lparr>dq_inner := dq_inner ?d @ [e]\<rparr>)"
    using assms by (intro entries_wf_append) (auto dest: in_set_dropD)
  then show ?thesis using assms(1,6) by (auto simp: dcids_ok_def dcids_add_def dest: in_set_dropD)
qed

definition retired_view :: "nat \<Rightarrow> seq_set \<Rightarrow> u64 \<Rightarrow> conn_ids \<Rightarrow> conn_ids" where
  "retired_view i s r ids =
     ids\<lparr>ci_retire_dcid_seqs := s, ci_dcids := (ci_dcids ids)\<lparr>dq_inner := drop i (dq_inner (ci_dcids ids))\<rparr>,
         ci_largest_peer_retire_prior_to := r\<rparr>"

lemma retired_view_sel [simp]:
  "ci_dcids (retired_view i s r ids) = (ci_dcids ids)\<lparr>dq_inner := drop i (dq_inner (ci_dcids ids))\<rparr>"
  "ci_retire_dcid_seqs (retired_view i s r ids) = s"
  "ci_largest_peer_retire_prior_to (retired_view i s r ids) = r"
  by (simp_all add: retired_view_def)

lemma retired_view_ok:
  "cid_ok (retired_view i s r ids\<lparr>ci_dcids := d\<rparr>) \<longleftrightarrow> scids_ok ids \<and> dcids_ok (ids\<lparr>ci_dcids := d\<rparr>) \<and> ss_ok s"
  by (simp add: retired_view_def cid_ok_def scids_ok_def dcids_ok_def)

lemma retired_view_ok0:
  "cid_ok (retired_view i s r ids) \<longleftrightarrow>
     scids_ok ids \<and> dcids_ok (ids\<lparr>ci_dcids := ci_dcids (retired_view i s r ids)\<rparr>) \<and> ss_ok s"
  by (simp add: retired_view_def cid_ok_def scids_ok_def dcids_ok_def)

lemma retire_prior_result:
  assumes "retire_prior pp r ids p = (err, ids2, p2)" and "ss_ok (ci_retire_dcid_seqs ids)"
  obtains i s r' where "ids2 = retired_view i s r' ids" "ss_ok s"
proof (cases "r > ci_largest_peer_retire_prior_to ids")
  case True
  then show ?thesis
    using assms that [of "pp (\<lambda>e. ce_seq e < r) (dq_inner (ci_dcids ids))" _ r] drain_retired_ok [OF assms(2)]
    by (auto simp: retire_prior_eq retired_view_def Let_def)
next
  case False
  then show ?thesis
    using assms that [of 0 "ci_retire_dcid_seqs ids" "ci_largest_peer_retire_prior_to ids"]
    by (auto simp: retire_prior_eq retired_view_def)
qed

abbreviation (input) fresh_dcid :: "cid \<Rightarrow> u64 \<Rightarrow> conn_ids \<Rightarrow> bool" where
  "fresh_dcid c s ids \<equiv> find (\<lambda>e. ce_cid e = c \<or> ce_seq e = s) (dq_inner (ci_dcids ids)) = None"

definition seen_seq :: "u64 \<Rightarrow> conn_ids \<Rightarrow> conn_ids" where
  "seen_seq s ids = ids\<lparr>ci_largest_destination_seq := max s (ci_largest_destination_seq ids)\<rparr>"

lemma seen_seq_sel [simp]:
  "ci_dcids (seen_seq s ids) = ci_dcids ids" "ci_retire_dcid_seqs (seen_seq s ids) = ci_retire_dcid_seqs ids"
  "ci_largest_peer_retire_prior_to (seen_seq s ids) = ci_largest_peer_retire_prior_to ids"
  "ci_largest_destination_seq (seen_seq s ids) = max s (ci_largest_destination_seq ids)"
  by (simp_all add: seen_seq_def)

lemma new_dcid_fresh:
  assumes "\<not> ci_zero_length_dcid ids" "fresh_dcid c s ids" "r \<le> s" "ci_largest_peer_retire_prior_to ids \<le> s"
    and "retire_prior pp r (seen_seq s ids) p = (err, retired_view i rs r' (seen_seq s ids), p2)"
  shows "new_dcid pp c s t r ids p =
     (if dq_capacity (ci_dcids ids) \<le> length (drop i (dq_inner (ci_dcids ids)))
      then (Err IdLimit, retired_view i rs r' (seen_seq s ids), p2)
      else (case err of Some e \<Rightarrow> Err e | None \<Rightarrow> Ok (),
            (retired_view i rs r' (seen_seq s ids))\<lparr>ci_dcids := (ci_dcids ids)\<lparr>dq_inner :=
               drop i (dq_inner (ci_dcids ids)) @ [\<lparr>ce_cid = c, ce_seq = s, ce_reset_token = Some t, ce_path_id = None\<rparr>]\<rparr>\<rparr>, p2))"
proof -
  have n: "s \<notin> ce_seq ` set (drop i (dq_inner (ci_dcids ids)))"
    using assms(2) by (auto simp: find_None dest: in_set_dropD)
  have m: "(if ci_largest_destination_seq ids < s then ids\<lparr>ci_largest_destination_seq := s\<rparr> else ids) = seen_seq s ids"
    by (simp add: seen_seq_def)
  show ?thesis
    using assms n by (simp add: new_dcid_def Let_def m dq_insert_fresh)
qed

lemma new_dcid_ok [keeps_inv]:
  assumes ok: "cid_ok ids"
  shows "cid_ok (fst (snd (new_dcid pp c s t r ids p)))"
proof (cases "\<not> ci_zero_length_dcid ids \<and> fresh_dcid c s ids \<and> r \<le> s \<and> ci_largest_peer_retire_prior_to ids \<le> s")
  case False
  then show ?thesis using ok mark_retire_ok [OF ok, of s True]
    by (auto simp: new_dcid_def split: option.split prod.split)
next
  case True
  let ?ids1 = "seen_seq s ids"
  have ok1: "scids_ok ?ids1" "dcids_ok ?ids1" "ss_ok (ci_retire_dcid_seqs ?ids1)"
    using ok by (auto simp: seen_seq_def cid_ok_def scids_ok_def dcids_ok_def max_def intro: order.trans less_imp_le)
  obtain err ids2 p2 where rp: "retire_prior pp r ?ids1 p = (err, ids2, p2)" by (cases "retire_prior pp r ?ids1 p")
  obtain i rs r' where i: "ids2 = retired_view i rs r' ?ids1" and rs: "ss_ok rs"
    by (rule retire_prior_result [OF rp ok1(3)])
  show ?thesis
  proof (cases "dq_capacity (ci_dcids ids) \<le> length (drop i (dq_inner (ci_dcids ids)))")
    case full: True
    then have "drop i (dq_inner (ci_dcids ids)) \<noteq> []" using ok1(2) by (auto simp: dcids_ok_def)
    then have "dcids_ok (?ids1\<lparr>ci_dcids := (ci_dcids ids)\<lparr>dq_inner := drop i (dq_inner (ci_dcids ids))\<rparr>\<rparr>)"
      using ok1(2) by (auto simp: dcids_ok_def entries_wf_drop seen_seq_def dest: in_set_dropD)
    then have "cid_ok ids2"
      using ok1(1) rs by (simp add: i retired_view_ok0)
    then show ?thesis using True full i by (simp add: new_dcid_fresh [OF _ _ _ _ rp [unfolded i]])
  next
    case room: False
    let ?e = "\<lparr>ce_cid = c, ce_seq = s, ce_reset_token = Some t, ce_path_id = None\<rparr>"
    have "dcids_ok (dcids_add ?e i ?ids1)"
      using ok1(2) True room by (intro dcids_add_ok) (auto simp: find_None)
    then have "dcids_ok (?ids1\<lparr>ci_dcids := (ci_dcids ids)\<lparr>dq_inner := drop i (dq_inner (ci_dcids ids)) @ [?e]\<rparr>\<rparr>)"
      by (simp add: dcids_add_def)
    then show ?thesis
      using True room ok1(1) rs by (simp add: new_dcid_fresh [OF _ _ _ _ rp [unfolded i]] retired_view_ok)
  qed
qed

subsection \<open>Searching the partition point\<close>

text \<open>
  The documented contract of \<^verbatim>\<open>partition_point\<close>, and the binary search of the standard library on
  a deque whose elements are stored contiguously.
\<close>

locale partition_search =
  fixes pp :: partition_fun
  assumes partitioned: "\<forall>x \<in> set (dropWhile P xs). \<not> P x \<Longrightarrow> pp P xs = length (takeWhile P xs)"
    and in_range: "pp P xs \<le> length xs"
begin

lemma sorted_split:
  assumes "sorted (map ce_seq xs)"
  shows "take (pp (\<lambda>e. ce_seq e < r) xs) xs = filter (\<lambda>e. ce_seq e < r) xs"
    and "drop (pp (\<lambda>e. ce_seq e < r) xs) xs = filter (\<lambda>e. r \<le> ce_seq e) xs"
proof -
  let ?P = "\<lambda>e. ce_seq e < r"
  have tw: "takeWhile ?P xs = filter ?P xs" "dropWhile ?P xs = filter (\<lambda>e. r \<le> ce_seq e) xs"
    using assms by (induction xs) (auto intro!: filter_False [symmetric] filter_True [symmetric])
  then have "pp ?P xs = length (takeWhile ?P xs)" by (intro partitioned) auto
  then show "take (pp ?P xs) xs = filter ?P xs" "drop (pp ?P xs) xs = filter (\<lambda>e. r \<le> ce_seq e) xs"
    using tw takeWhile_eq_take [of ?P xs] dropWhile_eq_drop [of ?P xs] by metis+
qed

end

fun bisect :: "('a \<Rightarrow> bool) \<Rightarrow> 'a list \<Rightarrow> nat \<Rightarrow> nat \<Rightarrow> nat" where
  "bisect P xs base n =
     (if n \<le> 1 then (if P (xs ! base) then base + 1 else base)
      else let half = n div 2; mid = base + half in
           bisect P xs (if P (xs ! mid) then mid else base) (n - half))"

declare bisect.simps [simp del]

definition partition_point :: "('a \<Rightarrow> bool) \<Rightarrow> 'a list \<Rightarrow> nat" where
  "partition_point P xs = (if xs = [] then 0 else bisect P xs 0 (length xs))"

lemma bisect_bound:
  "0 < n \<Longrightarrow> bisect P xs base n \<le> base + n"
proof (induction P xs base n rule: bisect.induct)
  case (1 P xs base n)
  show ?case
  proof (cases "n \<le> 1")
    case False
    then show ?thesis using 1(1) [OF False refl refl] 1(2)
      by (subst bisect.simps) (auto simp: Let_def split: if_splits)
  qed (use 1(2) in \<open>auto simp: bisect.simps\<close>)
qed

lemma bisect_finds:
  assumes "\<And>j. base \<le> j \<Longrightarrow> j < base + n \<Longrightarrow> P (xs ! j) \<longleftrightarrow> j < k" "base \<le> k" "k \<le> base + n" "0 < n"
  shows "bisect P xs base n = k"
  using assms
proof (induction P xs base n rule: bisect.induct)
  case (1 P xs base n)
  show ?case
  proof (cases "n \<le> 1")
    case True
    then have "n = 1" using 1(5) by simp
    then show ?thesis using 1(2) [of base] 1(3,4) by (auto simp: bisect.simps)
  next
    case False
    let ?mid = "base + n div 2"
    have m: "P (xs ! ?mid) \<longleftrightarrow> ?mid < k" using 1(2) [of ?mid] False by simp
    let ?b = "if P (xs ! ?mid) then ?mid else base"
    have "bisect P xs ?b (n - n div 2) = k"
      using m 1(2) 1(3-5) False by (intro 1(1) [OF False refl refl]) (auto split: if_splits)
    then show ?thesis using False by (subst bisect.simps) (simp add: Let_def)
  qed
qed

interpretation slice: partition_search partition_point
proof unfold_locales
  fix P :: "cid_entry \<Rightarrow> bool" and xs
  show "partition_point P xs \<le> length xs"
    using bisect_bound [of "length xs" P xs 0] by (auto simp: partition_point_def)
  assume d: "\<forall>x \<in> set (dropWhile P xs). \<not> P x"
  let ?k = "length (takeWhile P xs)"
  have "P (xs ! j) \<longleftrightarrow> j < ?k" if "j < length xs" for j
  proof (cases "j < ?k")
    case True
    then show ?thesis using takeWhile_nth [OF True] nth_mem [OF True] by (auto dest: set_takeWhileD)
  next
    case False
    then have "xs ! j = dropWhile P xs ! (j - ?k)" using that by (simp add: dropWhile_eq_drop)
    moreover have "j - ?k < length (dropWhile P xs)"
      using False that by (simp add: dropWhile_eq_drop)
    ultimately show ?thesis using d False nth_mem by metis
  qed
  then show "partition_point P xs = ?k"
    by (auto simp: partition_point_def length_takeWhile_le intro!: bisect_finds)
qed

subsection \<open>Properties\<close>

text \<open>
  The states a connection can get into: every operation may be called at any time, and an
  operation that returns an error goes on from the state it left behind.
\<close>

inductive cid_reach :: "partition_fun \<Rightarrow> conn_ids \<Rightarrow> bool" for pp where
  start: "ids_new l c p t = Some ids \<Longrightarrow> cid_reach pp ids"
| limit: "cid_reach pp ids \<Longrightarrow> cid_reach pp (set_source_conn_id_limit v ids)"
| initial: "cid_reach pp ids \<Longrightarrow> cid_reach pp (set_initial_dcid c t p ids)"
| add_scid: "cid_reach pp ids \<Longrightarrow> fst (new_scid c t a p r ids) \<noteq> Panic \<Longrightarrow>
    cid_reach pp (snd (new_scid c t a p r ids))"
| add_dcid: "cid_reach pp ids \<Longrightarrow> cid_reach pp (fst (snd (new_dcid pp c s t r ids paths)))"
| drop_scid: "cid_reach pp ids \<Longrightarrow> cid_reach pp (snd (retire_scid s c ids))"
| drop_dcid: "cid_reach pp ids \<Longrightarrow> cid_reach pp (snd (retire_dcid s ids))"
| link_scid: "cid_reach pp ids \<Longrightarrow> cid_reach pp (snd (link_scid_to_path_id s n ids))"
| link_dcid: "cid_reach pp ids \<Longrightarrow> cid_reach pp (snd (link_dcid_to_path_id s n ids))"
| advertise: "cid_reach pp ids \<Longrightarrow> cid_reach pp (mark_advertise_new_scid_seq s b ids)"
| retire: "cid_reach pp ids \<Longrightarrow> cid_reach pp (snd (mark_retire_dcid_seq s b ids))"
| pop: "cid_reach pp ids \<Longrightarrow> cid_reach pp (snd (pop_retired_scid ids))"

lemma cid_reach_ok: "cid_reach pp ids \<Longrightarrow> cid_ok ids"
  by (induction rule: cid_reach.induct) (simp_all add: keeps_inv)

lemma dq_insert_no_panic: "dq_insert e d \<noteq> Panic"
  by (simp add: dq_insert_new)

lemma min_of_mem: "min_of xs = Some x \<Longrightarrow> x \<in> set xs"
  by (auto simp: min_of_def split: if_splits)

lemma lowest_usable_less:
  assumes "cid_ok ids" "lowest_usable_scid_seq ids = Ok s"
  shows "s < ci_next_scid_seq ids"
  using assms by (auto simp: lowest_usable_scid_seq_def ok_or_def cid_ok_def scids_ok_def
      dest!: min_of_mem split: option.splits)

lemma new_scid_no_panic:
  assumes ok: "cid_ok ids" and n: "ci_next_scid_seq ids < u64_max"
  shows "fst (new_scid c t a p r ids) \<noteq> Panic"
proof -
  have "fst (new_scid_add c t a p (ids\<lparr>ci_retire_prior_to := m\<rparr>)) \<noteq> Panic" for m
    using n dq_insert_no_panic
    by (auto simp: new_scid_add_def Let_def u64_add_def split: option.split res.split)
  from this [of "ci_retire_prior_to ids"] this show ?thesis
    using lowest_usable_less [OF ok] n
    by (auto simp: new_scid_def u64_add_def lowest_usable_scid_seq_def ok_or_def split: option.split)
qed

lemma mark_retire_no_panic: "fst (mark_retire_dcid_seq s b ids) \<noteq> Panic"
  by (simp add: mark_retire_eq)

lemma new_dcid_no_panic: "fst (new_dcid pp c s t r ids p) \<noteq> Panic"
  using mark_retire_no_panic [of s True ids] dq_insert_no_panic
  by (auto simp: new_dcid_def Let_def split: option.split res.split prod.split)

lemma retire_no_panic:
  "fst (retire_scid s c ids) \<noteq> Panic" "fst (retire_dcid s ids) \<noteq> Panic"
  by (auto simp: retire_scid_def retire_dcid_def dq_remove_def lowest_usable_scid_seq_def ok_or_def Let_def
      mark_retire_eq split: option.split)

text \<open>
  C21: every state a connection's identifiers reach is well formed: in both deques the
  sequence numbers and the identifiers are distinct, the capacity is respected and at least
  one entry is left, so that reading the oldest entry never panics; no operation panics while
  sequence numbers are left to assign; and a frame can be built for every source identifier
  but the initial one.
\<close>

theorem cid_reachable_ok:
  assumes "cid_reach pp ids"
  shows "cid_ok ids \<and> oldest_scid ids \<noteq> None \<and> oldest_dcid ids \<noteq> None
    \<and> fst (new_dcid pp c s tok r ids paths) \<noteq> Panic
    \<and> fst (retire_scid s c ids) \<noteq> Panic \<and> fst (retire_dcid s ids) \<noteq> Panic
    \<and> (ci_next_scid_seq ids < u64_max \<longrightarrow> fst (new_scid c t a p b ids) \<noteq> Panic)
    \<and> (\<forall>e \<in> set (dq_inner (ci_scids ids)). ce_seq e \<noteq> 0 \<longrightarrow>
         is_ok (get_new_connection_id_frame_for (ce_seq e) ids
                  :: (error, ('rep, 'src, 'meta) frame) res))"
proof -
  have ok: "cid_ok ids" using assms by (rule cid_reach_ok)
  then have "oldest_scid ids \<noteq> None" "oldest_dcid ids \<noteq> None"
    by (auto simp: oldest_scid_def oldest_dcid_def dq_get_oldest_def cid_ok_def scids_ok_def dcids_ok_def
        split: list.split)
  moreover have "is_ok (get_new_connection_id_frame_for (ce_seq e) ids :: (error, ('rep, 'src, 'meta) frame) res)"
    if "e \<in> set (dq_inner (ci_scids ids))" "ce_seq e \<noteq> 0" for e
  proof -
    have "dq_get (ce_seq e) (ci_scids ids) = Some e"
      using that(1) ok by (simp add: dq_get_iff entries_wf_dq_ok cid_ok_def scids_ok_def)
    then show ?thesis
      using that ok by (auto simp: get_new_connection_id_frame_for_def ok_or_def cid_ok_def scids_ok_def entries_wf_def)
  qed
  ultimately show ?thesis
    using ok new_dcid_no_panic retire_no_panic new_scid_no_panic [OF ok] by blast
qed

definition sample_ids :: conn_ids where
  "sample_ids =
     \<lparr>ci_dcids = dq_new 3 \<lparr>ce_cid = [], ce_seq = 0, ce_reset_token = None, ce_path_id = Some 0\<rparr>,
      ci_scids = dq_new 3 \<lparr>ce_cid = [7], ce_seq = 0, ce_reset_token = None, ce_path_id = Some 0\<rparr>,
      ci_advertise_new_scid_seqs = [], ci_retire_dcid_seqs = ss_new 9, ci_retired_scids = [],
      ci_largest_peer_retire_prior_to = 0, ci_largest_destination_seq = 0, ci_next_scid_seq = 1,
      ci_retire_prior_to = 0, ci_source_conn_id_limit = 2, ci_zero_length_scid = False,
      ci_zero_length_dcid = False\<rparr>"

lemma sample_ids_new: "ids_new 3 [7] 0 None = Some sample_ids"
  by (simp add: sample_ids_def ids_new_def Let_def u64_mul_def RETIRED_CONN_ID_LIMIT_MULTIPLIER_def)

theorem cid_reachable_ok_witness:
  "cid_ok sample_ids \<and> oldest_scid sample_ids \<noteq> None \<and> oldest_dcid sample_ids \<noteq> None
   \<and> fst (new_dcid partition_point [8] 1 9 0 sample_ids []) \<noteq> Panic"
  using cid_reachable_ok [OF cid_reach.start [OF sample_ids_new], of partition_point "[8]" 1 9 0 "[]"] by blast

text \<open>
  C22: the deque implements the bounded table: inserting replaces or adds the entry of its
  sequence number and is refused exactly when a new entry would exceed the capacity, removing
  takes out the entry of the number and is refused exactly when one entry is left.
\<close>

theorem deque_refines_table:
  assumes "dq_ok d"
  shows "map_res id (\<lambda>d s. dq_get s d) (dq_insert e d) = tbl_insert (dq_capacity d) e (\<lambda>s. dq_get s d)
    \<and> map_res id (map_prod id (\<lambda>d s. dq_get s d)) (dq_remove s d) = tbl_remove s (\<lambda>s. dq_get s d)
    \<and> (\<forall>d'. dq_insert e d = Ok d' \<longrightarrow> dq_ok d') \<and> (\<forall>x d'. dq_remove s d = Ok (x, d') \<longrightarrow> dq_ok d')"
  using assms dq.ins_table dq.rem_table dq.ins_ok dq.rem_ok by blast

definition sample_entry :: "u64 \<Rightarrow> cid_entry" where
  "sample_entry s = \<lparr>ce_cid = [word_of_nat s], ce_seq = s, ce_reset_token = Some 5, ce_path_id = None\<rparr>"

theorem deque_refines_table_witness:
  "map_res id (\<lambda>d s. dq_get s d) (dq_insert (sample_entry 1) (dq_new 2 (sample_entry 0)))
     = Ok ((\<lambda>s. dq_get s (dq_new 2 (sample_entry 0)))(1 \<mapsto> sample_entry 1))"
proof -
  have ok: "dq_ok (dq_new 2 (sample_entry 0))" by (simp add: dq_ok_def dq_new_def)
  have "card (dom (\<lambda>s. dq_get s (dq_new 2 (sample_entry 0)))) = 1" "dq_get 1 (dq_new 2 (sample_entry 0)) = None"
    "dq_capacity (dq_new 2 (sample_entry 0)) = 2" "ce_seq (sample_entry 1) = 1"
    using card_dom_dq_get [OF ok] by (simp_all add: dq_new_def dq_get_def sample_entry_def)
  then show ?thesis
    using deque_refines_table [OF ok, of "sample_entry 1"] by (simp add: tbl_insert_def)
qed

lemma drain_retired_None:
  "drain_retired es r p = (None, r', p') \<Longrightarrow>
   r' = r\<lparr>ss_inner := ss_inner r \<union> ce_seq ` set es\<rparr> \<and> p' = p @ concat (map linked_path es)"
proof (induction es arbitrary: r p)
  case (Cons e es)
  from Cons.prems have "drain_retired es (r\<lparr>ss_inner := insert (ce_seq e) (ss_inner r)\<rparr>) (p @ linked_path e)
      = (None, r', p')" by (simp add: drain_retired_Cons split: if_splits)
  from Cons.IH [OF this] show ?case by simp
qed simp

text \<open>
  C23: while the peer's identifiers are kept in the order of their sequence numbers, an
  accepted new identifier with a higher \<^verbatim>\<open>retire_prior_to\<close> removes exactly the identifiers
  below it, queues exactly their numbers for retirement, reports exactly the paths that used
  them, and is itself active.
\<close>

theorem new_dcid_retires:
  assumes pp: "partition_search pp" and srt: "sorted (map ce_seq (dq_inner (ci_dcids ids)))"
    and fresh: "fresh_dcid c s ids" and old: "ci_largest_peer_retire_prior_to ids < r"
    and acc: "new_dcid pp c s t r ids paths = (Ok (), ids', paths')"
  shows "dq_inner (ci_dcids ids') = filter (\<lambda>e. r \<le> ce_seq e) (dq_inner (ci_dcids ids))
           @ [\<lparr>ce_cid = c, ce_seq = s, ce_reset_token = Some t, ce_path_id = None\<rparr>]
    \<and> ss_inner (ci_retire_dcid_seqs ids')
        = ss_inner (ci_retire_dcid_seqs ids) \<union> {q \<in> ce_seq ` set (dq_inner (ci_dcids ids)). q < r}
    \<and> paths' = paths @ concat (map linked_path (filter (\<lambda>e. ce_seq e < r) (dq_inner (ci_dcids ids))))
    \<and> ci_largest_peer_retire_prior_to ids' = r \<and> ci_scids ids' = ci_scids ids"
proof -
  let ?P = "\<lambda>e. ce_seq e < r" and ?inner = "dq_inner (ci_dcids ids)"
  let ?i = "pp ?P ?inner"
  have g: "\<not> ci_zero_length_dcid ids" "r \<le> s"
    using acc fresh by (auto simp: new_dcid_def split: if_splits)
  obtain err rs p2 where d: "drain_retired (take ?i ?inner) (ci_retire_dcid_seqs ids) paths = (err, rs, p2)"
    by (cases "drain_retired (take ?i ?inner) (ci_retire_dcid_seqs ids) paths")
  then have "retire_prior pp r (seen_seq s ids) paths = (err, retired_view ?i rs r (seen_seq s ids), p2)"
    using old by (simp add: retire_prior_eq Let_def retired_view_def)
  note n = new_dcid_fresh [OF g(1) fresh g(2) _ this, of t]
  have err: "err = None" and ids': "ids' = (retired_view ?i rs r (seen_seq s ids))\<lparr>ci_dcids := (ci_dcids ids)\<lparr>dq_inner :=
               drop ?i ?inner @ [\<lparr>ce_cid = c, ce_seq = s, ce_reset_token = Some t, ce_path_id = None\<rparr>]\<rparr>\<rparr>"
    and p2: "paths' = p2"
    using n acc old g(2) by (auto split: if_splits option.splits)
  note split = partition_search.sorted_split [OF pp srt, of r]
  show ?thesis
    using drain_retired_None [OF d [unfolded err]] unfolding ids' p2 split
    by (auto simp: retired_view_def seen_seq_def)
qed

lemma partition_point_search: "partition_search partition_point"
  by unfold_locales

theorem new_dcid_retires_witness:
  "\<exists>ids' paths'. new_dcid partition_point [2] 1 50 1 (set_initial_dcid [1] None (Some 4) sample_ids) []
       = (Ok (), ids', paths')
     \<and> map ce_seq (dq_inner (ci_dcids ids')) = [1] \<and> ss_inner (ci_retire_dcid_seqs ids') = {0}
     \<and> paths' = [(0, 4)]"
proof -
  let ?ids = "set_initial_dcid [1] None (Some 4) sample_ids"
  have i: "dq_inner (ci_dcids ?ids) = [\<lparr>ce_cid = [1], ce_seq = 0, ce_reset_token = None, ce_path_id = Some 4\<rparr>]"
    "ci_largest_peer_retire_prior_to ?ids = 0" "ss_inner (ci_retire_dcid_seqs ?ids) = {}"
    by (simp_all add: set_initial_dcid_def dq_clear_and_insert_def sample_ids_def ss_new_def)
  let ?r = "new_dcid partition_point [2] 1 50 1 ?ids []"
  have "fst ?r = Ok ()"
    by code_simp
  then obtain ids' paths' where acc: "?r = (Ok (), ids', paths')" by (cases ?r) auto
  have "sorted (map ce_seq (dq_inner (ci_dcids ?ids)))" "fresh_dcid [2] 1 ?ids"
    "ci_largest_peer_retire_prior_to ?ids < 1"
    by (simp_all add: i)
  from new_dcid_retires [OF partition_point_search this acc] show ?thesis
    unfolding i using acc by (simp add: linked_path_def insert_Collect)
qed

abbreviation active_dcids :: "conn_ids \<Rightarrow> u64 set" where
  "active_dcids ids \<equiv> ce_seq ` set (dq_inner (ci_dcids ids))"



text \<open>
  C24: calls of \<^verbatim>\<open>new_scid\<close> that all succeed can leave an identifier to announce that the peer
  refuses: with a limit of three, adding four identifiers before a packet is sent raises
  \<^verbatim>\<open>retire_prior_to\<close> to 2, and the frame for identifier 1 then carries a \<^verbatim>\<open>retire_prior_to\<close> above its
  own number, which the receiver treats as a connection error.
\<close>

theorem stale_scid_frame_rejected:
  assumes "\<not> ci_zero_length_dcid ids" and "fresh_dcid [11] 1 ids"
  shows "let add = (\<lambda>c s. new_scid [c] (Some (unat c)) True None True (snd s));
             s0 = (Ok 0, set_source_conn_id_limit 3 sample_ids);
             s1 = add 11 s0; s2 = add 12 s1; s3 = add 13 s2; s4 = add 14 s3 in
     fst s1 = Ok 1 \<and> fst s2 = Ok 2 \<and> fst s3 = Ok 3 \<and> fst s4 = Ok 4
   \<and> next_advertise_new_scid_seq (snd s4) = Some 1
   \<and> get_new_connection_id_frame_for 1 (snd s4)
       = Ok (NewConnectionId 1 2 [11] (be_bytes 16 11) :: ('rep, 'src, 'meta) frame)
   \<and> new_dcid pp [11] 1 11 2 ids paths = (Err InvalidFrame, ids, paths)"
proof -
  let ?e = "\<lambda>q. \<lparr>ce_cid = [10 + word_of_nat q], ce_seq = q, ce_reset_token = Some (10 + q), ce_path_id = None\<rparr>"
  let ?s = "\<lambda>n r. sample_ids\<lparr>ci_source_conn_id_limit := 3, ci_retire_prior_to := r, ci_next_scid_seq := Suc n,
      ci_scids := \<lparr>dq_inner = dq_inner (ci_scids sample_ids) @ map ?e [1..<Suc n], dq_capacity = 5\<rparr>,
      ci_advertise_new_scid_seqs := [1..<Suc n]\<rparr>"
  have s0: "set_source_conn_id_limit 3 sample_ids = ?s 0 0"
    by (simp add: set_source_conn_id_limit_def Let_def dq_resize_def sample_ids_def dq_new_def)
  note ev = new_scid_def new_scid_add_def Let_def dq_len_def dq_insert_new dq_get_def upt_rec
        mark_advertise_new_scid_seq_def lowest_usable_scid_seq_def min_of_def ok_or_def sample_ids_def dq_new_def
  have s1: "new_scid [11] (Some 11) True None True (?s 0 0) = (Ok 1, ?s 1 0)" by (simp add: ev)
  have s2: "new_scid [12] (Some 12) True None True (?s 1 0) = (Ok 2, ?s 2 0)" by (simp add: ev)
  have s3: "new_scid [13] (Some 13) True None True (?s 2 0) = (Ok 3, ?s 3 1)" by (simp add: ev)
  have s4: "new_scid [14] (Some 14) True None True (?s 3 1) = (Ok 4, ?s 4 2)" by (simp add: ev)
  have "new_dcid pp [11] 1 11 2 ids paths = (Err InvalidFrame, ids, paths)"
    using assms by (simp add: new_dcid_def)
  moreover have "next_advertise_new_scid_seq (?s 4 2) = Some 1"
    "get_new_connection_id_frame_for 1 (?s 4 2) = Ok (NewConnectionId 1 2 [11] (be_bytes 16 11) :: ('rep, 'src, 'meta) frame)"
    by (simp_all add: next_advertise_new_scid_seq_def get_new_connection_id_frame_for_def ev)
  moreover have "unat (11 :: byte) = 11" "unat (12 :: byte) = 12" "unat (13 :: byte) = 13" "unat (14 :: byte) = 14"
    by simp_all
  ultimately show ?thesis
    by (simp only: Let_def snd_conv fst_conv s0 s1 s2 s3 s4 simp_thms)
qed

theorem stale_scid_frame_rejected_witness:
  "new_dcid partition_point [11] 1 11 2 sample_ids [] = (Err InvalidFrame, sample_ids, [])"
proof -
  have "\<not> ci_zero_length_dcid sample_ids" "fresh_dcid [11] 1 sample_ids"
    by (simp_all add: sample_ids_def dq_new_def)
  from stale_scid_frame_rejected [OF this, of partition_point "[]"] show ?thesis
    unfolding Let_def by (elim conjE)
qed

end
