(* ===== verification/TransportParams.thy ===== *)
theory TransportParams
  imports Codec
begin

text \<open>
  Transport parameters: the record \<^verbatim>\<open>TransportParams\<close> of \<^verbatim>\<open>quiche/src/lib.rs\<close>, its default, \<^verbatim>\<open>decode\<close>
  and \<^verbatim>\<open>encode\<close>.  A parameter on the wire is an identifier, a length and that many bytes;
  \<open>decode_param\<close> is the body of the decoding loop for one of them.  The wire format of a whole
  record is the list \<open>tp_params\<close> of its identifiers and values.
\<close>

definition MAX_STREAM_ID :: u64 where "MAX_STREAM_ID = 2 ^ 60"

record transport_params =
  original_destination_connection_id :: "byte list option"
  max_idle_timeout :: u64
  stateless_reset_token :: "nat option"
  max_udp_payload_size :: u64
  initial_max_data :: u64
  initial_max_stream_data_bidi_local :: u64
  initial_max_stream_data_bidi_remote :: u64
  initial_max_stream_data_uni :: u64
  initial_max_streams_bidi :: u64
  initial_max_streams_uni :: u64
  ack_delay_exponent :: u64
  max_ack_delay :: u64
  disable_active_migration :: bool
  active_conn_id_limit :: u64
  initial_source_connection_id :: "byte list option"
  retry_source_connection_id :: "byte list option"
  max_datagram_frame_size :: "u64 option"

definition tp_default :: transport_params where
  "tp_default =
     \<lparr>original_destination_connection_id = None, max_idle_timeout = 0, stateless_reset_token = None,
      max_udp_payload_size = 65527, initial_max_data = 0, initial_max_stream_data_bidi_local = 0,
      initial_max_stream_data_bidi_remote = 0, initial_max_stream_data_uni = 0,
      initial_max_streams_bidi = 0, initial_max_streams_uni = 0, ack_delay_exponent = 3,
      max_ack_delay = 25, disable_active_migration = False, active_conn_id_limit = 2,
      initial_source_connection_id = None, retry_source_connection_id = None,
      max_datagram_frame_size = None\<rparr>"

subsection \<open>Decoding\<close>

definition decode_param ::
  "u64 \<Rightarrow> octets \<Rightarrow> bool \<Rightarrow> transport_params \<Rightarrow> (error, transport_params) res" where
  "decode_param pid val is_server tp =
     (if pid = 0x0000 then
        if is_server then Err InvalidTransportParam
        else Ok (tp\<lparr>original_destination_connection_id := Some (to_vec val)\<rparr>)
      else if pid = 0x0001 then
        take_varint val (\<lambda>v _. Ok (tp\<lparr>max_idle_timeout := v\<rparr>))
      else if pid = 0x0002 then
        if is_server then Err InvalidTransportParam
        else take_bytes 16 val (\<lambda>d _. Ok (tp\<lparr>stateless_reset_token := Some (be_val (to_vec d))\<rparr>))
      else if pid = 0x0003 then
        take_varint val (\<lambda>v _.
          if v < 1200 then Err InvalidTransportParam else Ok (tp\<lparr>max_udp_payload_size := v\<rparr>))
      else if pid = 0x0004 then
        take_varint val (\<lambda>v _. Ok (tp\<lparr>initial_max_data := v\<rparr>))
      else if pid = 0x0005 then
        take_varint val (\<lambda>v _. Ok (tp\<lparr>initial_max_stream_data_bidi_local := v\<rparr>))
      else if pid = 0x0006 then
        take_varint val (\<lambda>v _. Ok (tp\<lparr>initial_max_stream_data_bidi_remote := v\<rparr>))
      else if pid = 0x0007 then
        take_varint val (\<lambda>v _. Ok (tp\<lparr>initial_max_stream_data_uni := v\<rparr>))
      else if pid = 0x0008 then
        take_varint val (\<lambda>m _.
          if m > MAX_STREAM_ID then Err InvalidTransportParam else Ok (tp\<lparr>initial_max_streams_bidi := m\<rparr>))
      else if pid = 0x0009 then
        take_varint val (\<lambda>m _.
          if m > MAX_STREAM_ID then Err InvalidTransportParam else Ok (tp\<lparr>initial_max_streams_uni := m\<rparr>))
      else if pid = 0x000a then
        take_varint val (\<lambda>e _.
          if e > 20 then Err InvalidTransportParam else Ok (tp\<lparr>ack_delay_exponent := e\<rparr>))
      else if pid = 0x000b then
        take_varint val (\<lambda>d _.
          if d \<ge> 2 ^ 14 then Err InvalidTransportParam else Ok (tp\<lparr>max_ack_delay := d\<rparr>))
      else if pid = 0x000c then Ok (tp\<lparr>disable_active_migration := True\<rparr>)
      else if pid = 0x000d then
        if is_server then Err InvalidTransportParam else Ok tp
      else if pid = 0x000e then
        take_varint val (\<lambda>limit _.
          if limit < 2 then Err InvalidTransportParam else Ok (tp\<lparr>active_conn_id_limit := limit\<rparr>))
      else if pid = 0x000f then Ok (tp\<lparr>initial_source_connection_id := Some (to_vec val)\<rparr>)
      else if pid = 0x0010 then
        if is_server then Err InvalidTransportParam
        else Ok (tp\<lparr>retry_source_connection_id := Some (to_vec val)\<rparr>)
      else if pid = 0x0020 then
        take_varint val (\<lambda>v _. Ok (tp\<lparr>max_datagram_frame_size := Some v\<rparr>))
      else Ok tp)"

lemma get_varint_less:
  assumes "get_varint b = Ok (v, b')" "0 < cap b"
  shows "cap b' < cap b" "octets_ok b'"
proof -
  have ne: "0 < length (as_ref b)" using assms(2) by (simp add: cap_as_ref)
  have ok: "octets_ok b" using assms(2) by (simp add: octets_ok_def cap_def)
  from get_varint_result [OF ne] assms(1) obtain n where
    n: "b' = advance n b" "0 < n" "n \<le> length (as_ref b)" by auto
  then show "cap b' < cap b" "octets_ok b'"
    using octets_ok_advance [OF ok n(3)] by (auto simp: cap_as_ref)
qed

lemma get_bytes_varint_after:
  assumes "get_bytes_with_varint_length b = Ok (d, b')" "octets_ok b"
  shows "cap b' \<le> cap b"
  using holds_get_bytes_varint [OF assms(2)] assms(1) by (auto simp: after_def cap_def)

function decode_loop ::
  "octets \<Rightarrow> u64 list \<Rightarrow> bool \<Rightarrow> transport_params \<Rightarrow> (error, transport_params) res" where
  "decode_loop params seen is_server tp =
     (if cap params > 0 then
        (case get_varint params of
           Ok (pid, params1) \<Rightarrow>
             if pid \<in> set seen then Err InvalidTransportParam
             else (case get_bytes_with_varint_length params1 of
               Ok (val, params2) \<Rightarrow>
                 (case decode_param pid val is_server tp of
                    Ok tp' \<Rightarrow> decode_loop params2 (pid # seen) is_server tp'
                  | Err e \<Rightarrow> Err e
                  | Panic \<Rightarrow> Panic)
             | Err e \<Rightarrow> Err BufferTooShort
             | Panic \<Rightarrow> Panic)
         | Err e \<Rightarrow> Err BufferTooShort
         | Panic \<Rightarrow> Panic)
      else Ok tp)"
  by pat_completeness auto
termination
  by (relation "measure (\<lambda>(b, _). cap b)")
    (use get_varint_less get_bytes_varint_after in \<open>fastforce+\<close>)

declare decode_loop.simps [simp del]

definition tp_decode :: "byte list \<Rightarrow> bool \<Rightarrow> (error, transport_params) res" where
  "tp_decode buf is_server = decode_loop (with_slice buf) [] is_server tp_default"

subsection \<open>Encoding\<close>

type_synonym put = "octets \<Rightarrow> (octets_error, octets) res"

definition encode_param :: "u64 \<Rightarrow> usize \<Rightarrow> put" where
  "encode_param ty len b = and_then (put_varint ty b) (put_varint len)"

definition encode_int :: "u64 \<Rightarrow> u64 \<Rightarrow> put list" where
  "encode_int ty v =
     [\<lambda>b. case varint_len v of Some n \<Rightarrow> encode_param ty n b | None \<Rightarrow> Panic, put_varint v]"

definition encode_bytes :: "u64 \<Rightarrow> byte list \<Rightarrow> put list" where
  "encode_bytes ty bs = [encode_param ty (length bs), put_bytes bs]"

definition tp_puts :: "transport_params \<Rightarrow> bool \<Rightarrow> put list" where
  "tp_puts tp is_server =
     (if is_server then
        (case original_destination_connection_id tp of
           Some odcid \<Rightarrow> encode_bytes 0x0000 odcid | None \<Rightarrow> []) else [])
   @ (if max_idle_timeout tp \<noteq> 0 then encode_int 0x0001 (max_idle_timeout tp) else [])
   @ (if is_server then
        (case stateless_reset_token tp of
           Some token \<Rightarrow> [encode_param 0x0002 16, put_bytes (be_bytes 16 token)] | None \<Rightarrow> []) else [])
   @ (if max_udp_payload_size tp \<noteq> 0 then encode_int 0x0003 (max_udp_payload_size tp) else [])
   @ (if initial_max_data tp \<noteq> 0 then encode_int 0x0004 (initial_max_data tp) else [])
   @ (if initial_max_stream_data_bidi_local tp \<noteq> 0
      then encode_int 0x0005 (initial_max_stream_data_bidi_local tp) else [])
   @ (if initial_max_stream_data_bidi_remote tp \<noteq> 0
      then encode_int 0x0006 (initial_max_stream_data_bidi_remote tp) else [])
   @ (if initial_max_stream_data_uni tp \<noteq> 0
      then encode_int 0x0007 (initial_max_stream_data_uni tp) else [])
   @ (if initial_max_streams_bidi tp \<noteq> 0 then encode_int 0x0008 (initial_max_streams_bidi tp) else [])
   @ (if initial_max_streams_uni tp \<noteq> 0 then encode_int 0x0009 (initial_max_streams_uni tp) else [])
   @ (if ack_delay_exponent tp \<noteq> 0 then encode_int 0x000a (ack_delay_exponent tp) else [])
   @ (if max_ack_delay tp \<noteq> 0 then encode_int 0x000b (max_ack_delay tp) else [])
   @ (if disable_active_migration tp then [encode_param 0x000c 0] else [])
   @ (if active_conn_id_limit tp \<noteq> 2 then encode_int 0x000e (active_conn_id_limit tp) else [])
   @ (case initial_source_connection_id tp of
        Some scid \<Rightarrow> encode_bytes 0x000f scid | None \<Rightarrow> [])
   @ (if is_server then
        (case retry_source_connection_id tp of
           Some scid \<Rightarrow> encode_bytes 0x0010 scid | None \<Rightarrow> []) else [])
   @ (case max_datagram_frame_size tp of
        Some v \<Rightarrow> encode_int 0x0020 v | None \<Rightarrow> [])"

definition tp_encode :: "transport_params \<Rightarrow> bool \<Rightarrow> byte list \<Rightarrow> (error, byte list) res" where
  "tp_encode tp is_server out =
     and_then (put_seq (tp_puts tp is_server) (with_slice out)) (\<lambda>b. Ok (take (o_off b) (o_buf b)))"

subsection \<open>The wire format\<close>

type_synonym param = "u64 \<times> byte list"

definition enc_param :: "param \<Rightarrow> byte list" where
  "enc_param p = enc_varint (fst p) @ enc_varint (length (snd p)) @ snd p"

definition enc_params :: "param list \<Rightarrow> byte list" where
  "enc_params ps = concat (map enc_param ps)"

definition int_param :: "u64 \<Rightarrow> u64 \<Rightarrow> bool \<Rightarrow> param list" where
  "int_param ty v present = (if present then [(ty, enc_varint v)] else [])"

definition bytes_param :: "u64 \<Rightarrow> byte list option \<Rightarrow> bool \<Rightarrow> param list" where
  "bytes_param ty x present = (if present then (case x of Some bs \<Rightarrow> [(ty, bs)] | None \<Rightarrow> []) else [])"

definition tp_params :: "transport_params \<Rightarrow> bool \<Rightarrow> param list list" where
  "tp_params tp s =
     [bytes_param 0x00 (original_destination_connection_id tp) s,
      int_param 0x01 (max_idle_timeout tp) (max_idle_timeout tp \<noteq> 0),
      bytes_param 0x02 (map_option (be_bytes 16) (stateless_reset_token tp)) s,
      int_param 0x03 (max_udp_payload_size tp) (max_udp_payload_size tp \<noteq> 0),
      int_param 0x04 (initial_max_data tp) (initial_max_data tp \<noteq> 0),
      int_param 0x05 (initial_max_stream_data_bidi_local tp) (initial_max_stream_data_bidi_local tp \<noteq> 0),
      int_param 0x06 (initial_max_stream_data_bidi_remote tp) (initial_max_stream_data_bidi_remote tp \<noteq> 0),
      int_param 0x07 (initial_max_stream_data_uni tp) (initial_max_stream_data_uni tp \<noteq> 0),
      int_param 0x08 (initial_max_streams_bidi tp) (initial_max_streams_bidi tp \<noteq> 0),
      int_param 0x09 (initial_max_streams_uni tp) (initial_max_streams_uni tp \<noteq> 0),
      int_param 0x0a (ack_delay_exponent tp) (ack_delay_exponent tp \<noteq> 0),
      int_param 0x0b (max_ack_delay tp) (max_ack_delay tp \<noteq> 0),
      bytes_param 0x0c (Some []) (disable_active_migration tp),
      int_param 0x0e (active_conn_id_limit tp) (active_conn_id_limit tp \<noteq> 2),
      bytes_param 0x0f (initial_source_connection_id tp) True,
      bytes_param 0x10 (retry_source_connection_id tp) s,
      bytes_param 0x20 (map_option enc_varint (max_datagram_frame_size tp)) True]"

definition tp_wire :: "transport_params \<Rightarrow> bool \<Rightarrow> byte list" where
  "tp_wire tp s = enc_params (concat (tp_params tp s))"

definition tp_ok :: "transport_params \<Rightarrow> bool" where
  "tp_ok tp \<longleftrightarrow>
     (\<forall>c. original_destination_connection_id tp = Some c \<longrightarrow> length c < 2 ^ 62)
   \<and> max_idle_timeout tp < 2 ^ 62
   \<and> (\<forall>t. stateless_reset_token tp = Some t \<longrightarrow> t < 2 ^ 128)
   \<and> max_udp_payload_size tp < 2 ^ 62 \<and> (max_udp_payload_size tp \<noteq> 0 \<longrightarrow> 1200 \<le> max_udp_payload_size tp)
   \<and> initial_max_data tp < 2 ^ 62
   \<and> initial_max_stream_data_bidi_local tp < 2 ^ 62
   \<and> initial_max_stream_data_bidi_remote tp < 2 ^ 62
   \<and> initial_max_stream_data_uni tp < 2 ^ 62
   \<and> initial_max_streams_bidi tp \<le> MAX_STREAM_ID \<and> initial_max_streams_uni tp \<le> MAX_STREAM_ID
   \<and> ack_delay_exponent tp \<le> 20 \<and> max_ack_delay tp < 2 ^ 14
   \<and> 2 \<le> active_conn_id_limit tp \<and> active_conn_id_limit tp < 2 ^ 62
   \<and> (\<forall>c. initial_source_connection_id tp = Some c \<longrightarrow> length c < 2 ^ 62)
   \<and> (\<forall>c. retry_source_connection_id tp = Some c \<longrightarrow> length c < 2 ^ 62)
   \<and> (\<forall>v. max_datagram_frame_size tp = Some v \<longrightarrow> v < 2 ^ 62)"

subsection \<open>Encoding writes the wire format\<close>

definition emits :: "put list \<Rightarrow> byte list \<Rightarrow> bool" where
  "emits ps bs \<longleftrightarrow> (\<forall>b. octets_ok b \<longrightarrow> put_seq ps b = q (write_bytes bs b))"

lemma emits_Nil [simp]: "emits [] []"
  by (simp add: emits_def)

lemma emits_writes: "list_all2 writes ps es \<Longrightarrow> emits ps (concat es)"
  by (simp add: emits_def put_seq_writes)

lemma emits_append:
  assumes "emits ps xs" "emits qs ys"
  shows "emits (ps @ qs) (xs @ ys)"
  unfolding emits_def
proof (intro allI impI)
  fix b assume b: "octets_ok b"
  have "put_seq (ps @ qs) b = and_then (q (write_bytes xs b)) (put_seq qs)"
    using assms(1) b by (simp add: emits_def put_seq_append)
  also have "\<dots> = q (and_then (write_bytes xs b) (write_bytes ys))"
    using assms(2) octets_ok_write [OF b, of xs] by (cases "write_bytes xs b") (auto simp: emits_def)
  also have "\<dots> = q (write_bytes (xs @ ys) b)" using write_bytes_append [OF b, of xs ys] by simp
  finally show "put_seq (ps @ qs) b = q (write_bytes (xs @ ys) b)" .
qed

lemma writes_encode_param:
  assumes "ty < 2 ^ 62" "len < 2 ^ 62"
  shows "writes (encode_param ty len) (enc_varint ty @ enc_varint len)"
  unfolding writes_def
proof (intro allI impI)
  fix b assume b: "octets_ok b"
  have "and_then (put_varint ty b) (put_varint len) = and_then (write_bytes (enc_varint ty) b) (write_bytes (enc_varint len))"
    using assms b octets_ok_write [OF b, of "enc_varint ty"] varint.put_enc
    by (cases "write_bytes (enc_varint ty) b") (auto simp: is_varint_def)
  then show "encode_param ty len b = write_bytes (enc_varint ty @ enc_varint len) b"
    using write_bytes_append [OF b, of "enc_varint ty" "enc_varint len"] by (simp add: encode_param_def)
qed

lemma length_enc_varint_le: "length (enc_varint v) \<le> 8"
  by (auto simp: enc_varint_def varint_len_def split: if_splits)

lemma length_enc_varint_less: "length (enc_varint v) < 2 ^ 62"
  using length_enc_varint_le [of v] by simp

lemma emits_encode_bytes:
  "ty < 2 ^ 62 \<Longrightarrow> length bs < 2 ^ 62 \<Longrightarrow> emits (encode_bytes ty bs) (enc_param (ty, bs))"
  using emits_writes [of "encode_bytes ty bs" "[enc_varint ty @ enc_varint (length bs), bs]"]
  by (simp add: encode_bytes_def enc_param_def writes_encode_param)

lemma emits_encode_int:
  assumes "ty < 2 ^ 62" "v < 2 ^ 62"
  shows "emits (encode_int ty v) (enc_param (ty, enc_varint v))"
proof -
  have "writes (encode_param ty (length (enc_varint v))) (enc_varint ty @ enc_varint (length (enc_varint v)))"
    using assms(1) length_enc_varint_less by (intro writes_encode_param)
  then show ?thesis
    using emits_writes [of "encode_int ty v" "[enc_varint ty @ enc_varint (length (enc_varint v)), enc_varint v]"] assms
    by (simp add: encode_int_def enc_param_def length_enc_varint_len)
qed

lemma enc_params_simps [simp]:
  "enc_params [] = []" "enc_params (p # ps) = enc_param p @ enc_params ps"
  "enc_params (xs @ ys) = enc_params xs @ enc_params ys"
  by (simp_all add: enc_params_def)

lemma emits_int:
  "ty < 2 ^ 62 \<Longrightarrow> v < 2 ^ 62 \<Longrightarrow> emits (if P then encode_int ty v else []) (enc_params (int_param ty v P))"
  by (simp add: int_param_def emits_encode_int)

lemma emits_bytes:
  "ty < 2 ^ 62 \<Longrightarrow> (\<And>bs. x = Some bs \<Longrightarrow> length bs < 2 ^ 62) \<Longrightarrow>
   emits (if P then (case x of Some bs \<Rightarrow> encode_bytes ty bs | None \<Rightarrow> []) else []) (enc_params (bytes_param ty x P))"
  by (cases x) (simp_all add: bytes_param_def emits_encode_bytes)

lemma tp_puts_emit:
  assumes "tp_ok tp"
  shows "emits (tp_puts tp s) (tp_wire tp s)"
proof -
  have t: "emits (if s then case stateless_reset_token tp of None \<Rightarrow> []
             | Some token \<Rightarrow> [encode_param 2 16, put_bytes (be_bytes 16 token)] else [])
      (enc_params (bytes_param 2 (map_option (be_bytes 16) (stateless_reset_token tp)) s))"
    using emits_bytes [of 2 "map_option (be_bytes 16) (stateless_reset_token tp)" s]
    by (cases "stateless_reset_token tp") (auto simp: encode_bytes_def)
  have m: "emits (if disable_active_migration tp then [encode_param 12 0] else [])
      (enc_params (bytes_param 12 (Some []) (disable_active_migration tp)))"
    using emits_writes [of "[encode_param 12 0]" "[enc_varint 12 @ enc_varint 0]"]
    by (simp add: bytes_param_def enc_param_def writes_encode_param)
  have d: "emits (case max_datagram_frame_size tp of None \<Rightarrow> [] | Some v \<Rightarrow> encode_int 32 v)
      (enc_params (bytes_param 32 (map_option enc_varint (max_datagram_frame_size tp)) True))"
    using assms by (cases "max_datagram_frame_size tp") (auto simp: bytes_param_def emits_encode_int tp_ok_def)
  have i: "emits (case initial_source_connection_id tp of None \<Rightarrow> [] | Some bs \<Rightarrow> encode_bytes 15 bs)
      (enc_params (bytes_param 15 (initial_source_connection_id tp) True))"
    using emits_bytes [of 15 "initial_source_connection_id tp" True] assms by (simp add: tp_ok_def)
  show ?thesis
    unfolding tp_puts_def tp_wire_def tp_params_def concat.simps append_Nil2 enc_params_simps
    by (intro emits_append emits_int emits_bytes t m d i; use assms in \<open>simp add: tp_ok_def MAX_STREAM_ID_def\<close>)
qed

subsection \<open>Decoding the wire format\<close>

fun decode_all :: "param list \<Rightarrow> bool \<Rightarrow> transport_params \<Rightarrow> (error, transport_params) res" where
  "decode_all [] s tp = Ok tp"
| "decode_all (p # ps) s tp = and_then (decode_param (fst p) (with_slice (snd p)) s tp) (decode_all ps s)"

lemma decode_all_append: "decode_all (xs @ ys) s tp = and_then (decode_all xs s tp) (decode_all ys s)"
proof (induction xs arbitrary: tp)
  case (Cons x xs)
  then have "decode_all (xs @ ys) s = (\<lambda>tp. and_then (decode_all xs s tp) (decode_all ys s))" by (rule ext)
  then show ?case by (simp add: and_then_assoc)
qed simp

definition param_ok :: "param \<Rightarrow> bool" where
  "param_ok p \<longleftrightarrow> fst p < 2 ^ 62 \<and> length (snd p) < 2 ^ 62"

lemma enc_varint_Nil: "v < 2 ^ 62 \<Longrightarrow> enc_varint v \<noteq> []"
  using length_enc_varint_len [of v] by (auto simp: varint_len_def split: if_splits)

lemma decode_loop_step:
  assumes "param_ok p" "fst p \<notin> set seen"
  shows "decode_loop (cur pre (enc_param p @ rest)) seen s tp
     = and_then (decode_param (fst p) (with_slice (snd p)) s tp)
         (decode_loop (cur (pre @ enc_param p) rest) (fst p # seen) s)"
proof -
  let ?id = "fst p" and ?bs = "snd p"
  let ?b = "cur pre (enc_param p @ rest)" and ?b1 = "cur (pre @ enc_varint ?id) (enc_varint (length ?bs) @ ?bs @ rest)"
  have l: "?id < 2 ^ 62" "length ?bs < 2 ^ 62" using assms(1) by (simp_all add: param_ok_def)
  have "take_varint ?b (\<lambda>v b. Ok (v, b)) = Ok (?id, ?b1)"
    using l by (simp add: enc_param_def del: cur_def)
  then have 1: "get_varint ?b = Ok (?id, ?b1)"
    by (cases "get_varint ?b") (auto simp: take_varint_def)
  have "take_bytes_varint ?b1 (\<lambda>v b. Ok (v, b)) = Ok (with_slice ?bs, cur (pre @ enc_param p) rest)"
    using l by (simp add: enc_param_def)
  then have 2: "get_bytes_with_varint_length ?b1 = Ok (with_slice ?bs, cur (pre @ enc_param p) rest)"
    by (cases "get_bytes_with_varint_length ?b1") (auto simp: take_bytes_varint_def)
  have "0 < cap ?b" using enc_varint_Nil [OF l(1)] by (simp add: enc_param_def)
  then show ?thesis
    using assms(2) by (subst decode_loop.simps) (simp add: 1 2 split: res.split)
qed

lemma decode_loop_all:
  assumes "list_all param_ok ps" "distinct (map fst ps)" "set seen \<inter> fst ` set ps = {}"
  shows "decode_loop (cur pre (enc_params ps)) seen s tp = decode_all ps s tp"
  using assms
proof (induction ps arbitrary: pre seen tp)
  case Nil
  then show ?case by (subst decode_loop.simps) simp
next
  case (Cons p ps)
  have "decode_loop (cur (pre @ enc_param p) (enc_params ps)) (fst p # seen) s = decode_all ps s"
    using Cons.prems by (intro ext Cons.IH) auto
  then show ?case using Cons.prems by (simp add: decode_loop_step)
qed

lemma distinct_ids:
  "list_all2 (\<lambda>ps i. map fst ps = [] \<or> map fst ps = [i]) pss ids \<Longrightarrow> distinct ids \<Longrightarrow>
   distinct (map fst (concat pss)) \<and> set (map fst (concat pss)) \<subseteq> set ids"
proof (induction pss ids rule: list_all2_induct)
  case (Cons ps pss i ids)
  then have "distinct (map fst (concat pss))" "set (map fst (concat pss)) \<subseteq> set ids" "i \<notin> set ids" by simp_all
  then show ?case using Cons(1) unfolding concat.simps map_append
    by (auto simp del: set_map set_concat map_is_Nil_conv)
qed simp

lemma int_param_ids: "map fst (int_param i v P) = [] \<or> map fst (int_param i v P) = [i]"
  by (simp add: int_param_def)

lemma bytes_param_ids: "map fst (bytes_param i x P) = [] \<or> map fst (bytes_param i x P) = [i]"
  by (simp add: bytes_param_def split: option.split)

lemma tp_params_distinct: "distinct (map fst (concat (tp_params tp s)))"
proof -
  have "list_all2 (\<lambda>ps i. map fst ps = [] \<or> map fst ps = [i]) (tp_params tp s)
      [0, 1, 2, 3, 4, 5, 6, 7, 8, 9, 10, 11, 12, 14, 15, 16, 32]"
    unfolding tp_params_def list_all2_Cons list_all2_Nil
    using int_param_ids bytes_param_ids by blast
  from distinct_ids [OF this] show ?thesis by simp
qed

lemma param_ok_int: "i < 2 ^ 62 \<Longrightarrow> list_all param_ok (int_param i v P)"
  using length_enc_varint_le [of v] by (simp add: int_param_def param_ok_def)

lemma param_ok_bytes:
  "i < 2 ^ 62 \<Longrightarrow> (\<And>bs. x = Some bs \<Longrightarrow> length bs < 2 ^ 62) \<Longrightarrow> list_all param_ok (bytes_param i x P)"
  by (simp add: bytes_param_def param_ok_def split: option.split)

lemma tp_params_ok: "tp_ok tp \<Longrightarrow> list_all param_ok (concat (tp_params tp s))"
  unfolding tp_params_def concat.simps list_all_append append_Nil2
  using length_enc_varint_less
  by (intro conjI param_ok_int param_ok_bytes) (auto simp: tp_ok_def)

subsection \<open>What arrives\<close>

text \<open>
  The peer's view of an encoded record: zero values are not sent, so that the peer assumes the
  default for them, and the three server parameters are dropped by a client.
\<close>

definition tp_received :: "transport_params \<Rightarrow> bool \<Rightarrow> transport_params" where
  "tp_received tp is_server =
     tp\<lparr>original_destination_connection_id := (if is_server then original_destination_connection_id tp else None),
        stateless_reset_token := (if is_server then stateless_reset_token tp else None),
        max_udp_payload_size := (if max_udp_payload_size tp = 0 then 65527 else max_udp_payload_size tp),
        ack_delay_exponent := (if ack_delay_exponent tp = 0 then 3 else ack_delay_exponent tp),
        max_ack_delay := (if max_ack_delay tp = 0 then 25 else max_ack_delay tp),
        retry_source_connection_id := (if is_server then retry_source_connection_id tp else None)\<rparr>"

lemma take_varint_slice [simp]:
  "v < 2 ^ 62 \<Longrightarrow> take_varint (with_slice (enc_varint v)) k = k v (cur (enc_varint v) [])"
  using take_varint_cur [of v "[]" "[]" k] by (simp add: cur_def with_slice_def)

lemma take_bytes_slice [simp]:
  "length xs = n \<Longrightarrow> take_bytes n (with_slice xs) k = k (with_slice xs) (cur xs [])"
  using take_bytes_cur [of xs n "[]" "[]" k] by (simp add: cur_def with_slice_def)

lemma decode_int_steps:
  "v < 2 ^ 62 \<Longrightarrow> and_then (decode_all (int_param 1 v P) s tp) k
     = k (max_idle_timeout_update (\<lambda>old. if P then v else old) tp)"
  "v < 2 ^ 62 \<Longrightarrow> P \<longrightarrow> 1200 \<le> v \<Longrightarrow> and_then (decode_all (int_param 3 v P) s tp) k
     = k (max_udp_payload_size_update (\<lambda>old. if P then v else old) tp)"
  "v < 2 ^ 62 \<Longrightarrow> and_then (decode_all (int_param 4 v P) s tp) k
     = k (initial_max_data_update (\<lambda>old. if P then v else old) tp)"
  "v < 2 ^ 62 \<Longrightarrow> and_then (decode_all (int_param 5 v P) s tp) k
     = k (initial_max_stream_data_bidi_local_update (\<lambda>old. if P then v else old) tp)"
  "v < 2 ^ 62 \<Longrightarrow> and_then (decode_all (int_param 6 v P) s tp) k
     = k (initial_max_stream_data_bidi_remote_update (\<lambda>old. if P then v else old) tp)"
  "v < 2 ^ 62 \<Longrightarrow> and_then (decode_all (int_param 7 v P) s tp) k
     = k (initial_max_stream_data_uni_update (\<lambda>old. if P then v else old) tp)"
  "v \<le> MAX_STREAM_ID \<Longrightarrow> and_then (decode_all (int_param 8 v P) s tp) k
     = k (initial_max_streams_bidi_update (\<lambda>old. if P then v else old) tp)"
  "v \<le> MAX_STREAM_ID \<Longrightarrow> and_then (decode_all (int_param 9 v P) s tp) k
     = k (initial_max_streams_uni_update (\<lambda>old. if P then v else old) tp)"
  "v \<le> 20 \<Longrightarrow> and_then (decode_all (int_param 10 v P) s tp) k
     = k (ack_delay_exponent_update (\<lambda>old. if P then v else old) tp)"
  "v < 2 ^ 14 \<Longrightarrow> and_then (decode_all (int_param 11 v P) s tp) k
     = k (max_ack_delay_update (\<lambda>old. if P then v else old) tp)"
  "v < 2 ^ 62 \<Longrightarrow> 2 \<le> v \<Longrightarrow> and_then (decode_all (int_param 14 v P) s tp) k
     = k (active_conn_id_limit_update (\<lambda>old. if P then v else old) tp)"
  by (cases tp; auto simp: int_param_def decode_param_def MAX_STREAM_ID_def)+

lemma decode_bytes_steps:
  "and_then (decode_all (bytes_param 0 x b) (\<not> b) tp) k
     = k (original_destination_connection_id_update (\<lambda>old. if b \<and> x \<noteq> None then x else old) tp)"
  "(\<And>t. y = Some t \<Longrightarrow> t < 2 ^ 128) \<Longrightarrow> and_then (decode_all (bytes_param 2 (map_option (be_bytes 16) y) b) (\<not> b) tp) k
     = k (stateless_reset_token_update (\<lambda>old. if b \<and> y \<noteq> None then y else old) tp)"
  "and_then (decode_all (bytes_param 12 (Some bs) b) s tp) k
     = k (disable_active_migration_update (\<lambda>old. b \<or> old) tp)"
  "and_then (decode_all (bytes_param 15 x True) s tp) k
     = k (initial_source_connection_id_update (\<lambda>old. if x \<noteq> None then x else old) tp)"
  "and_then (decode_all (bytes_param 16 x b) (\<not> b) tp) k
     = k (retry_source_connection_id_update (\<lambda>old. if b \<and> x \<noteq> None then x else old) tp)"
  "(\<And>v. y = Some v \<Longrightarrow> v < 2 ^ 62) \<Longrightarrow> and_then (decode_all (bytes_param 32 (map_option enc_varint y) True) s tp) k
     = k (max_datagram_frame_size_update (\<lambda>old. if y \<noteq> None then y else old) tp)"
  by (cases tp; cases x; cases y; simp add: bytes_param_def decode_param_def be_val_be_bytes)+

lemma decode_tp_params:
  assumes ok: "tp_ok tp"
  shows "decode_all (concat (tp_params tp s)) (\<not> s) tp_default = Ok (tp_received tp s)"
proof -
  have c: "\<And>c. original_destination_connection_id tp = Some c \<Longrightarrow> length c < 2 ^ 62"
    "\<And>t. stateless_reset_token tp = Some t \<Longrightarrow> t < 2 ^ 128" "\<And>v. max_datagram_frame_size tp = Some v \<Longrightarrow> v < 2 ^ 62"
    "max_idle_timeout tp < 2 ^ 62" "max_udp_payload_size tp < 2 ^ 62"
    "max_udp_payload_size tp \<noteq> 0 \<longrightarrow> 1200 \<le> max_udp_payload_size tp" "initial_max_data tp < 2 ^ 62"
    "initial_max_stream_data_bidi_local tp < 2 ^ 62" "initial_max_stream_data_bidi_remote tp < 2 ^ 62"
    "initial_max_stream_data_uni tp < 2 ^ 62" "initial_max_streams_bidi tp \<le> MAX_STREAM_ID"
    "initial_max_streams_uni tp \<le> MAX_STREAM_ID" "ack_delay_exponent tp \<le> 20" "max_ack_delay tp < 2 ^ 14"
    "2 \<le> active_conn_id_limit tp" "active_conn_id_limit tp < 2 ^ 62"
    using ok unfolding tp_ok_def by blast+
  have "decode_all (concat (tp_params tp s)) (\<not> s) tp_default
      = and_then (decode_all (concat (tp_params tp s)) (\<not> s) tp_default) Ok"
    by (cases "decode_all (concat (tp_params tp s)) (\<not> s) tp_default") simp_all
  also have "\<dots> = Ok (tp_received tp s)"
    unfolding tp_params_def concat.simps append_Nil2
    by (simp only: decode_all_append and_then_assoc decode_int_steps(2) [OF c(5,6)] decode_int_steps(1,3-)
        decode_bytes_steps c)
      (rule arg_cong [where f = Ok], rule transport_params.equality; simp add: tp_received_def tp_default_def)
  finally show ?thesis .
qed

lemma decode_wire:
  assumes "tp_ok tp"
  shows "tp_decode (tp_wire tp s) (\<not> s) = Ok (tp_received tp s)"
proof -
  have "with_slice (tp_wire tp s) = cur [] (tp_wire tp s)" by (simp add: cur_def with_slice_def)
  then show ?thesis
    using decode_loop_all [OF tp_params_ok [OF assms, of s] tp_params_distinct, of "[]" "[]"]
      decode_tp_params [OF assms, of s]
    by (simp add: tp_decode_def tp_wire_def)
qed

lemma decode_wire_client: "tp_ok tp \<Longrightarrow> tp_decode (tp_wire tp False) True = Ok (tp_received tp False)"
  using decode_wire [of tp False] by simp

subsection \<open>Properties\<close>

text \<open>
  C26: encoding a valid record writes its wire format, or fails exactly when the buffer is too
  short for it, and the peer decodes the record that was encoded, up to the zero values that
  are not sent: an acknowledgement delay exponent, maximum acknowledgement delay or payload
  size of zero arrives as the default.
\<close>

theorem tp_round_trip:
  assumes "tp_ok tp"
  shows "tp_encode tp s out = (if length (tp_wire tp s) \<le> length out then Ok (tp_wire tp s) else Err BufferTooShort)
    \<and> tp_decode (tp_wire tp s) (\<not> s) = Ok (tp_received tp s)"
proof
  have "put_seq (tp_puts tp s) (with_slice out) = q (write_bytes (tp_wire tp s) (with_slice out))"
    using tp_puts_emit [OF assms, of s] by (simp add: emits_def)
  then show "tp_encode tp s out = (if length (tp_wire tp s) \<le> length out then Ok (tp_wire tp s) else Err BufferTooShort)"
    by (auto simp: tp_encode_def write_bytes_def cap_as_ref overwrite_def)
  show "tp_decode (tp_wire tp s) (\<not> s) = Ok (tp_received tp s)" using assms by (rule decode_wire)
qed

definition sample_tp :: transport_params where
  "sample_tp = tp_default\<lparr>ack_delay_exponent := 0, initial_max_data := 5000, stateless_reset_token := Some 77,
     max_datagram_frame_size := Some 0\<rparr>"

theorem tp_round_trip_witness:
  "tp_decode (tp_wire sample_tp True) False = Ok (sample_tp\<lparr>ack_delay_exponent := 3\<rparr>)"
  using tp_round_trip [of sample_tp True "[]"]
  by (simp add: sample_tp_def tp_ok_def tp_default_def MAX_STREAM_ID_def tp_received_def)

text \<open>What a decoded record guarantees; \<open>s\<close> says that the server decoded it.\<close>

definition tp_valid :: "bool \<Rightarrow> transport_params \<Rightarrow> bool" where
  "tp_valid s tp \<longleftrightarrow>
     1200 \<le> max_udp_payload_size tp \<and> max_udp_payload_size tp < 2 ^ 62 \<and> max_idle_timeout tp < 2 ^ 62
   \<and> initial_max_data tp < 2 ^ 62 \<and> initial_max_stream_data_bidi_local tp < 2 ^ 62
   \<and> initial_max_stream_data_bidi_remote tp < 2 ^ 62 \<and> initial_max_stream_data_uni tp < 2 ^ 62
   \<and> initial_max_streams_bidi tp \<le> MAX_STREAM_ID \<and> initial_max_streams_uni tp \<le> MAX_STREAM_ID
   \<and> ack_delay_exponent tp \<le> 20 \<and> max_ack_delay tp < 2 ^ 14
   \<and> 2 \<le> active_conn_id_limit tp \<and> active_conn_id_limit tp < 2 ^ 62
   \<and> (\<forall>v. max_datagram_frame_size tp = Some v \<longrightarrow> v < 2 ^ 62)
   \<and> (\<forall>t. stateless_reset_token tp = Some t \<longrightarrow> t < 2 ^ 128)
   \<and> (s \<longrightarrow> original_destination_connection_id tp = None \<and> stateless_reset_token tp = None
          \<and> retry_source_connection_id tp = None)"

lemma tp_default_valid: "tp_valid s tp_default"
  by (simp add: tp_valid_def tp_default_def MAX_STREAM_ID_def)

lemma decode_param_valid:
  assumes v: "octets_ok val" and tp: "tp_valid s tp"
  shows "holds (tp_valid s) (decode_param i val s tp)"
proof -
  have int: "holds (tp_valid s) (take_varint val k)"
    if "\<And>v b. v < 2 ^ 62 \<Longrightarrow> holds (tp_valid s) (k v b)" for k
    by (rule holds_take_varint [OF v]) (rule that)
  have tok: "holds (tp_valid s) (take_bytes 16 val (\<lambda>d _. Ok (tp\<lparr>stateless_reset_token := Some (be_val (to_vec d))\<rparr>)))"
    if "\<not> s"
  proof (rule holds_take_bytes [OF v])
    fix d :: octets assume "length (to_vec d) = 16"
    then have "be_val (to_vec d) < 2 ^ 128" using be_val_less [of "to_vec d"] by simp
    then show "holds (tp_valid s) (Ok (tp\<lparr>stateless_reset_token := Some (be_val (to_vec d))\<rparr>))"
      using tp that by (simp add: tp_valid_def)
  qed
  show ?thesis
    unfolding decode_param_def
    by (intro holds_if int tok; use tp in \<open>simp add: tp_valid_def\<close>)
qed

lemma decode_loop_unfold:
  "decode_loop b seen s tp =
     (if 0 < cap b then
        and_then (q (get_varint b)) (\<lambda>(i, b1).
          if i \<in> set seen then Err InvalidTransportParam
          else and_then (q (get_bytes_with_varint_length b1)) (\<lambda>(val, b2).
               and_then (decode_param i val s tp) (decode_loop b2 (i # seen) s)))
      else Ok tp)"
  by (subst decode_loop.simps) (auto split: res.split)

lemma decode_loop_valid:
  "octets_ok b \<Longrightarrow> tp_valid s tp \<Longrightarrow> holds (tp_valid s) (decode_loop b seen s tp)"
proof (induction b seen s tp rule: decode_loop.induct)
  case (1 b seen s tp)
  show ?case
  proof (cases "0 < cap b")
    case pos: True
    have "holds (tp_valid s) (and_then (q (get_varint b)) (\<lambda>(i, b1).
          if i \<in> set seen then Err InvalidTransportParam
          else and_then (q (get_bytes_with_varint_length b1)) (\<lambda>(val, b2).
               and_then (decode_param i val s tp) (decode_loop b2 (i # seen) s))))"
    proof (cases "get_varint b")
      case (Ok x)
      obtain i b1 where x: "x = (i, b1)" by (cases x)
      have b1: "octets_ok b1" using holds_get_varint [OF 1(2)] Ok by (auto simp: x after_def)
      show ?thesis
      proof (cases "i \<in> set seen \<or> \<not> is_ok (get_bytes_with_varint_length b1)")
        case True
        then show ?thesis using Ok x holds_get_bytes_varint [OF b1]
          by (cases "get_bytes_with_varint_length b1") (auto simp: holds_def)
      next
        case False
        then obtain val b2 where y: "get_bytes_with_varint_length b1 = Ok (val, b2)"
          by (cases "get_bytes_with_varint_length b1") auto
        have b2: "octets_ok val" "octets_ok b2" using holds_get_bytes_varint [OF b1] y by (auto simp: after_def)
        have "holds (tp_valid s) (and_then (decode_param i val s tp) (decode_loop b2 (i # seen) s))"
        proof (cases "decode_param i val s tp")
          case ok3: (Ok tp')
          then have "tp_valid s tp'" using decode_param_valid [OF b2(1) 1(3), of i] by simp
          then show ?thesis using 1(1) [OF pos Ok x [symmetric] _ y refl ok3 b2(2)] False ok3 by simp
        qed (use decode_param_valid [OF b2(1) 1(3), of i] in simp_all)
        then show ?thesis using False Ok x y by simp
      qed
    qed (use holds_get_varint [OF 1(2)] in simp_all)
    then show ?thesis using pos by (simp add: decode_loop_unfold)
  qed (use 1(3) in \<open>simp add: decode_loop_unfold\<close>)
qed

text \<open>
  C27: decoding transport parameters terminates without a panic on any bytes, and what it
  accepts is within the limits of the protocol; a server never accepts the parameters only a
  server may send.
\<close>

theorem tp_decode_validates:
  "tp_decode buf s \<noteq> Panic \<and> (\<forall>tp. tp_decode buf s = Ok tp \<longrightarrow> tp_valid s tp)"
  using decode_loop_valid [of "with_slice buf" s tp_default "[]"] tp_default_valid
  by (simp add: tp_decode_def holds_def)

theorem tp_decode_validates_witness:
  "tp_decode (tp_wire sample_tp False) True \<noteq> Panic \<and> tp_valid True (tp_received sample_tp False)"
proof -
  have "tp_ok sample_tp" by (simp add: sample_tp_def tp_ok_def tp_default_def MAX_STREAM_ID_def)
  then have "tp_decode (tp_wire sample_tp False) True = Ok (tp_received sample_tp False)"
    by (rule decode_wire_client)
  then show ?thesis using tp_decode_validates [of "tp_wire sample_tp False" True] by simp
qed

end
