(* ===== verification/Rtt.thy ===== *)
theory Rtt
  imports FlowControl
begin

text \<open>
  Round-trip time estimation: the windowed minimum and maximum filter of
  \<^verbatim>\<open>quiche/src/minmax.rs\<close> and \<^verbatim>\<open>RttStats\<close> of \<^verbatim>\<open>quiche/src/recovery/rtt.rs\<close>.

  Instants are integers (nanoseconds; an instant minus a duration may lie before the origin of
  the clock), durations are natural numbers of nanoseconds, and the difference of two instants
  saturates at zero.  The floating-point division \<^verbatim>\<open>Duration::div_f32\<close> is the argument \<open>div_f32\<close>.
\<close>

type_synonym time = int

definition duration_since :: "time \<Rightarrow> time \<Rightarrow> duration" where
  "duration_since a b = nat (a - b)"

subsection \<open>The windowed filter\<close>

record 'a mm_sample =
  ms_time :: time
  ms_value :: 'a

record 'a minmax =
  mm0 :: "'a mm_sample"
  mm1 :: "'a mm_sample"
  mm2 :: "'a mm_sample"

definition mm_new :: "time \<Rightarrow> 'a \<Rightarrow> 'a minmax" where
  "mm_new now val =
     (let s = \<lparr>ms_time = now, ms_value = val\<rparr> in \<lparr>mm0 = s, mm1 = s, mm2 = s\<rparr>)"

definition mm_deref :: "'a minmax \<Rightarrow> 'a" where
  "mm_deref m = ms_value (mm0 m)"

definition mm_reset :: "time \<Rightarrow> 'a \<Rightarrow> 'a minmax \<Rightarrow> 'a minmax" where
  "mm_reset time meas m =
     (let val = \<lparr>ms_time = time, ms_value = meas\<rparr> in m\<lparr>mm0 := val, mm1 := val, mm2 := val\<rparr>)"

definition subwin_update ::
  "(duration \<Rightarrow> nat \<Rightarrow> duration) \<Rightarrow> duration \<Rightarrow> time \<Rightarrow> 'a \<Rightarrow> 'a minmax \<Rightarrow> 'a minmax" where
  "subwin_update div_f32 win time meas m =
     (let val = \<lparr>ms_time = time, ms_value = meas\<rparr>;
          delta_time = duration_since time (ms_time (mm0 m)) in
      if delta_time > win then
        let m = m\<lparr>mm0 := mm1 m, mm1 := mm2 m, mm2 := val\<rparr> in
        if duration_since time (ms_time (mm0 m)) > win
        then m\<lparr>mm0 := mm1 m, mm1 := mm2 m, mm2 := val\<rparr> else m
      else if ms_time (mm1 m) = ms_time (mm0 m) \<and> delta_time > div_f32 win 4
      then m\<lparr>mm2 := val, mm1 := val\<rparr>
      else if ms_time (mm2 m) = ms_time (mm1 m) \<and> delta_time > div_f32 win 2
      then m\<lparr>mm2 := val\<rparr>
      else m)"

definition running_min ::
  "(duration \<Rightarrow> nat \<Rightarrow> duration) \<Rightarrow> duration \<Rightarrow> time \<Rightarrow> 'a :: linorder \<Rightarrow> 'a minmax \<Rightarrow> 'a minmax" where
  "running_min div_f32 win time meas m =
     (let val = \<lparr>ms_time = time, ms_value = meas\<rparr>;
          delta_time = duration_since time (ms_time (mm2 m)) in
      if meas \<le> ms_value (mm0 m) \<or> delta_time > win then mm_reset time meas m
      else
        let m = (if meas \<le> ms_value (mm1 m) then m\<lparr>mm2 := val, mm1 := val\<rparr>
                 else if meas \<le> ms_value (mm2 m) then m\<lparr>mm2 := val\<rparr> else m)
        in subwin_update div_f32 win time meas m)"

definition running_max ::
  "(duration \<Rightarrow> nat \<Rightarrow> duration) \<Rightarrow> duration \<Rightarrow> time \<Rightarrow> 'a :: linorder \<Rightarrow> 'a minmax \<Rightarrow> 'a minmax" where
  "running_max div_f32 win time meas m =
     (let val = \<lparr>ms_time = time, ms_value = meas\<rparr>;
          delta_time = duration_since time (ms_time (mm2 m)) in
      if meas \<ge> ms_value (mm0 m) \<or> delta_time > win then mm_reset time meas m
      else
        let m = (if meas \<ge> ms_value (mm1 m) then m\<lparr>mm2 := val, mm1 := val\<rparr>
                 else if meas \<ge> ms_value (mm2 m) then m\<lparr>mm2 := val\<rparr> else m)
        in subwin_update div_f32 win time meas m)"

text \<open>
  The invariant of the filter over the samples \<open>S\<close> seen so far: the three estimates are samples,
  their times do not decrease and their values are in order.
\<close>

definition mm_ok :: "('a :: linorder \<Rightarrow> 'a \<Rightarrow> bool) \<Rightarrow> (time \<times> 'a) set \<Rightarrow> time \<Rightarrow> 'a minmax \<Rightarrow> bool" where
  "mm_ok le S now m \<longleftrightarrow>
     {(ms_time (mm0 m), ms_value (mm0 m)), (ms_time (mm1 m), ms_value (mm1 m)),
      (ms_time (mm2 m), ms_value (mm2 m))} \<subseteq> S
   \<and> ms_time (mm0 m) \<le> ms_time (mm1 m) \<and> ms_time (mm1 m) \<le> ms_time (mm2 m) \<and> ms_time (mm2 m) \<le> now
   \<and> le (ms_value (mm0 m)) (ms_value (mm1 m)) \<and> le (ms_value (mm1 m)) (ms_value (mm2 m))"

lemma mm_ok_reset:
  "(\<And>x. le x x) \<Longrightarrow> mm_ok le (insert (time, v) S) time (mm_reset time v m)"
  by (simp add: mm_ok_def mm_reset_def Let_def)

text \<open>
  One step of the filter: the result is a sample of the window, and no worse than the new
  measurement.
\<close>

lemma subwin_update_ok:
  assumes "mm_ok le S now m" "now \<le> time" "duration_since time (ms_time (mm2 m)) \<le> win"
    and "(time, v) \<in> S" "\<And>x. le x x" "le (ms_value (mm2 m)) v" "\<And>x y z. le x y \<Longrightarrow> le y z \<Longrightarrow> le x z"
  shows "mm_ok le S time (subwin_update div_f32 win time v m)
    \<and> duration_since time (ms_time (mm0 (subwin_update div_f32 win time v m))) \<le> win
    \<and> le (mm_deref (subwin_update div_f32 win time v m)) v"
  using assms(1-6) assms(7) [of "ms_value (mm0 m)" "ms_value (mm1 m)" v] assms(7) [of "ms_value (mm1 m)" "ms_value (mm2 m)" v]
    assms(7) [of "ms_value (mm0 m)" "ms_value (mm2 m)" v] assms(7) [of "ms_value (mm0 m)" "ms_value (mm1 m)" "ms_value (mm2 m)"]
  by (auto simp: subwin_update_def mm_ok_def mm_deref_def Let_def)

lemma running_min_ok:
  assumes "mm_ok (\<le>) S now m" "now \<le> time"
  shows "mm_ok (\<le>) (insert (time, v) S) time (running_min div_f32 win time v m)
    \<and> duration_since time (ms_time (mm0 (running_min div_f32 win time v m))) \<le> win
    \<and> mm_deref (running_min div_f32 win time v m) \<le> v"
proof (cases "v \<le> ms_value (mm0 m) \<or> duration_since time (ms_time (mm2 m)) > win")
  case True
  then show ?thesis using mm_ok_reset [of "(\<le>)" time v S m]
    by (auto simp: running_min_def Let_def mm_reset_def mm_deref_def duration_since_def)
next
  case False
  let ?val = "\<lparr>ms_time = time, ms_value = v\<rparr>"
  let ?m = "if v \<le> ms_value (mm1 m) then m\<lparr>mm2 := ?val, mm1 := ?val\<rparr>
            else if v \<le> ms_value (mm2 m) then m\<lparr>mm2 := ?val\<rparr> else m"
  have "mm_ok (\<le>) (insert (time, v) S) time ?m" "duration_since time (ms_time (mm2 ?m)) \<le> win"
    "ms_value (mm2 ?m) \<le> v"
    using assms False by (auto simp: mm_ok_def duration_since_def)
  note sub = subwin_update_ok [OF this(1) order_refl this(2) insertI1 order_refl this(3) order_trans]
  have e: "running_min div_f32 win time v m = subwin_update div_f32 win time v ?m"
    using False by (simp only: running_min_def Let_def if_False)
  show ?thesis unfolding e by (rule sub)
qed

lemma running_max_ok:
  assumes "mm_ok (\<ge>) S now m" "now \<le> time"
  shows "mm_ok (\<ge>) (insert (time, v) S) time (running_max div_f32 win time v m)
    \<and> duration_since time (ms_time (mm0 (running_max div_f32 win time v m))) \<le> win
    \<and> v \<le> mm_deref (running_max div_f32 win time v m)"
proof (cases "v \<ge> ms_value (mm0 m) \<or> duration_since time (ms_time (mm2 m)) > win")
  case True
  then show ?thesis using mm_ok_reset [of "(\<ge>)" time v S m]
    by (auto simp: running_max_def Let_def mm_reset_def mm_deref_def duration_since_def)
next
  case False
  let ?val = "\<lparr>ms_time = time, ms_value = v\<rparr>"
  let ?m = "if v \<ge> ms_value (mm1 m) then m\<lparr>mm2 := ?val, mm1 := ?val\<rparr>
            else if v \<ge> ms_value (mm2 m) then m\<lparr>mm2 := ?val\<rparr> else m"
  have "mm_ok (\<ge>) (insert (time, v) S) time ?m" "duration_since time (ms_time (mm2 ?m)) \<le> win"
    "ms_value (mm2 ?m) \<ge> v"
    using assms False by (auto simp: mm_ok_def duration_since_def)
  note sub = subwin_update_ok [OF this(1) order_refl this(2) insertI1 order_refl this(3) dual_order.trans]
  have e: "running_max div_f32 win time v m = subwin_update div_f32 win time v ?m"
    using False by (simp only: running_max_def Let_def if_False)
  show ?thesis unfolding e by (rule sub)
qed

subsection \<open>Round-trip time statistics\<close>

definition INITIAL_RTT :: duration where "INITIAL_RTT = 333 * 1000000"

definition RTT_WINDOW :: duration where "RTT_WINDOW = 300 * 1000000000"

record rtt_stats =
  rs_latest_rtt :: duration
  rs_smoothed_rtt :: duration
  rs_rttvar :: duration
  rs_min_rtt :: "duration minmax"
  rs_max_ack_delay :: duration
  rs_first_rtt_sample :: "time option"

definition rtt_new :: "time \<Rightarrow> duration \<Rightarrow> rtt_stats" where
  "rtt_new now max_ack_delay =
     \<lparr>rs_latest_rtt = 0, rs_smoothed_rtt = INITIAL_RTT, rs_rttvar = INITIAL_RTT div 2,
      rs_min_rtt = mm_new now 0, rs_max_ack_delay = max_ack_delay, rs_first_rtt_sample = None\<rparr>"

definition abs_diff :: "nat \<Rightarrow> nat \<Rightarrow> nat" where
  "abs_diff a b = (if a \<le> b then b - a else a - b)"

definition adjusted_rtt :: "duration \<Rightarrow> duration \<Rightarrow> bool \<Rightarrow> rtt_stats \<Rightarrow> duration" where
  "adjusted_rtt latest_rtt ack_delay handshake_confirmed r =
     (let ack_delay = (if handshake_confirmed then min ack_delay (rs_max_ack_delay r) else ack_delay) in
      if latest_rtt \<ge> mm_deref (rs_min_rtt r) + ack_delay then latest_rtt - ack_delay else latest_rtt)"

definition update_rtt ::
  "(duration \<Rightarrow> nat \<Rightarrow> duration) \<Rightarrow> duration \<Rightarrow> duration \<Rightarrow> time \<Rightarrow> bool \<Rightarrow> rtt_stats \<Rightarrow> rtt_stats" where
  "update_rtt div_f32 latest_rtt ack_delay now handshake_confirmed r =
     (let r = r\<lparr>rs_latest_rtt := latest_rtt\<rparr> in
      if rs_first_rtt_sample r = None then
        r\<lparr>rs_min_rtt := mm_reset now latest_rtt (rs_min_rtt r), rs_smoothed_rtt := latest_rtt,
          rs_rttvar := latest_rtt div 2, rs_first_rtt_sample := Some now\<rparr>
      else
        let r = r\<lparr>rs_min_rtt := running_min div_f32 RTT_WINDOW now latest_rtt (rs_min_rtt r)\<rparr>;
            adjusted = adjusted_rtt latest_rtt ack_delay handshake_confirmed r in
        r\<lparr>rs_rttvar := rs_rttvar r * 3 div 4 + (abs_diff (rs_smoothed_rtt r) adjusted mod 2 ^ 64) div 4,
          rs_smoothed_rtt := rs_smoothed_rtt r * 7 div 8 + adjusted div 8\<rparr>)"

definition rtt_rtt :: "rtt_stats \<Rightarrow> duration" where
  "rtt_rtt r = rs_smoothed_rtt r"

definition rtt_min_rtt :: "rtt_stats \<Rightarrow> duration option" where
  "rtt_min_rtt r = (if mm_deref (rs_min_rtt r) \<noteq> 0 then Some (mm_deref (rs_min_rtt r)) else None)"

subsection \<open>Properties\<close>

lemma weighted_average:
  fixes s a :: nat
  shows "s * 7 div 8 + a div 8 \<le> max s a" "min s a \<le> s * 7 div 8 + a div 8 + 1"
  by linarith+

text \<open>
  C120: after any sequence of measurements with non-decreasing times, the minimum round-trip
  time is one of the measurements of the last five minutes and not above the newest one, and
  one measurement moves the smoothed round-trip time neither above the larger nor, up to
  rounding, below the smaller of the old value and the measurement less the acknowledgement
  delay, which is subtracted only as far as the minimum allows.
\<close>

theorem update_rtt_bounds:
  assumes "mm_ok (\<le>) S t (rs_min_rtt r)" "t \<le> now" "rs_first_rtt_sample r \<noteq> None"
  shows "let r' = update_rtt div_f32 latest ack_delay now confirmed r;
             adj = adjusted_rtt latest ack_delay confirmed r' in
     mm_ok (\<le>) (insert (now, latest) S) now (rs_min_rtt r')
   \<and> duration_since now (ms_time (mm0 (rs_min_rtt r'))) \<le> RTT_WINDOW
   \<and> mm_deref (rs_min_rtt r') \<le> adj \<and> adj \<le> latest
   \<and> rtt_rtt r' \<le> max (rtt_rtt r) adj \<and> min (rtt_rtt r) adj \<le> rtt_rtt r' + 1"
proof -
  let ?r' = "update_rtt div_f32 latest ack_delay now confirmed r"
  let ?m = "running_min div_f32 RTT_WINDOW now latest (rs_min_rtt r)"
  have m: "rs_min_rtt ?r' = ?m" and d: "rs_max_ack_delay ?r' = rs_max_ack_delay r"
    using assms(3) by (auto simp: update_rtt_def Let_def)
  let ?adj = "adjusted_rtt latest ack_delay confirmed ?r'"
  have s: "rtt_rtt ?r' = rtt_rtt r * 7 div 8 + ?adj div 8"
    using assms(3) m d by (auto simp: update_rtt_def Let_def rtt_rtt_def adjusted_rtt_def)
  note ok = running_min_ok [OF assms(1,2), of latest div_f32 RTT_WINDOW]
  have "mm_deref ?m \<le> ?adj" "?adj \<le> latest"
    using ok by (auto simp: adjusted_rtt_def m Let_def)
  then show ?thesis
    using ok weighted_average [where s = "rtt_rtt r" and a = ?adj] unfolding Let_def m s by blast
qed

theorem update_rtt_bounds_witness:
  "let r = update_rtt (\<lambda>d n. d div n) 80 0 5 True (rtt_new 0 25);
       r' = update_rtt (\<lambda>d n. d div n) 96 10 200 True r in
   mm_deref (rs_min_rtt r') \<le> adjusted_rtt 96 10 True r' \<and> rtt_rtt r' \<le> 86"
proof -
  let ?r = "update_rtt (\<lambda>d n. d div n) 80 0 5 True (rtt_new 0 25)"
  have r: "mm_ok (\<le>) {(5, 80)} 5 (rs_min_rtt ?r)" "rs_first_rtt_sample ?r \<noteq> None" "rtt_rtt ?r = 80"
    by (simp_all add: update_rtt_def rtt_new_def mm_reset_def mm_ok_def rtt_rtt_def Let_def)
  let ?r' = "update_rtt (\<lambda>d n. d div n) 96 10 200 True ?r"
  have a: "adjusted_rtt 96 10 True ?r' = 86"
    by (simp add: update_rtt_def adjusted_rtt_def rtt_new_def mm_reset_def running_min_def subwin_update_def
        mm_deref_def duration_since_def RTT_WINDOW_def Let_def)
  have "mm_deref (rs_min_rtt ?r') \<le> adjusted_rtt 96 10 True ?r'"
    "rtt_rtt ?r' \<le> max (rtt_rtt ?r) (adjusted_rtt 96 10 True ?r')"
    using update_rtt_bounds [OF r(1) _ r(2), of 200 "\<lambda>d n. d div n" 96 10 True] unfolding Let_def by auto
  then show ?thesis unfolding Let_def a r(3) by simp
qed

end
