(* ===== verification/Congestion.thy ===== *)
theory Congestion
  imports Rtt
begin

text \<open>
  Congestion control: \<^verbatim>\<open>quiche/src/recovery/congestion/\<close> with HyStart++ (\<^verbatim>\<open>hystart.rs\<close>), pacing
  (\<^verbatim>\<open>pacer.rs\<close>), proportional rate reduction (\<^verbatim>\<open>prr.rs\<close>), delivery rate estimation
  (\<^verbatim>\<open>delivery_rate.rs\<close>), Reno, CUBIC and the disabled controller, and the \<^verbatim>\<open>Congestion\<close> structure that
  ties them together (\<^verbatim>\<open>mod.rs\<close>).

  Floating-point numbers are 64-bit patterns and their operations are the argument \<open>f64_ops\<close>; the
  predicate \<open>f64_ok\<close> has the few facts about them the properties need.  The function table
  \<^verbatim>\<open>CongestionControlOps\<close> is the record \<open>cc_ops\<close>, so that loss recovery works with any controller; the
  states of the two BBR controllers are a type variable.  An operation that can panic returns
  an option.  Byte counters do not overflow; subtractions and divisions are checked.
\<close>

subsection \<open>Floating point\<close>

type_synonym f64 = "64 word"

record f64_ops =
  f_lit :: "nat \<Rightarrow> nat \<Rightarrow> f64"
  f_of_usize :: "usize \<Rightarrow> f64"
  f_to_usize :: "f64 \<Rightarrow> usize"
  f_add :: "f64 \<Rightarrow> f64 \<Rightarrow> f64"
  f_sub :: "f64 \<Rightarrow> f64 \<Rightarrow> f64"
  f_mul :: "f64 \<Rightarrow> f64 \<Rightarrow> f64"
  f_div :: "f64 \<Rightarrow> f64 \<Rightarrow> f64"
  f_max :: "f64 \<Rightarrow> f64 \<Rightarrow> f64"
  f_min :: "f64 \<Rightarrow> f64 \<Rightarrow> f64"
  f_abs :: "f64 \<Rightarrow> f64"
  f_cbrt :: "f64 \<Rightarrow> f64"
  f_powi :: "f64 \<Rightarrow> nat \<Rightarrow> f64"
  f_less :: "f64 \<Rightarrow> f64 \<Rightarrow> bool"
  f_le :: "f64 \<Rightarrow> f64 \<Rightarrow> bool"
  f_eq :: "f64 \<Rightarrow> f64 \<Rightarrow> bool"
  f_secs :: "duration \<Rightarrow> f64"
  f_duration :: "f64 \<Rightarrow> duration"

definition DURATION_MAX :: duration where
  "DURATION_MAX = (2 ^ 64 - 1) * 1000000000 + 999999999"

definition usize_sub :: "usize \<Rightarrow> usize \<Rightarrow> usize option" where
  "usize_sub a b = (if b \<le> a then Some (a - b) else None)"

definition usize_div :: "usize \<Rightarrow> usize \<Rightarrow> usize option" where
  "usize_div a b = (if b = 0 then None else Some (a div b))"

lemma usize_sub_Some [simp]: "b \<le> a \<Longrightarrow> usize_sub a b = Some (a - b)"
  by (simp add: usize_sub_def)

lemma usize_div_Some [simp]: "0 < b \<Longrightarrow> usize_div a b = Some (a div b)"
  by (simp add: usize_div_def)

subsection \<open>Sent and acknowledged packets\<close>

record 'f sent =
  st_pkt_num :: u64
  st_frames :: "'f list"
  st_time_sent :: time
  st_time_acked :: "time option"
  st_time_lost :: "time option"
  st_size :: usize
  st_ack_eliciting :: bool
  st_in_flight :: bool
  st_delivered :: usize
  st_delivered_time :: time
  st_first_sent_time :: time
  st_is_app_limited :: bool
  st_tx_in_flight :: usize
  st_lost :: u64
  st_has_data :: bool
  st_pmtud :: bool

record acked =
  ak_pkt_num :: u64
  ak_time_sent :: time
  ak_size :: usize
  ak_rtt :: duration
  ak_delivered :: usize
  ak_delivered_time :: time
  ak_first_sent_time :: time
  ak_is_app_limited :: bool

subsection \<open>HyStart++\<close>

definition MIN_RTT_THRESH :: duration where "MIN_RTT_THRESH = 4 * 1000000"
definition MAX_RTT_THRESH :: duration where "MAX_RTT_THRESH = 16 * 1000000"
definition N_RTT_SAMPLE :: usize where "N_RTT_SAMPLE = 8"
definition CSS_GROWTH_DIVISOR :: usize where "CSS_GROWTH_DIVISOR = 4"
definition CSS_ROUNDS :: usize where "CSS_ROUNDS = 5"

record hystart =
  hs_enabled :: bool
  hs_window_end :: "u64 option"
  hs_last_round_min_rtt :: duration
  hs_current_round_min_rtt :: duration
  hs_css_baseline_min_rtt :: duration
  hs_rtt_sample_count :: usize
  hs_css_start_time :: "time option"
  hs_css_round_count :: usize

definition hs_new :: "bool \<Rightarrow> hystart" where
  "hs_new enabled =
     \<lparr>hs_enabled = enabled, hs_window_end = None, hs_last_round_min_rtt = DURATION_MAX,
      hs_current_round_min_rtt = DURATION_MAX, hs_css_baseline_min_rtt = DURATION_MAX,
      hs_rtt_sample_count = 0, hs_css_start_time = None, hs_css_round_count = 0\<rparr>"

definition hs_in_css :: "hystart \<Rightarrow> bool" where
  "hs_in_css h \<longleftrightarrow> hs_enabled h \<and> hs_css_start_time h \<noteq> None"

definition hs_start_round :: "u64 \<Rightarrow> hystart \<Rightarrow> hystart" where
  "hs_start_round pkt_num h =
     (if hs_window_end h = None
      then h\<lparr>hs_window_end := Some pkt_num, hs_last_round_min_rtt := hs_current_round_min_rtt h,
             hs_current_round_min_rtt := DURATION_MAX, hs_rtt_sample_count := 0\<rparr>
      else h)"

definition hs_slow_start :: "time \<Rightarrow> hystart \<Rightarrow> hystart" where
  "hs_slow_start now h =
     (if hs_rtt_sample_count h \<ge> N_RTT_SAMPLE \<and> hs_current_round_min_rtt h \<noteq> DURATION_MAX
         \<and> hs_last_round_min_rtt h \<noteq> DURATION_MAX then
        (let rtt_thresh = min (max (hs_last_round_min_rtt h div 8) MIN_RTT_THRESH) MAX_RTT_THRESH in
         if hs_current_round_min_rtt h \<ge> min (hs_last_round_min_rtt h + rtt_thresh) DURATION_MAX
         then h\<lparr>hs_css_baseline_min_rtt := hs_current_round_min_rtt h, hs_css_start_time := Some now\<rparr>
         else h)
      else h)"

definition hs_conservative :: "hystart \<Rightarrow> hystart" where
  "hs_conservative h =
     (if hs_rtt_sample_count h \<ge> N_RTT_SAMPLE then
        (let h = h\<lparr>hs_rtt_sample_count := 0\<rparr> in
         if hs_current_round_min_rtt h < hs_css_baseline_min_rtt h
         then h\<lparr>hs_css_baseline_min_rtt := DURATION_MAX, hs_css_start_time := None,
                hs_css_round_count := 0\<rparr>
         else h)
      else h)"

definition hs_on_packet_acked :: "acked \<Rightarrow> duration \<Rightarrow> time \<Rightarrow> hystart \<Rightarrow> bool \<times> hystart" where
  "hs_on_packet_acked packet rtt now h =
     (if \<not> hs_enabled h then (False, h)
      else
        let h = h\<lparr>hs_current_round_min_rtt := min (hs_current_round_min_rtt h) rtt,
                  hs_rtt_sample_count := hs_rtt_sample_count h + 1\<rparr>;
            h = (if hs_css_start_time h = None then hs_slow_start now h else hs_conservative h) in
        case hs_window_end h of
          None \<Rightarrow> (False, h)
        | Some end_pkt_num \<Rightarrow>
            if ak_pkt_num packet \<ge> end_pkt_num then
              let h = h\<lparr>hs_window_end := None\<rparr> in
              if hs_css_start_time h \<noteq> None then
                let h = h\<lparr>hs_css_round_count := hs_css_round_count h + 1\<rparr> in
                if hs_css_round_count h \<ge> CSS_ROUNDS then (True, h\<lparr>hs_css_round_count := 0\<rparr>)
                else (False, h)
              else (False, h)
            else (False, h))"

definition hs_css_cwnd_inc :: "usize \<Rightarrow> usize" where
  "hs_css_cwnd_inc pkt_size = pkt_size div CSS_GROWTH_DIVISOR"

definition hs_congestion_event :: "hystart \<Rightarrow> hystart" where
  "hs_congestion_event h = h\<lparr>hs_window_end := None, hs_css_start_time := None\<rparr>"

subsection \<open>Pacing\<close>

record pacer =
  pc_enabled :: bool
  pc_capacity :: usize
  pc_used :: usize
  pc_rate :: u64
  pc_last_update :: time
  pc_next_time :: time
  pc_max_datagram_size :: usize
  pc_last_packet_size :: "usize option"
  pc_iv :: duration
  pc_max_pacing_rate :: "u64 option"

definition limit_rate :: "u64 option \<Rightarrow> u64 \<Rightarrow> u64" where
  "limit_rate max_pacing_rate rate =
     (case max_pacing_rate of Some max_rate \<Rightarrow> min max_rate rate | None \<Rightarrow> rate)"

definition pc_new ::
  "time \<Rightarrow> bool \<Rightarrow> usize \<Rightarrow> u64 \<Rightarrow> usize \<Rightarrow> u64 option \<Rightarrow> pacer option" where
  "pc_new now enabled capacity rate max_datagram_size max_pacing_rate =
     do { n \<leftarrow> usize_div capacity max_datagram_size;
          Some \<lparr>pc_enabled = enabled, pc_capacity = n * max_datagram_size, pc_used = 0,
                pc_rate = limit_rate max_pacing_rate rate, pc_last_update = now, pc_next_time = now,
                pc_max_datagram_size = max_datagram_size, pc_last_packet_size = None, pc_iv = 0,
                pc_max_pacing_rate = max_pacing_rate\<rparr> }"

definition pc_reset :: "time \<Rightarrow> pacer \<Rightarrow> pacer" where
  "pc_reset now p =
     p\<lparr>pc_used := 0, pc_last_update := now, pc_next_time := max (pc_next_time p) now,
       pc_last_packet_size := None, pc_iv := 0\<rparr>"

definition pc_update :: "usize \<Rightarrow> u64 \<Rightarrow> time \<Rightarrow> pacer \<Rightarrow> pacer option" where
  "pc_update capacity rate now p =
     do { n \<leftarrow> usize_div capacity (pc_max_datagram_size p);
          let capacity = n * pc_max_datagram_size p;
          let p = (if pc_capacity p \<noteq> capacity then pc_reset now p else p);
          Some (p\<lparr>pc_capacity := capacity, pc_rate := limit_rate (pc_max_pacing_rate p) rate\<rparr>) }"

definition pc_send :: "f64_ops \<Rightarrow> usize \<Rightarrow> time \<Rightarrow> pacer \<Rightarrow> pacer" where
  "pc_send F packet_size now p =
     (if pc_rate p = 0 then pc_reset now p
      else
        let secs = (\<lambda>n. f_duration F (f_div F (f_of_usize F n) (f_of_usize F (pc_rate p))));
            p = (if pc_iv p \<noteq> 0
                 then p\<lparr>pc_next_time := max (pc_next_time p) now + int (pc_iv p), pc_iv := 0\<rparr> else p);
            interval = secs (pc_capacity p);
            elapsed = duration_since now (pc_last_update p);
            p = (if elapsed > interval then pc_reset now p else p);
            p = p\<lparr>pc_used := pc_used p + packet_size\<rparr>;
            same_size = (case pc_last_packet_size p of Some n \<Rightarrow> n = packet_size | None \<Rightarrow> True);
            p = p\<lparr>pc_last_packet_size := Some packet_size\<rparr> in
        if pc_used p \<ge> pc_capacity p \<or> \<not> same_size
        then p\<lparr>pc_iv := secs (pc_used p), pc_used := 0, pc_last_update := now, pc_last_packet_size := None\<rparr>
        else p)"

subsection \<open>Proportional rate reduction\<close>

record prr =
  prr_delivered :: usize
  prr_recoverfs :: usize
  prr_out :: usize
  prr_snd_cnt :: usize

definition prr_on_packet_sent :: "usize \<Rightarrow> prr \<Rightarrow> prr" where
  "prr_on_packet_sent sent_bytes p =
     p\<lparr>prr_out := prr_out p + sent_bytes, prr_snd_cnt := prr_snd_cnt p - sent_bytes\<rparr>"

definition prr_congestion_event :: "usize \<Rightarrow> prr \<Rightarrow> prr" where
  "prr_congestion_event bytes_in_flight p =
     p\<lparr>prr_delivered := 0, prr_recoverfs := bytes_in_flight, prr_out := 0, prr_snd_cnt := 0\<rparr>"

definition prr_on_packet_acked :: "usize \<Rightarrow> usize \<Rightarrow> usize \<Rightarrow> usize \<Rightarrow> prr \<Rightarrow> prr" where
  "prr_on_packet_acked delivered_data pipe ssthresh max_datagram_size p =
     (let p = p\<lparr>prr_delivered := prr_delivered p + delivered_data\<rparr> in
      p\<lparr>prr_snd_cnt :=
         (if pipe > ssthresh then
            (if prr_recoverfs p > 0
             then (prr_delivered p * ssthresh + prr_recoverfs p - 1) div prr_recoverfs p - prr_out p
             else 0)
          else min (ssthresh - pipe)
                 (max (prr_delivered p - prr_out p) delivered_data + max_datagram_size))\<rparr>)"

subsection \<open>Delivery rate\<close>

record rate_sample =
  sm_delivery_rate :: u64
  sm_is_app_limited :: bool
  sm_interval :: duration
  sm_delivered :: usize
  sm_prior_delivered :: usize
  sm_prior_time :: "time option"
  sm_send_elapsed :: duration
  sm_ack_elapsed :: duration
  sm_rtt :: duration

record rate =
  rt_delivered :: usize
  rt_delivered_time :: time
  rt_first_sent_time :: time
  rt_end_of_app_limited :: u64
  rt_last_sent_packet :: u64
  rt_largest_acked :: u64
  rt_rate_sample :: rate_sample

definition rate_default :: "time \<Rightarrow> rate" where
  "rate_default now =
     \<lparr>rt_delivered = 0, rt_delivered_time = now, rt_first_sent_time = now, rt_end_of_app_limited = 0,
      rt_last_sent_packet = 0, rt_largest_acked = 0,
      rt_rate_sample = \<lparr>sm_delivery_rate = 0, sm_is_app_limited = False, sm_interval = 0,
        sm_delivered = 0, sm_prior_delivered = 0, sm_prior_time = None, sm_send_elapsed = 0,
        sm_ack_elapsed = 0, sm_rtt = 0\<rparr>\<rparr>"

definition rate_app_limited :: "rate \<Rightarrow> bool" where
  "rate_app_limited r \<longleftrightarrow> rt_end_of_app_limited r \<noteq> 0"

definition rate_update_app_limited :: "bool \<Rightarrow> rate \<Rightarrow> rate" where
  "rate_update_app_limited v r =
     r\<lparr>rt_end_of_app_limited := (if v then max (rt_last_sent_packet r) 1 else 0)\<rparr>"

definition rate_on_packet_sent :: "'f sent \<Rightarrow> usize \<Rightarrow> u64 \<Rightarrow> rate \<Rightarrow> rate \<times> 'f sent" where
  "rate_on_packet_sent pkt bytes_in_flight bytes_lost r =
     (let r = (if bytes_in_flight = 0
               then r\<lparr>rt_first_sent_time := st_time_sent pkt, rt_delivered_time := st_time_sent pkt\<rparr> else r);
          pkt = pkt\<lparr>st_first_sent_time := rt_first_sent_time r, st_delivered_time := rt_delivered_time r,
                    st_delivered := rt_delivered r, st_is_app_limited := rate_app_limited r,
                    st_tx_in_flight := bytes_in_flight, st_lost := bytes_lost\<rparr> in
      (r\<lparr>rt_last_sent_packet := st_pkt_num pkt\<rparr>, pkt))"

definition update_rate_sample :: "acked \<Rightarrow> time \<Rightarrow> rate \<Rightarrow> rate" where
  "update_rate_sample pkt now r =
     (let r = r\<lparr>rt_delivered := rt_delivered r + ak_size pkt, rt_delivered_time := now\<rparr>;
          s = rt_rate_sample r;
          r = (if sm_prior_time s = None \<or> ak_delivered pkt > sm_prior_delivered s
               then r\<lparr>rt_rate_sample := s\<lparr>sm_prior_delivered := ak_delivered pkt,
                        sm_prior_time := Some (ak_delivered_time pkt),
                        sm_is_app_limited := ak_is_app_limited pkt,
                        sm_send_elapsed := duration_since (ak_time_sent pkt) (ak_first_sent_time pkt),
                        sm_rtt := ak_rtt pkt,
                        sm_ack_elapsed := duration_since (rt_delivered_time r) (ak_delivered_time pkt)\<rparr>,
                      rt_first_sent_time := ak_time_sent pkt\<rparr>
               else r) in
      r\<lparr>rt_largest_acked := max (rt_largest_acked r) (ak_pkt_num pkt)\<rparr>)"

definition generate_rate_sample :: "f64_ops \<Rightarrow> duration \<Rightarrow> rate \<Rightarrow> rate option" where
  "generate_rate_sample F min_rtt r =
     (let r = (if rate_app_limited r \<and> rt_largest_acked r > rt_end_of_app_limited r
               then rate_update_app_limited False r else r);
          s = rt_rate_sample r in
      if sm_prior_time s \<noteq> None then
        do { delivered \<leftarrow> usize_sub (rt_delivered r) (sm_prior_delivered s);
             let interval = max (sm_send_elapsed s) (sm_ack_elapsed s);
             let s = s\<lparr>sm_delivered := delivered, sm_interval := interval\<rparr>;
             Some (r\<lparr>rt_rate_sample :=
               (if interval < min_rtt then s\<lparr>sm_interval := 0\<rparr>
                else if interval \<noteq> 0
                then s\<lparr>sm_delivery_rate := f_to_usize F (f_div F (f_of_usize F delivered) (f_secs F interval))\<rparr>
                else s)\<rparr>) }
      else Some r)"

subsection \<open>The congestion controller's state\<close>

definition MINIMUM_WINDOW_PACKETS :: usize where "MINIMUM_WINDOW_PACKETS = 2"

record cubic_prior =
  cp_congestion_window :: usize
  cp_ssthresh :: usize
  cp_w_max :: f64
  cp_k :: f64
  cp_epoch_start :: "time option"
  cp_lost_count :: usize

record cubic_state =
  cb_k :: f64
  cb_w_max :: f64
  cb_w_est :: f64
  cb_alpha_aimd :: f64
  cb_last_sent_time :: "time option"
  cb_cwnd_inc :: usize
  cb_prior :: cubic_prior

record 'bbr congestion =
  cg_cubic_state :: cubic_state
  cg_hystart :: hystart
  cg_pacer :: pacer
  cg_prr :: prr
  cg_real_time :: bool
  cg_send_quantum :: usize
  cg_bbr_state :: 'bbr
  cg_congestion_window :: usize
  cg_ssthresh :: usize
  cg_bytes_acked_sl :: usize
  cg_bytes_acked_ca :: usize
  cg_congestion_recovery_start_time :: "time option"
  cg_app_limited :: bool
  cg_delivery_rate :: rate
  cg_initial_congestion_window_packets :: usize
  cg_current_loss_epoch_start_time :: "time option"
  cg_current_loss_epoch_lost_packets_count :: usize
  cg_max_lost_packets_per_epoch :: "usize option"
  cg_smoothed_lost_packets_per_epoch :: "f64 option"
  cg_var_lost_packets_per_epoch :: f64
  cg_max_datagram_size :: usize
  cg_lost_count :: usize

text \<open>
  The function table of a controller; \<^verbatim>\<open>on_packets_acked\<close> also returns what it leaves in the vector
  of packets.
\<close>

record ('f, 'bbr) cc_ops =
  op_on_init :: "'bbr congestion \<Rightarrow> 'bbr congestion"
  op_on_packet_sent :: "usize \<Rightarrow> usize \<Rightarrow> time \<Rightarrow> 'bbr congestion \<Rightarrow> 'bbr congestion"
  op_on_packets_acked ::
    "usize \<Rightarrow> acked list \<Rightarrow> time \<Rightarrow> rtt_stats \<Rightarrow> 'bbr congestion \<Rightarrow> ('bbr congestion \<times> acked list) option"
  op_congestion_event :: "usize \<Rightarrow> usize \<Rightarrow> 'f sent \<Rightarrow> time \<Rightarrow> 'bbr congestion \<Rightarrow> 'bbr congestion option"
  op_checkpoint :: "'bbr congestion \<Rightarrow> 'bbr congestion"
  op_rollback :: "'bbr congestion \<Rightarrow> bool \<times> 'bbr congestion"
  op_has_custom_pacing :: bool

definition in_congestion_recovery :: "time \<Rightarrow> 'bbr congestion \<Rightarrow> bool" where
  "in_congestion_recovery sent_time c =
     (case cg_congestion_recovery_start_time c of Some t \<Rightarrow> sent_time \<le> t | None \<Rightarrow> False)"

fun each_acked :: "('a \<Rightarrow> 's \<Rightarrow> 's option) \<Rightarrow> 'a list \<Rightarrow> 's \<Rightarrow> 's option" where
  "each_acked f [] s = Some s"
| "each_acked f (p # ps) s = Option.bind (f p s) (each_acked f ps)"

subsection \<open>Reno\<close>

definition reno_on_packet_acked ::
  "acked \<Rightarrow> time \<Rightarrow> rtt_stats \<Rightarrow> 'bbr congestion \<Rightarrow> 'bbr congestion" where
  "reno_on_packet_acked packet now rtt c =
     (if in_congestion_recovery (ak_time_sent packet) c then c
      else if cg_app_limited c then c
      else if cg_congestion_window c < cg_ssthresh c then
        let c = c\<lparr>cg_bytes_acked_sl := cg_bytes_acked_sl c + ak_size packet\<rparr>;
            c = c\<lparr>cg_congestion_window := cg_congestion_window c +
                   (if hs_in_css (cg_hystart c) then hs_css_cwnd_inc (cg_max_datagram_size c)
                    else cg_max_datagram_size c)\<rparr> in
        case hs_on_packet_acked packet (rs_latest_rtt rtt) now (cg_hystart c) of
          (css_end, h) \<Rightarrow>
            let c = c\<lparr>cg_hystart := h\<rparr> in
            if css_end then c\<lparr>cg_ssthresh := cg_congestion_window c\<rparr> else c
      else
        let c = c\<lparr>cg_bytes_acked_ca := cg_bytes_acked_ca c + ak_size packet\<rparr> in
        if cg_bytes_acked_ca c \<ge> cg_congestion_window c
        then c\<lparr>cg_bytes_acked_ca := cg_bytes_acked_ca c - cg_congestion_window c,
               cg_congestion_window := cg_congestion_window c + cg_max_datagram_size c\<rparr>
        else c)"

definition reno_on_packets_acked ::
  "usize \<Rightarrow> acked list \<Rightarrow> time \<Rightarrow> rtt_stats \<Rightarrow> 'bbr congestion \<Rightarrow> ('bbr congestion \<times> acked list) option" where
  "reno_on_packets_acked bytes_in_flight packets now rtt c =
     map_option (\<lambda>c. (c, [])) (each_acked (\<lambda>p c. Some (reno_on_packet_acked p now rtt c)) packets c)"

definition f_scale :: "f64_ops \<Rightarrow> usize \<Rightarrow> f64 \<Rightarrow> usize" where
  "f_scale F n x = f_to_usize F (f_mul F (f_of_usize F n) x)"

definition LOSS_REDUCTION_FACTOR :: "f64_ops \<Rightarrow> f64" where
  "LOSS_REDUCTION_FACTOR F = f_lit F 1 2"

definition reno_congestion_event ::
  "f64_ops \<Rightarrow> usize \<Rightarrow> usize \<Rightarrow> 'f sent \<Rightarrow> time \<Rightarrow> 'bbr congestion \<Rightarrow> 'bbr congestion option" where
  "reno_congestion_event F bytes_in_flight lost_bytes largest_lost_pkt now c =
     Some (if \<not> in_congestion_recovery (st_time_sent largest_lost_pkt) c then
       let w = max (f_scale F (cg_congestion_window c) (LOSS_REDUCTION_FACTOR F))
                 (cg_max_datagram_size c * MINIMUM_WINDOW_PACKETS);
           c = c\<lparr>cg_congestion_recovery_start_time := Some now, cg_congestion_window := w,
                 cg_bytes_acked_ca := f_scale F w (LOSS_REDUCTION_FACTOR F), cg_ssthresh := w\<rparr> in
       if hs_in_css (cg_hystart c) then c\<lparr>cg_hystart := hs_congestion_event (cg_hystart c)\<rparr> else c
     else c)"

definition RENO :: "f64_ops \<Rightarrow> ('f, 'bbr) cc_ops" where
  "RENO F = \<lparr>op_on_init = (\<lambda>c. c), op_on_packet_sent = (\<lambda>_ _ _ c. c),
     op_on_packets_acked = reno_on_packets_acked, op_congestion_event = reno_congestion_event F,
     op_checkpoint = (\<lambda>c. c), op_rollback = (\<lambda>c. (True, c)), op_has_custom_pacing = False\<rparr>"

subsection \<open>No congestion control\<close>

definition disabled_congestion_event ::
  "usize \<Rightarrow> usize \<Rightarrow> 'f sent \<Rightarrow> time \<Rightarrow> 'bbr congestion \<Rightarrow> 'bbr congestion option" where
  "disabled_congestion_event bytes_in_flight lost_bytes largest_lost_pkt now c =
     Some (c\<lparr>cg_congestion_window := usize_max - 1\<rparr>)"

definition DISABLED_CC :: "('f, 'bbr) cc_ops" where
  "DISABLED_CC = \<lparr>op_on_init = (\<lambda>c. c), op_on_packet_sent = (\<lambda>_ _ _ c. c),
     op_on_packets_acked = (\<lambda>_ packets _ _ c. Some (c, packets)),
     op_congestion_event = disabled_congestion_event, op_checkpoint = (\<lambda>c. c),
     op_rollback = (\<lambda>c. (True, c)), op_has_custom_pacing = False\<rparr>"

subsection \<open>CUBIC\<close>

definition BETA_CUBIC :: "f64_ops \<Rightarrow> f64" where "BETA_CUBIC F = f_lit F 7 10"

definition C_CUBIC :: "f64_ops \<Rightarrow> f64" where "C_CUBIC F = f_lit F 4 10"

definition ROLLBACK_THRESHOLD_PERCENT :: usize where "ROLLBACK_THRESHOLD_PERCENT = 20"

definition MIN_ROLLBACK_THRESHOLD :: usize where "MIN_ROLLBACK_THRESHOLD = 2"

definition ALPHA_AIMD :: "f64_ops \<Rightarrow> f64" where
  "ALPHA_AIMD F = f_div F (f_mul F (f_lit F 3 1) (f_sub F (f_lit F 1 1) (BETA_CUBIC F)))
     (f_add F (f_lit F 1 1) (BETA_CUBIC F))"

definition cubic_k :: "f64_ops \<Rightarrow> usize \<Rightarrow> usize \<Rightarrow> cubic_state \<Rightarrow> f64" where
  "cubic_k F cwnd max_datagram_size s =
     (let w_max = f_div F (cb_w_max s) (f_of_usize F max_datagram_size);
          cwnd = f_div F (f_of_usize F cwnd) (f_of_usize F max_datagram_size) in
      f_cbrt F (f_div F (f_sub F w_max cwnd) (C_CUBIC F)))"

definition w_cubic :: "f64_ops \<Rightarrow> duration \<Rightarrow> usize \<Rightarrow> cubic_state \<Rightarrow> f64" where
  "w_cubic F t max_datagram_size s =
     (let w_max = f_div F (cb_w_max s) (f_of_usize F max_datagram_size) in
      f_mul F (f_add F (f_mul F (C_CUBIC F) (f_powi F (f_sub F (f_secs F t) (cb_k s)) 3)) w_max)
        (f_of_usize F max_datagram_size))"

definition w_est_inc :: "f64_ops \<Rightarrow> usize \<Rightarrow> usize \<Rightarrow> usize \<Rightarrow> cubic_state \<Rightarrow> f64" where
  "w_est_inc F acked cwnd max_datagram_size s =
     f_mul F (f_mul F (cb_alpha_aimd s) (f_div F (f_of_usize F acked) (f_of_usize F cwnd)))
       (f_of_usize F max_datagram_size)"

definition cubic_on_packet_sent ::
  "usize \<Rightarrow> usize \<Rightarrow> time \<Rightarrow> 'bbr congestion \<Rightarrow> 'bbr congestion" where
  "cubic_on_packet_sent sent_bytes bytes_in_flight now c =
     (let c = (case cb_last_sent_time (cg_cubic_state c) of
                 Some last_sent_time \<Rightarrow>
                   if bytes_in_flight = 0 then
                     (case cg_congestion_recovery_start_time c of
                        Some t \<Rightarrow>
                          let delta = duration_since now last_sent_time in
                          if delta > 0 then c\<lparr>cg_congestion_recovery_start_time := Some (t + int delta)\<rparr> else c
                      | None \<Rightarrow> c)
                   else c
               | None \<Rightarrow> c) in
      c\<lparr>cg_cubic_state := (cg_cubic_state c)\<lparr>cb_last_sent_time := Some now\<rparr>\<rparr>)"

definition cubic_checkpoint :: "'bbr congestion \<Rightarrow> 'bbr congestion" where
  "cubic_checkpoint c =
     (let s = cg_cubic_state c in
      c\<lparr>cg_cubic_state := s\<lparr>cb_prior :=
         \<lparr>cp_congestion_window = cg_congestion_window c, cp_ssthresh = cg_ssthresh c,
          cp_w_max = cb_w_max s, cp_k = cb_k s, cp_epoch_start = cg_congestion_recovery_start_time c,
          cp_lost_count = cg_lost_count c\<rparr>\<rparr>\<rparr>)"

definition cubic_rollback :: "'bbr congestion \<Rightarrow> bool \<times> 'bbr congestion" where
  "cubic_rollback c =
     (let s = cg_cubic_state c; prior = cb_prior s in
      if cp_congestion_window prior < cp_ssthresh prior then (False, c)
      else if cg_congestion_window c \<ge> cp_congestion_window prior then (False, c)
      else (True, c\<lparr>cg_congestion_window := cp_congestion_window prior, cg_ssthresh := cp_ssthresh prior,
                    cg_cubic_state := s\<lparr>cb_w_max := cp_w_max prior, cb_k := cp_k prior\<rparr>,
                    cg_congestion_recovery_start_time := cp_epoch_start prior\<rparr>))"

text \<open>
  Congestion avoidance: \<open>cubic_ca_start\<close> chooses the start of the epoch, initialising the curve when
  there was no congestion event, and \<open>cubic_ca\<close> moves the window along the curve.
\<close>

definition cubic_init_curve :: "f64_ops \<Rightarrow> 'bbr congestion \<Rightarrow> 'bbr congestion" where
  "cubic_init_curve F c =
     c\<lparr>cg_cubic_state := (cg_cubic_state c)
         \<lparr>cb_w_max := f_of_usize F (cg_congestion_window c), cb_k := f_lit F 0 1,
          cb_w_est := f_of_usize F (cg_congestion_window c), cb_alpha_aimd := ALPHA_AIMD F\<rparr>\<rparr>"

definition cubic_ca_start :: "f64_ops \<Rightarrow> time \<Rightarrow> 'bbr congestion \<Rightarrow> time \<times> 'bbr congestion" where
  "cubic_ca_start F now c =
     (if hs_in_css (cg_hystart c) then
        (the (hs_css_start_time (cg_hystart c)),
         if f_eq F (cb_w_max (cg_cubic_state c)) (f_lit F 0 1) then cubic_init_curve F c else c)
      else case cg_congestion_recovery_start_time c of
          Some t \<Rightarrow> (t, c)
        | None \<Rightarrow> (now, cubic_init_curve F (c\<lparr>cg_congestion_recovery_start_time := Some now\<rparr>)))"

definition cubic_target :: "f64_ops \<Rightarrow> duration \<Rightarrow> rtt_stats \<Rightarrow> usize \<Rightarrow> usize \<Rightarrow> cubic_state \<Rightarrow> f64" where
  "cubic_target F t rtt cwnd mds s =
     (let target = w_cubic F (t + mm_deref (rs_min_rtt rtt)) mds s;
          target = f_max F target (f_of_usize F cwnd) in
      f_min F target (f_mul F (f_of_usize F cwnd) (f_lit F 3 2)))"

definition cubic_w_est :: "f64_ops \<Rightarrow> usize \<Rightarrow> usize \<Rightarrow> usize \<Rightarrow> cubic_state \<Rightarrow> cubic_state" where
  "cubic_w_est F acked cwnd mds s =
     (let s = s\<lparr>cb_w_est := f_add F (cb_w_est s) (w_est_inc F acked cwnd mds s)\<rparr> in
      if f_le F (cb_w_max s) (cb_w_est s) then s\<lparr>cb_alpha_aimd := f_lit F 1 1\<rparr> else s)"

definition cubic_cwnd :: "f64_ops \<Rightarrow> duration \<Rightarrow> f64 \<Rightarrow> usize \<Rightarrow> usize \<Rightarrow> cubic_state \<Rightarrow> usize option" where
  "cubic_cwnd F t target cwnd mds s =
     (if f_less F (w_cubic F t mds s) (cb_w_est s)
      then Some (max cwnd (f_to_usize F (cb_w_est s)))
      else do { d \<leftarrow> usize_sub (f_to_usize F target) cwnd;
                cubic_inc \<leftarrow> usize_div (mds * d) cwnd;
                Some (cwnd + cubic_inc) })"

definition cubic_ca ::
  "f64_ops \<Rightarrow> acked \<Rightarrow> time \<Rightarrow> rtt_stats \<Rightarrow> 'bbr congestion \<Rightarrow> 'bbr congestion option" where
  "cubic_ca F packet now rtt c =
     (case cubic_ca_start F now c of
        (ca_start_time, c) \<Rightarrow>
          let mds = cg_max_datagram_size c; cwnd = cg_congestion_window c;
              t = duration_since now ca_start_time;
              target = cubic_target F t rtt cwnd mds (cg_cubic_state c);
              s = cubic_w_est F (ak_size packet) cwnd mds (cg_cubic_state c) in
          do { w \<leftarrow> cubic_cwnd F t target cwnd mds s;
               let s = s\<lparr>cb_cwnd_inc := cb_cwnd_inc s + (w - cwnd)\<rparr>;
               Some (if cb_cwnd_inc s \<ge> mds
                     then c\<lparr>cg_cubic_state := s\<lparr>cb_cwnd_inc := cb_cwnd_inc s - mds\<rparr>,
                            cg_congestion_window := cwnd + mds\<rparr>
                     else c\<lparr>cg_cubic_state := s\<rparr>) })"

definition cubic_ss ::
  "acked \<Rightarrow> time \<Rightarrow> rtt_stats \<Rightarrow> 'bbr congestion \<Rightarrow> 'bbr congestion" where
  "cubic_ss packet now rtt c =
     (let mds = cg_max_datagram_size c;
          c = c\<lparr>cg_bytes_acked_sl := cg_bytes_acked_sl c + ak_size packet\<rparr>;
          c = (if cg_bytes_acked_sl c \<ge> mds
               then c\<lparr>cg_congestion_window := cg_congestion_window c +
                        (if hs_in_css (cg_hystart c) then hs_css_cwnd_inc mds else mds),
                      cg_bytes_acked_sl := cg_bytes_acked_sl c - mds\<rparr>
               else c) in
      case hs_on_packet_acked packet (rs_latest_rtt rtt) now (cg_hystart c) of
        (css_end, h) \<Rightarrow>
          let c = c\<lparr>cg_hystart := h\<rparr> in
          if css_end then c\<lparr>cg_ssthresh := cg_congestion_window c\<rparr> else c)"

definition cubic_spurious :: "'bbr congestion \<Rightarrow> (bool \<times> 'bbr congestion) option" where
  "cubic_spurious c =
     (if cg_congestion_recovery_start_time c \<noteq> None then
        do { new_lost \<leftarrow> usize_sub (cg_lost_count c) (cp_lost_count (cb_prior (cg_cubic_state c)));
             pkts \<leftarrow> usize_div (cg_congestion_window c) (cg_max_datagram_size c);
             let rollback_threshold = max (pkts * ROLLBACK_THRESHOLD_PERCENT div 100) MIN_ROLLBACK_THRESHOLD;
             Some (if new_lost < rollback_threshold then cubic_rollback c else (False, c)) }
      else Some (False, c))"

definition cubic_on_packet_acked ::
  "f64_ops \<Rightarrow> usize \<Rightarrow> time \<Rightarrow> rtt_stats \<Rightarrow> acked \<Rightarrow> 'bbr congestion \<Rightarrow> 'bbr congestion option" where
  "cubic_on_packet_acked F bytes_in_flight now rtt packet c =
     (if in_congestion_recovery (ak_time_sent packet) c then
        Some (c\<lparr>cg_prr := prr_on_packet_acked (ak_size packet) bytes_in_flight (cg_ssthresh c)
                            (cg_max_datagram_size c) (cg_prr c)\<rparr>)
      else if cg_app_limited c \<and> \<not> cg_real_time c
            \<or> cg_real_time c \<and> saturating_add (min (bytes_in_flight * 3) usize_max div 2) (ak_size packet)
                < cg_congestion_window c
      then Some c
      else do { (did_rollback, c) \<leftarrow> cubic_spurious c;
                if did_rollback then Some c
                else if cg_congestion_window c < cg_ssthresh c then Some (cubic_ss packet now rtt c)
                else cubic_ca F packet now rtt c })"

definition cubic_on_packets_acked ::
  "f64_ops \<Rightarrow> usize \<Rightarrow> acked list \<Rightarrow> time \<Rightarrow> rtt_stats \<Rightarrow> 'bbr congestion
     \<Rightarrow> ('bbr congestion \<times> acked list) option" where
  "cubic_on_packets_acked F bytes_in_flight packets now rtt c =
     map_option (\<lambda>c. (c, [])) (each_acked (cubic_on_packet_acked F bytes_in_flight now rtt) packets c)"

definition cubic_congestion_event ::
  "f64_ops \<Rightarrow> usize \<Rightarrow> usize \<Rightarrow> 'f sent \<Rightarrow> time \<Rightarrow> 'bbr congestion \<Rightarrow> 'bbr congestion option" where
  "cubic_congestion_event F bytes_in_flight lost_bytes largest_lost_pkt now c =
     Some (if \<not> in_congestion_recovery (st_time_sent largest_lost_pkt) c then
       let s = cg_cubic_state c; mds = cg_max_datagram_size c; cwnd = f_of_usize F (cg_congestion_window c);
           s = s\<lparr>cb_w_max := (if f_less F cwnd (cb_w_max s)
                   then f_div F (f_mul F cwnd (f_add F (f_lit F 1 1) (BETA_CUBIC F))) (f_lit F 2 1)
                   else cwnd)\<rparr>;
           w = max (f_scale F (cg_congestion_window c) (BETA_CUBIC F)) (mds * MINIMUM_WINDOW_PACKETS);
           s = s\<lparr>cb_k := (if f_less F (cb_w_max s) (f_of_usize F w) then f_lit F 0 1 else cubic_k F w mds s)\<rparr>;
           s = s\<lparr>cb_cwnd_inc := f_scale F (cb_cwnd_inc s) (BETA_CUBIC F), cb_w_est := f_of_usize F w,
                 cb_alpha_aimd := ALPHA_AIMD F\<rparr>;
           c = c\<lparr>cg_congestion_recovery_start_time := Some now, cg_ssthresh := w,
                 cg_congestion_window := w, cg_cubic_state := s\<rparr>;
           c = (if hs_in_css (cg_hystart c) then c\<lparr>cg_hystart := hs_congestion_event (cg_hystart c)\<rparr> else c) in
       c\<lparr>cg_prr := prr_congestion_event bytes_in_flight (cg_prr c)\<rparr>
     else c)"

definition CUBIC :: "f64_ops \<Rightarrow> ('f, 'bbr) cc_ops" where
  "CUBIC F = \<lparr>op_on_init = (\<lambda>c. c), op_on_packet_sent = cubic_on_packet_sent,
     op_on_packets_acked = cubic_on_packets_acked F, op_congestion_event = cubic_congestion_event F,
     op_checkpoint = cubic_checkpoint, op_rollback = cubic_rollback, op_has_custom_pacing = False\<rparr>"

subsection \<open>The congestion structure\<close>

datatype cc_algorithm = CC_Reno | CC_CUBIC | CC_BBR | CC_BBR2 | CC_DISABLED

definition cc_algorithm_from_str :: "string \<Rightarrow> (error, cc_algorithm) res" where
  "cc_algorithm_from_str name =
     (if name = ''reno'' then Ok CC_Reno
      else if name = ''cubic'' then Ok CC_CUBIC
      else if name = ''bbr'' then Ok CC_BBR
      else if name = ''bbr2'' then Ok CC_BBR2
      else if name = ''disabled'' then Ok CC_DISABLED
      else Err CongestionControl)"

text \<open>The tables of the two BBR controllers are the arguments \<open>BBR\<close> and \<open>BBR2\<close>.\<close>

definition cc_table ::
  "f64_ops \<Rightarrow> ('f, 'bbr) cc_ops \<Rightarrow> ('f, 'bbr) cc_ops \<Rightarrow> cc_algorithm \<Rightarrow> ('f, 'bbr) cc_ops" where
  "cc_table F BBR BBR2 algo =
     (case algo of CC_Reno \<Rightarrow> RENO F | CC_CUBIC \<Rightarrow> CUBIC F | CC_BBR \<Rightarrow> BBR | CC_BBR2 \<Rightarrow> BBR2
        | CC_DISABLED \<Rightarrow> DISABLED_CC)"

record recovery_config =
  rf_max_send_udp_payload_size :: usize
  rf_max_ack_delay :: duration
  rf_cc_algorithm :: cc_algorithm
  rf_hystart :: bool
  rf_pacing :: bool
  rf_max_pacing_rate :: "u64 option"
  rf_initial_congestion_window_packets :: usize
  rf_real_time :: bool

definition cubic_state_default :: "f64_ops \<Rightarrow> cubic_state" where
  "cubic_state_default F =
     (let z = f_lit F 0 1 in
      \<lparr>cb_k = z, cb_w_max = z, cb_w_est = z, cb_alpha_aimd = z, cb_last_sent_time = None, cb_cwnd_inc = 0,
       cb_prior = \<lparr>cp_congestion_window = 0, cp_ssthresh = 0, cp_w_max = z, cp_k = z,
                   cp_epoch_start = None, cp_lost_count = 0\<rparr>\<rparr>)"

definition cg_from_config ::
  "f64_ops \<Rightarrow> ('f, 'bbr) cc_ops \<Rightarrow> 'bbr \<Rightarrow> time \<Rightarrow> recovery_config \<Rightarrow> 'bbr congestion option" where
  "cg_from_config F ops bbr now cf =
     (let w = rf_max_send_udp_payload_size cf * rf_initial_congestion_window_packets cf in
      do { pacer \<leftarrow> pc_new now (rf_pacing cf) w 0 (rf_max_send_udp_payload_size cf) (rf_max_pacing_rate cf);
           Some (op_on_init ops
             \<lparr>cg_cubic_state = cubic_state_default F, cg_hystart = hs_new (rf_hystart cf),
              cg_pacer = pacer,
              cg_prr = \<lparr>prr_delivered = 0, prr_recoverfs = 0, prr_out = 0, prr_snd_cnt = 0\<rparr>,
              cg_real_time = rf_real_time cf, cg_send_quantum = w, cg_bbr_state = bbr,
              cg_congestion_window = w, cg_ssthresh = usize_max, cg_bytes_acked_sl = 0,
              cg_bytes_acked_ca = 0, cg_congestion_recovery_start_time = None, cg_app_limited = False,
              cg_delivery_rate = rate_default now,
              cg_initial_congestion_window_packets = rf_initial_congestion_window_packets cf,
              cg_current_loss_epoch_start_time = None, cg_current_loss_epoch_lost_packets_count = 0,
              cg_max_lost_packets_per_epoch = None, cg_smoothed_lost_packets_per_epoch = None,
              cg_var_lost_packets_per_epoch = f_lit F 0 1,
              cg_max_datagram_size = rf_max_send_udp_payload_size cf, cg_lost_count = 0\<rparr>) })"

definition cg_set_pacing_rate :: "u64 \<Rightarrow> time \<Rightarrow> 'bbr congestion \<Rightarrow> 'bbr congestion option" where
  "cg_set_pacing_rate rate now c =
     map_option (\<lambda>p. c\<lparr>cg_pacer := p\<rparr>) (pc_update (cg_send_quantum c) rate now (cg_pacer c))"

definition schedule_next_packet :: "f64_ops \<Rightarrow> time \<Rightarrow> usize \<Rightarrow> 'bbr congestion \<Rightarrow> 'bbr congestion" where
  "schedule_next_packet F now packet_size c =
     (let in_initcwnd = cg_congestion_window c < cg_max_datagram_size c * cg_initial_congestion_window_packets c;
          sent_bytes = (if \<not> pc_enabled (cg_pacer c) \<or> in_initcwnd then 0 else packet_size) in
      c\<lparr>cg_pacer := pc_send F sent_bytes now (cg_pacer c)\<rparr>)"

definition cg_in_flight_sent ::
  "('f, 'bbr) cc_ops \<Rightarrow> usize \<Rightarrow> usize \<Rightarrow> time \<Rightarrow> u64 \<Rightarrow> 'bbr congestion \<Rightarrow> 'bbr congestion" where
  "cg_in_flight_sent ops bytes_in_flight sent_bytes now pkt_num c =
     (let c = c\<lparr>cg_app_limited := bytes_in_flight + sent_bytes < cg_congestion_window c\<rparr>;
          c = op_on_packet_sent ops sent_bytes bytes_in_flight now c;
          c = c\<lparr>cg_prr := prr_on_packet_sent sent_bytes (cg_prr c)\<rparr> in
      if hs_enabled (cg_hystart c) \<and> cg_congestion_window c < cg_ssthresh c
      then c\<lparr>cg_hystart := hs_start_round pkt_num (cg_hystart c)\<rparr> else c)"

definition cg_pace ::
  "f64_ops \<Rightarrow> ('f, 'bbr) cc_ops \<Rightarrow> time \<Rightarrow> rtt_stats \<Rightarrow> 'bbr congestion \<Rightarrow> 'bbr congestion option" where
  "cg_pace F ops now rtt c =
     (if \<not> op_has_custom_pacing ops \<and> rs_first_rtt_sample rtt \<noteq> None then
        let rate = f_div F (f_mul F (f_lit F 5 4) (f_of_usize F (cg_congestion_window c)))
                     (f_secs F (rs_smoothed_rtt rtt)) in
        cg_set_pacing_rate (f_to_usize F rate) now c
      else Some c)"

definition cg_on_packet_sent ::
  "f64_ops \<Rightarrow> ('f, 'bbr) cc_ops \<Rightarrow> usize \<Rightarrow> usize \<Rightarrow> time \<Rightarrow> 'f sent \<Rightarrow> rtt_stats \<Rightarrow> u64 \<Rightarrow> bool
     \<Rightarrow> 'bbr congestion \<Rightarrow> ('bbr congestion \<times> 'f sent) option" where
  "cg_on_packet_sent F ops bytes_in_flight sent_bytes now pkt rtt bytes_lost in_flight c =
     do { let c = (if in_flight then cg_in_flight_sent ops bytes_in_flight sent_bytes now (st_pkt_num pkt) c
                   else c);
          c \<leftarrow> cg_pace F ops now rtt c;
          let c = schedule_next_packet F now sent_bytes c;
          let pkt = pkt\<lparr>st_time_sent := pc_next_time (cg_pacer c)\<rparr>;
          let (r, pkt) = rate_on_packet_sent pkt bytes_in_flight bytes_lost (cg_delivery_rate c);
          Some (c\<lparr>cg_delivery_rate := r\<rparr>, pkt) }"

definition loss_epoch_statistics :: "f64_ops \<Rightarrow> time \<Rightarrow> rtt_stats \<Rightarrow> 'bbr congestion \<Rightarrow> 'bbr congestion" where
  "loss_epoch_statistics F now rtt c =
     (case cg_current_loss_epoch_start_time c of
        None \<Rightarrow> c
      | Some start_time \<Rightarrow>
          if duration_since now start_time > rtt_rtt rtt then
            let n = cg_current_loss_epoch_lost_packets_count c;
                c = (case cg_smoothed_lost_packets_per_epoch c of
                       None \<Rightarrow> c\<lparr>cg_smoothed_lost_packets_per_epoch := Some (f_of_usize F n),
                                 cg_var_lost_packets_per_epoch := f_lit F 1 1\<rparr>
                     | Some slostpackets \<Rightarrow>
                         c\<lparr>cg_var_lost_packets_per_epoch :=
                             f_add F (f_div F (f_mul F (cg_var_lost_packets_per_epoch c) (f_lit F 3 1)) (f_lit F 4 1))
                               (f_mul F (f_abs F (f_sub F slostpackets (f_of_usize F n)))
                                  (f_div F (f_lit F 1 1) (f_lit F 4 1))),
                           cg_smoothed_lost_packets_per_epoch := Some
                             (f_add F (f_mul F slostpackets (f_div F (f_lit F 7 1) (f_lit F 8 1)))
                               (f_mul F (f_of_usize F n) (f_div F (f_lit F 1 1) (f_lit F 8 1))))\<rparr>) in
            c\<lparr>cg_max_lost_packets_per_epoch :=
                Some (max (case cg_max_lost_packets_per_epoch c of Some m \<Rightarrow> m | None \<Rightarrow> 0) n),
              cg_current_loss_epoch_start_time := None, cg_current_loss_epoch_lost_packets_count := 0\<rparr>
          else c)"

definition cg_on_packets_acked ::
  "f64_ops \<Rightarrow> ('f, 'bbr) cc_ops \<Rightarrow> usize \<Rightarrow> acked list \<Rightarrow> rtt_stats \<Rightarrow> time \<Rightarrow> 'bbr congestion
     \<Rightarrow> ('bbr congestion \<times> acked list) option" where
  "cg_on_packets_acked F ops bytes_in_flight acked rtt now c =
     do { let r = fold (\<lambda>pkt. update_rate_sample pkt now) acked (cg_delivery_rate c);
          r \<leftarrow> generate_rate_sample F (mm_deref (rs_min_rtt rtt)) r;
          let c = loss_epoch_statistics F now rtt (c\<lparr>cg_delivery_rate := r\<rparr>);
          op_on_packets_acked ops bytes_in_flight acked now rtt c }"

subsection \<open>The contract of a controller\<close>

text \<open>
  What the loss recovery relies on: the state is well formed (\<open>cg_ok\<close>: no division by zero, the loss
  counter has not fallen below the one of the last checkpoint), the operations return and keep it,
  and leave the fields of the other parts alone (\<open>cg_keeps\<close>).  A controller may need room above its
  window for the packets acknowledged at a time: CUBIC compares windows as floating-point
  numbers, which represent integers exactly up to \<open>2 ^ 53\<close>.
\<close>

definition cg_ok :: "'bbr congestion \<Rightarrow> bool" where
  "cg_ok c \<longleftrightarrow> 0 < cg_congestion_window c \<and> 0 < cg_max_datagram_size c
     \<and> 0 < pc_max_datagram_size (cg_pacer c) \<and> 0 < cg_initial_congestion_window_packets c
     \<and> cp_lost_count (cb_prior (cg_cubic_state c)) \<le> cg_lost_count c"

definition cg_keeps :: "'bbr congestion \<Rightarrow> 'bbr congestion \<Rightarrow> bool" where
  "cg_keeps c c' \<longleftrightarrow> cg_delivery_rate c' = cg_delivery_rate c \<and> cg_pacer c' = cg_pacer c
     \<and> cg_max_datagram_size c' = cg_max_datagram_size c \<and> cg_lost_count c' = cg_lost_count c
     \<and> cg_initial_congestion_window_packets c' = cg_initial_congestion_window_packets c"

definition cg_view :: "'bbr congestion \<Rightarrow> usize \<times> usize \<times> cubic_state" where
  "cg_view c = (cg_congestion_window c, cg_max_datagram_size c, cg_cubic_state c)"

lemmas cg_defs = cg_ok_def cg_keeps_def cg_view_def

lemma cg_keeps_refl: "cg_keeps c c"
  by (simp add: cg_keeps_def)

lemma cg_keeps_trans: "cg_keeps a b \<Longrightarrow> cg_keeps b c \<Longrightarrow> cg_keeps a c"
  by (simp add: cg_keeps_def)

locale controller =
  fixes ops :: "('f, 'bbr) cc_ops" and room :: "nat \<Rightarrow> 'bbr congestion \<Rightarrow> bool"
  assumes init_ok: "cg_ok c \<Longrightarrow> cg_ok (op_on_init ops c) \<and> cg_keeps c (op_on_init ops c)"
    and sent_ok: "cg_ok c \<Longrightarrow> cg_ok (op_on_packet_sent ops n bif now c) \<and> cg_keeps c (op_on_packet_sent ops n bif now c)"
    and acked_ok: "cg_ok c \<Longrightarrow> room (length packets) c \<Longrightarrow>
      \<exists>c' left. op_on_packets_acked ops bif packets now rtt c = Some (c', left) \<and> cg_ok c' \<and> cg_keeps c c'"
    and event_ok: "cg_ok c \<Longrightarrow> room k c \<Longrightarrow>
      \<exists>c'. op_congestion_event ops bif lost pkt now c = Some c' \<and> cg_ok c' \<and> cg_keeps c c' \<and> room k c'"
    and checkpoint_ok: "cg_ok c \<Longrightarrow> cg_ok (op_checkpoint ops c) \<and> cg_keeps c (op_checkpoint ops c)"
    and checkpoint_room: "cg_ok c \<Longrightarrow> room k c \<Longrightarrow> room k (op_checkpoint ops c)"
    and rollback_ok: "cg_ok c \<Longrightarrow> cg_ok (snd (op_rollback ops c)) \<and> cg_keeps c (snd (op_rollback ops c))"
    and rollback_room: "cg_ok c \<Longrightarrow> room k c \<Longrightarrow> room k (snd (op_rollback ops c))"
    and room_view: "cg_view c' = cg_view c \<Longrightarrow> room k c' = room k c"
    and room_mono: "room k c \<Longrightarrow> j \<le> k \<Longrightarrow> room j c"

text \<open>The loop over the acknowledged packets, for an operation that needs room for one packet.\<close>

lemma each_acked_ok:
  assumes step: "\<And>p k c. cg_ok c \<Longrightarrow> room (Suc k) c \<Longrightarrow> \<exists>c'. f p c = Some c' \<and> cg_ok c' \<and> cg_keeps c c' \<and> room k c'"
  shows "cg_ok c \<Longrightarrow> room (length ps) c \<Longrightarrow> \<exists>c'. each_acked f ps c = Some c' \<and> cg_ok c' \<and> cg_keeps c c'"
proof (induction ps arbitrary: c)
  case Nil
  then show ?case by (simp add: cg_keeps_def)
next
  case (Cons p ps)
  from step [OF Cons.prems(1), of "length ps" p] Cons.prems(2)
  obtain c1 where c1: "f p c = Some c1" "cg_ok c1" "cg_keeps c c1" "room (length ps) c1" by auto
  from Cons.IH [OF c1(2) c1(4)] obtain c' where "each_acked f ps c1 = Some c'" "cg_ok c'" "cg_keeps c1 c'" by auto
  with c1 show ?case by (auto intro: cg_keeps_trans)
qed

lemma reno_acked_ok: "cg_ok c \<Longrightarrow> cg_ok (reno_on_packet_acked p now rtt c) \<and> cg_keeps c (reno_on_packet_acked p now rtt c)"
  by (auto simp: reno_on_packet_acked_def cg_ok_def cg_keeps_def Let_def split: prod.splits)

lemma reno_event_ok:
  assumes "cg_ok c"
  shows "\<exists>c'. reno_congestion_event F bif lost pkt now c = Some c' \<and> cg_ok c' \<and> cg_keeps c c'"
  using assms by (auto simp: reno_congestion_event_def cg_ok_def cg_keeps_def Let_def MINIMUM_WINDOW_PACKETS_def)

interpretation reno: controller "RENO F :: ('f, 'bbr) cc_ops" "\<lambda>_ _. True"
proof
  fix c :: "'bbr congestion" and packets bif now rtt
  assume "cg_ok c"
  then show "\<exists>c' left. op_on_packets_acked (RENO F :: ('f, 'bbr) cc_ops) bif packets now rtt c = Some (c', left) \<and> cg_ok c' \<and> cg_keeps c c'"
    using each_acked_ok [where room = "\<lambda>_ _. True" and f = "\<lambda>p c. Some (reno_on_packet_acked p now rtt c)" and c = c and ps = packets]
      reno_acked_ok by (fastforce simp: RENO_def reno_on_packets_acked_def)
qed (use reno_event_ok in \<open>auto simp: RENO_def cg_keeps_def\<close>)

interpretation disabled: controller "DISABLED_CC :: ('f, 'bbr) cc_ops" "\<lambda>_ _. True"
  by unfold_locales (auto simp: DISABLED_CC_def disabled_congestion_event_def cg_ok_def cg_keeps_def)

text \<open>
  CUBIC.  What it needs of floating-point numbers: integers up to \<open>2 ^ 53\<close> are exact, the conversion
  to integers is monotone, \<^verbatim>\<open>max\<close> and \<^verbatim>\<open>min\<close> are bounds (\<^verbatim>\<open>f64::max\<close> ignores a NaN), and
  multiplication by 0.7 and 1.5 moves a number down and up.
\<close>

definition F64_EXACT :: nat where "F64_EXACT = 2 ^ 53"

definition f64_ok :: "f64_ops \<Rightarrow> bool" where
  "f64_ok F \<longleftrightarrow>
     (\<forall>n \<le> F64_EXACT. f_to_usize F (f_of_usize F n) = n)
   \<and> (\<forall>x y. f_le F x y \<longrightarrow> f_to_usize F x \<le> f_to_usize F y)
   \<and> (\<forall>x n. f_le F (f_of_usize F n) (f_max F x (f_of_usize F n)))
   \<and> (\<forall>x y z. f_le F x y \<longrightarrow> f_le F x z \<longrightarrow> f_le F x (f_min F y z))
   \<and> (\<forall>n. f_le F (f_of_usize F n) (f_mul F (f_of_usize F n) (f_lit F 3 2)))
   \<and> (\<forall>n. f_le F (f_mul F (f_of_usize F n) (f_lit F 7 10)) (f_of_usize F n))"

definition cubic_room :: "nat \<Rightarrow> 'bbr congestion \<Rightarrow> bool" where
  "cubic_room k c \<longleftrightarrow>
     cg_congestion_window c + k * cg_max_datagram_size c \<le> F64_EXACT
   \<and> cp_congestion_window (cb_prior (cg_cubic_state c)) + k * cg_max_datagram_size c \<le> F64_EXACT
   \<and> cg_max_datagram_size c * MINIMUM_WINDOW_PACKETS + k * cg_max_datagram_size c \<le> F64_EXACT"

lemma f64_target:
  assumes "f64_ok F" "n \<le> F64_EXACT"
  shows "n \<le> f_to_usize F (f_min F (f_max F x (f_of_usize F n)) (f_mul F (f_of_usize F n) (f_lit F 3 2)))"
proof -
  have "f_le F (f_of_usize F n) (f_min F (f_max F x (f_of_usize F n)) (f_mul F (f_of_usize F n) (f_lit F 3 2)))"
    using assms(1) unfolding f64_ok_def by blast
  with assms show ?thesis unfolding f64_ok_def by metis
qed

lemma f64_beta: "f64_ok F \<Longrightarrow> n \<le> F64_EXACT \<Longrightarrow> f_scale F n (BETA_CUBIC F) \<le> n"
  unfolding f64_ok_def f_scale_def BETA_CUBIC_def by metis

lemma cubic_room_view: "cg_view c' = cg_view c \<Longrightarrow> cubic_room k c' = cubic_room k c"
  by (simp add: cubic_room_def cg_view_def)

lemma cubic_room_mono: "cubic_room k c \<Longrightarrow> j \<le> k \<Longrightarrow> cubic_room j c"
  using mult_le_mono1 [of j k "cg_max_datagram_size c"] unfolding cubic_room_def by linarith

lemma cubic_rollback_ok:
  assumes "cg_ok c"
  shows "cg_ok (snd (cubic_rollback c)) \<and> cg_keeps c (snd (cubic_rollback c))"
    and "cubic_room k c \<Longrightarrow> cubic_room k (snd (cubic_rollback c))"
  using assms by (auto simp: cubic_rollback_def cg_ok_def cg_keeps_def cubic_room_def Let_def)

lemma cubic_checkpoint_ok:
  assumes "cg_ok c"
  shows "cg_ok (cubic_checkpoint c) \<and> cg_keeps c (cubic_checkpoint c)"
    and "cubic_room k c \<Longrightarrow> cubic_room k (cubic_checkpoint c)"
  using assms by (auto simp: cubic_checkpoint_def cg_ok_def cg_keeps_def cubic_room_def Let_def)

lemma cubic_ss_ok:
  assumes "cg_ok c"
  shows "cg_ok (cubic_ss p now rtt c) \<and> cg_keeps c (cubic_ss p now rtt c)"
    and "cubic_room (Suc k) c \<Longrightarrow> cubic_room k (cubic_ss p now rtt c)"
  using assms by (auto simp: cubic_ss_def cg_ok_def cg_keeps_def cubic_room_def Let_def hs_css_cwnd_inc_def
      CSS_GROWTH_DIVISOR_def split: prod.splits)

lemma cubic_ca_start_view:
  "cubic_ca_start F now c = (t, c1) \<Longrightarrow> cg_congestion_window c1 = cg_congestion_window c
     \<and> cb_prior (cg_cubic_state c1) = cb_prior (cg_cubic_state c) \<and> cg_keeps c c1"
  by (auto simp: cubic_ca_start_def cubic_init_curve_def cg_keeps_def split: if_splits option.splits)

lemma cubic_cwnd_ok:
  assumes "f64_ok F" "cwnd \<le> F64_EXACT" "0 < cwnd"
  shows "\<exists>w. cubic_cwnd F t (cubic_target F t rtt cwnd mds s) cwnd mds s' = Some w"
  using f64_target [OF assms(1,2)] assms(3) by (simp add: cubic_cwnd_def cubic_target_def Let_def)

lemma cubic_w_est_prior [simp]: "cb_prior (cubic_w_est F acked cwnd mds s) = cb_prior s"
  by (simp add: cubic_w_est_def Let_def)

lemma cubic_ca_ok:
  assumes "f64_ok F" "cg_ok c" "cubic_room (Suc k) c"
  shows "\<exists>c'. cubic_ca F p now rtt c = Some c' \<and> cg_ok c' \<and> cg_keeps c c' \<and> cubic_room k c'"
proof -
  obtain t c1 where st: "cubic_ca_start F now c = (t, c1)" by (cases "cubic_ca_start F now c")
  note v = cubic_ca_start_view [OF st]
  have n: "cg_congestion_window c1 \<le> F64_EXACT" "0 < cg_congestion_window c1"
    using assms v by (simp_all add: cubic_room_def cg_ok_def)
  have ok: "cg_ok c1" "cubic_room (Suc k) c1" "cubic_room k c1"
    using assms v cubic_room_mono [of "Suc k" c k] by (auto simp: cg_ok_def cubic_room_def cg_keeps_def)
  let ?t = "duration_since now t" and ?mds = "cg_max_datagram_size c1" and ?cwnd = "cg_congestion_window c1"
  obtain w where w: "cubic_cwnd F ?t (cubic_target F ?t rtt ?cwnd ?mds (cg_cubic_state c1)) ?cwnd ?mds
      (cubic_w_est F (ak_size p) ?cwnd ?mds (cg_cubic_state c1)) = Some w"
    using cubic_cwnd_ok [OF assms(1) n] by blast
  define s where "s = (let s = cubic_w_est F (ak_size p) ?cwnd ?mds (cg_cubic_state c1) in s\<lparr>cb_cwnd_inc := cb_cwnd_inc s + (w - ?cwnd)\<rparr>)"
  define s' where "s' = s\<lparr>cb_cwnd_inc := cb_cwnd_inc s - ?mds\<rparr>"
  have e: "cubic_ca F p now rtt c = Some (if cb_cwnd_inc s \<ge> ?mds
      then c1\<lparr>cg_cubic_state := s', cg_congestion_window := ?cwnd + ?mds\<rparr> else c1\<lparr>cg_cubic_state := s\<rparr>)"
    by (simp only: cubic_ca_def st w Let_def prod.case bind.simps s_def s'_def)
  have s: "cb_prior s = cb_prior (cg_cubic_state c1)" "cb_prior s' = cb_prior (cg_cubic_state c1)"
    by (simp_all add: s_def s'_def Let_def)
  have "cg_ok (c1\<lparr>cg_cubic_state := s', cg_congestion_window := ?cwnd + ?mds\<rparr>)"
    "cg_keeps c1 (c1\<lparr>cg_cubic_state := s', cg_congestion_window := ?cwnd + ?mds\<rparr>)"
    "cubic_room k (c1\<lparr>cg_cubic_state := s', cg_congestion_window := ?cwnd + ?mds\<rparr>)"
    "cg_ok (c1\<lparr>cg_cubic_state := s\<rparr>)" "cg_keeps c1 (c1\<lparr>cg_cubic_state := s\<rparr>)" "cubic_room k (c1\<lparr>cg_cubic_state := s\<rparr>)"
    using ok s by (simp_all add: cg_ok_def cg_keeps_def cubic_room_def)
  with e v show ?thesis using cg_keeps_trans by (cases "cb_cwnd_inc s \<ge> ?mds") auto
qed

lemma cubic_spurious_ok:
  assumes "cg_ok c"
  shows "\<exists>b c1. cubic_spurious c = Some (b, c1) \<and> cg_ok c1 \<and> cg_keeps c c1 \<and> (\<forall>k. cubic_room k c \<longrightarrow> cubic_room k c1)"
proof -
  have "cubic_spurious c = Some (cubic_rollback c) \<or> cubic_spurious c = Some (False, c)"
    using assms by (simp add: cubic_spurious_def cg_ok_def Let_def)
  then show ?thesis
    using cubic_rollback_ok [OF assms] assms cg_keeps_refl [of c] by (cases "cubic_rollback c") auto
qed

lemma cubic_acked_ok:
  assumes "f64_ok F" "cg_ok c" "cubic_room (Suc k) c"
  shows "\<exists>c'. cubic_on_packet_acked F bif now rtt p c = Some c' \<and> cg_ok c' \<and> cg_keeps c c' \<and> cubic_room k c'"
proof -
  have k: "cubic_room k c" using assms(3) by (rule cubic_room_mono) simp
  obtain b c1 where c1: "cubic_spurious c = Some (b, c1)" "cg_ok c1" "cg_keeps c c1" "cubic_room (Suc k) c1" "cubic_room k c1"
    using cubic_spurious_ok [OF assms(2)] assms(3) k by blast
  have grown: "\<exists>c'. (if cg_congestion_window c1 < cg_ssthresh c1 then Some (cubic_ss p now rtt c1) else cubic_ca F p now rtt c1)
      = Some c' \<and> cg_ok c' \<and> cg_keeps c c' \<and> cubic_room k c'"
  proof (cases "cg_congestion_window c1 < cg_ssthresh c1")
    case True
    then show ?thesis using cubic_ss_ok(1) [OF c1(2), of p now rtt] cubic_ss_ok(2) [OF c1(2,4), of p now rtt]
        cg_keeps_trans [OF c1(3)] by simp
  next
    case False
    then show ?thesis using cubic_ca_ok [OF assms(1) c1(2,4), of p now rtt] cg_keeps_trans [OF c1(3)] by auto
  qed
  have prr: "cg_ok (c\<lparr>cg_prr := x\<rparr>) \<and> cg_keeps c (c\<lparr>cg_prr := x\<rparr>) \<and> cubic_room k (c\<lparr>cg_prr := x\<rparr>)" for x
    using assms(2) k by (simp add: cg_ok_def cg_keeps_def cubic_room_def)
  show ?thesis using grown prr c1 k assms(2) cg_keeps_refl [of c]
    unfolding cubic_on_packet_acked_def by simp
qed

lemmas cg_if = if_distrib [of cg_congestion_window] if_distrib [of cg_cubic_state] if_distrib [of cg_delivery_rate]
  if_distrib [of cg_pacer] if_distrib [of cg_max_datagram_size] if_distrib [of cg_lost_count]
  if_distrib [of cg_initial_congestion_window_packets] if_distrib [of cg_ssthresh]
  if_distrib [of cg_congestion_recovery_start_time]

lemma cubic_event_window:
  assumes "cubic_congestion_event F bif lost pkt now c = Some c'"
  shows "cg_congestion_window c' = (if in_congestion_recovery (st_time_sent pkt) c then cg_congestion_window c
    else max (f_scale F (cg_congestion_window c) (BETA_CUBIC F)) (cg_max_datagram_size c * MINIMUM_WINDOW_PACKETS))"
proof (cases "in_congestion_recovery (st_time_sent pkt) c")
  case True
  with assms show ?thesis by (simp add: cubic_congestion_event_def)
next
  case False
  have "cg_congestion_window c' = cg_congestion_window (the (cubic_congestion_event F bif lost pkt now c))"
    using assms by simp
  also have "\<dots> = max (f_scale F (cg_congestion_window c) (BETA_CUBIC F)) (cg_max_datagram_size c * MINIMUM_WINDOW_PACKETS)"
    by (simp add: cubic_congestion_event_def False Let_def cg_if)
  finally show ?thesis using False by simp
qed

lemma cubic_event_ok:
  assumes "f64_ok F" "cg_ok c" "cubic_room k c"
  shows "\<exists>c'. cubic_congestion_event F bif lost pkt now c = Some c' \<and> cg_ok c' \<and> cg_keeps c c' \<and> cubic_room k c'"
proof -
  have n: "cg_congestion_window c \<le> F64_EXACT" using assms(3) by (auto simp: cubic_room_def)
  then have b: "f_scale F (cg_congestion_window c) (BETA_CUBIC F) \<le> cg_congestion_window c" by (rule f64_beta [OF assms(1)])
  obtain c' where c': "cubic_congestion_event F bif lost pkt now c = Some c'" by (simp add: cubic_congestion_event_def)
  have prior: "cb_prior (cg_cubic_state c') = cb_prior (cg_cubic_state c)" and keeps: "cg_keeps c c'"
    using c' by (auto simp: cubic_congestion_event_def Let_def cg_keeps_def cg_if)
  have "cg_congestion_window c' = cg_congestion_window c \<or>
      cg_congestion_window c' = max (f_scale F (cg_congestion_window c) (BETA_CUBIC F)) (cg_max_datagram_size c * MINIMUM_WINDOW_PACKETS)"
    using cubic_event_window [OF c'] by (simp split: if_splits)
  with b assms(2) have w: "0 < cg_congestion_window c'"
    "cg_congestion_window c' \<le> cg_congestion_window c \<or> cg_congestion_window c' \<le> cg_max_datagram_size c * MINIMUM_WINDOW_PACKETS"
    by (auto simp: cg_ok_def MINIMUM_WINDOW_PACKETS_def)
  have "cg_ok c'" using assms(2) w(1) prior keeps by (simp add: cg_ok_def cg_keeps_def)
  moreover have "cubic_room k c'"
    using w(2) assms(3) prior keeps by (elim disjE) (simp_all add: cubic_room_def cg_keeps_def)
  ultimately show ?thesis using c' keeps by blast
qed

lemma cubic_controller:
  assumes "f64_ok F"
  shows "controller (CUBIC F :: ('f, 'bbr) cc_ops) cubic_room"
proof
  fix c :: "'bbr congestion" and packets :: "acked list" and bif now rtt
  assume "cg_ok c" "cubic_room (length packets) c"
  then have "\<exists>c'. each_acked (cubic_on_packet_acked F bif now rtt) packets c = Some c' \<and> cg_ok c' \<and> cg_keeps c c'"
    by (rule each_acked_ok [where room = cubic_room and f = "cubic_on_packet_acked F bif now rtt", rotated])
      (rule cubic_acked_ok [OF assms])
  then show "\<exists>c' left. op_on_packets_acked (CUBIC F :: ('f, 'bbr) cc_ops) bif packets now rtt c = Some (c', left) \<and> cg_ok c' \<and> cg_keeps c c'"
    by (auto simp: CUBIC_def cubic_on_packets_acked_def)
next
  fix c :: "'bbr congestion" and n bif now
  assume "cg_ok c"
  then show "cg_ok (op_on_packet_sent (CUBIC F :: ('f, 'bbr) cc_ops) n bif now c) \<and> cg_keeps c (op_on_packet_sent (CUBIC F :: ('f, 'bbr) cc_ops) n bif now c)"
    by (auto simp: CUBIC_def cubic_on_packet_sent_def cg_ok_def cg_keeps_def Let_def split: option.splits)
qed (simp_all add: CUBIC_def cubic_event_ok [OF assms] cubic_rollback_ok cubic_checkpoint_ok cg_keeps_refl,
  (erule cubic_room_view | erule (1) cubic_room_mono)+)

subsection \<open>The structure over a controller\<close>

definition rate_ok :: "rate \<Rightarrow> bool" where
  "rate_ok r \<longleftrightarrow> sm_prior_delivered (rt_rate_sample r) \<le> rt_delivered r"

lemma update_rate_sample_ok:
  "rate_ok r \<Longrightarrow> ak_delivered p \<le> rt_delivered r \<Longrightarrow>
     rate_ok (update_rate_sample p now r) \<and> rt_delivered (update_rate_sample p now r) = rt_delivered r + ak_size p"
  by (auto simp: rate_ok_def update_rate_sample_def Let_def)

lemma update_rate_samples_ok:
  "rate_ok r \<Longrightarrow> \<forall>a \<in> set ps. ak_delivered a \<le> rt_delivered r \<Longrightarrow>
     rate_ok (fold (\<lambda>p. update_rate_sample p now) ps r)
   \<and> rt_delivered (fold (\<lambda>p. update_rate_sample p now) ps r) = rt_delivered r + sum_list (map ak_size ps)"
proof (induction ps arbitrary: r)
  case (Cons p ps)
  note s = update_rate_sample_ok [OF Cons.prems(1), of p now]
  have "\<forall>a \<in> set ps. ak_delivered a \<le> rt_delivered (update_rate_sample p now r)"
    using s Cons.prems(2) by fastforce
  from Cons.IH [OF _ this] s Cons.prems(2) show ?case by simp
qed simp

lemma rate_update_app_limited_same [simp]:
  "rt_delivered (rate_update_app_limited v r) = rt_delivered r"
  "rt_rate_sample (rate_update_app_limited v r) = rt_rate_sample r"
  by (simp_all add: rate_update_app_limited_def)

lemma generate_rate_sample_ok:
  assumes "rate_ok r"
  shows "\<exists>r'. generate_rate_sample F m r = Some r' \<and> rate_ok r' \<and> rt_delivered r' = rt_delivered r"
  using assms by (auto simp: generate_rate_sample_def rate_ok_def Let_def)

lemma pc_reset_mds [simp]: "pc_max_datagram_size (pc_reset now p) = pc_max_datagram_size p"
  by (simp add: pc_reset_def)

lemma pc_send_mds [simp]: "pc_max_datagram_size (pc_send F n now p) = pc_max_datagram_size p"
  by (simp add: pc_send_def Let_def)

lemma pc_update_mds:
  "0 < pc_max_datagram_size p \<Longrightarrow> \<exists>p'. pc_update capacity r now p = Some p' \<and> pc_max_datagram_size p' = pc_max_datagram_size p"
  by (simp add: pc_update_def Let_def)

text \<open>What a packet keeps from its construction to its place in the list of sent packets.\<close>

definition sent_same :: "'f sent \<Rightarrow> 'f sent \<Rightarrow> bool" where
  "sent_same p q \<longleftrightarrow> st_pkt_num q = st_pkt_num p \<and> st_frames q = st_frames p \<and> st_time_acked q = st_time_acked p
     \<and> st_time_lost q = st_time_lost p \<and> st_size q = st_size p \<and> st_ack_eliciting q = st_ack_eliciting p
     \<and> st_in_flight q = st_in_flight p \<and> st_has_data q = st_has_data p \<and> st_pmtud q = st_pmtud p"

lemma loss_epoch_statistics_same:
  "cg_view (loss_epoch_statistics F now rtt c) = cg_view c \<and> cg_keeps c (loss_epoch_statistics F now rtt c)"
  by (auto simp: loss_epoch_statistics_def cg_view_def cg_keeps_def Let_def split: option.splits)

context controller
begin

lemma from_config_ok:
  assumes "0 < rf_max_send_udp_payload_size cf" "0 < rf_initial_congestion_window_packets cf"
  shows "\<exists>c. cg_from_config F ops bbr now cf = Some c \<and> cg_ok c \<and> rate_ok (cg_delivery_rate c)
    \<and> cg_max_datagram_size c = rf_max_send_udp_payload_size cf"
proof -
  obtain c where c: "cg_from_config F ops bbr now cf = Some (op_on_init ops c)" "cg_ok c"
    "cg_delivery_rate c = rate_default now" "cg_max_datagram_size c = rf_max_send_udp_payload_size cf"
    using assms by (simp add: cg_from_config_def pc_new_def cg_ok_def cubic_state_default_def Let_def)
  then show ?thesis using init_ok [of c] by (simp add: cg_keeps_def rate_ok_def rate_default_def)
qed

lemma in_flight_sent_ok:
  assumes "cg_ok c"
  shows "cg_ok (cg_in_flight_sent ops bif n now pn c) \<and> cg_keeps c (cg_in_flight_sent ops bif n now pn c)"
proof -
  let ?c = "c\<lparr>cg_app_limited := bif + n < cg_congestion_window c\<rparr>"
  have "cg_ok ?c" using assms by (simp add: cg_ok_def)
  from sent_ok [OF this, of n bif now] assms show ?thesis
    by (auto simp: cg_in_flight_sent_def cg_ok_def cg_keeps_def Let_def)
qed

lemma pace_ok:
  assumes "cg_ok c"
  shows "\<exists>c'. cg_pace F ops now rtt c = Some c' \<and> cg_ok c' \<and> cg_delivery_rate c' = cg_delivery_rate c
    \<and> cg_lost_count c' = cg_lost_count c \<and> cg_max_datagram_size c' = cg_max_datagram_size c"
proof (cases "\<not> op_has_custom_pacing ops \<and> rs_first_rtt_sample rtt \<noteq> None")
  case True
  let ?rate = "f_to_usize F (f_div F (f_mul F (f_lit F 5 4) (f_of_usize F (cg_congestion_window c))) (f_secs F (rs_smoothed_rtt rtt)))"
  obtain p' where "pc_update (cg_send_quantum c) ?rate now (cg_pacer c) = Some p'"
      "pc_max_datagram_size p' = pc_max_datagram_size (cg_pacer c)"
    using assms pc_update_mds [of "cg_pacer c"] unfolding cg_ok_def by blast
  then show ?thesis using True assms by (simp add: cg_pace_def cg_set_pacing_rate_def cg_ok_def Let_def)
next
  case False
  then show ?thesis using assms by (simp only: cg_pace_def if_False) simp
qed

lemma packet_sent_ok:
  assumes "cg_ok c"
  shows "\<exists>c' pkt'. cg_on_packet_sent F ops bif n now pkt rtt lost in_flight c = Some (c', pkt') \<and> cg_ok c'
    \<and> rt_delivered (cg_delivery_rate c') = rt_delivered (cg_delivery_rate c)
    \<and> rt_rate_sample (cg_delivery_rate c') = rt_rate_sample (cg_delivery_rate c)
    \<and> cg_lost_count c' = cg_lost_count c \<and> cg_max_datagram_size c' = cg_max_datagram_size c
    \<and> sent_same pkt pkt' \<and> st_delivered pkt' = rt_delivered (cg_delivery_rate c)"
proof -
  define c1 where "c1 = (if in_flight then cg_in_flight_sent ops bif n now (st_pkt_num pkt) c else c)"
  have c1: "cg_ok c1" "cg_keeps c c1"
    using in_flight_sent_ok [OF assms] assms by (auto simp: c1_def cg_keeps_refl)
  obtain c2 where c2: "cg_pace F ops now rtt c1 = Some c2" "cg_ok c2" "cg_delivery_rate c2 = cg_delivery_rate c1"
    "cg_lost_count c2 = cg_lost_count c1" "cg_max_datagram_size c2 = cg_max_datagram_size c1"
    using pace_ok [OF c1(1)] by blast
  show ?thesis using c1 c2
    by (simp add: cg_on_packet_sent_def c1_def [symmetric] schedule_next_packet_def rate_on_packet_sent_def
        cg_ok_def cg_keeps_def sent_same_def Let_def)
qed

lemma packets_acked_ok:
  assumes "cg_ok c" "room (length acked) c" "rate_ok (cg_delivery_rate c)"
    and "\<forall>a \<in> set acked. ak_delivered a \<le> rt_delivered (cg_delivery_rate c)"
  shows "\<exists>c' left. cg_on_packets_acked F ops bif acked rtt now c = Some (c', left) \<and> cg_ok c'
    \<and> rate_ok (cg_delivery_rate c') \<and> cg_lost_count c' = cg_lost_count c \<and> cg_max_datagram_size c' = cg_max_datagram_size c
    \<and> rt_delivered (cg_delivery_rate c') = rt_delivered (cg_delivery_rate c) + sum_list (map ak_size acked)"
proof -
  let ?r = "fold (\<lambda>p. update_rate_sample p now) acked (cg_delivery_rate c)"
  note r = update_rate_samples_ok [OF assms(3,4), of now]
  obtain r' where r': "generate_rate_sample F (mm_deref (rs_min_rtt rtt)) ?r = Some r'" "rate_ok r'"
      "rt_delivered r' = rt_delivered ?r"
    using generate_rate_sample_ok r by blast
  let ?c = "c\<lparr>cg_delivery_rate := r'\<rparr>" and ?d = "loss_epoch_statistics F now rtt (c\<lparr>cg_delivery_rate := r'\<rparr>)"
  note s = loss_epoch_statistics_same [of F now rtt ?c]
  have d: "cg_ok ?d" using assms(1) s by (simp add: cg_ok_def cg_keeps_def cg_view_def)
  have "cg_view ?d = cg_view c" using s by (simp add: cg_view_def)
  then have "room (length acked) ?d" using assms(2) room_view by blast
  from acked_ok [OF d this] obtain c' left where "op_on_packets_acked ops bif acked now rtt ?d = Some (c', left)"
    "cg_ok c'" "cg_keeps ?d c'" by blast
  then show ?thesis using r r' s by (simp add: cg_on_packets_acked_def cg_keeps_def)
qed

end

text \<open>
  C121: After Reno or CUBIC has reacted to a loss, the loss of any packet sent up to then leaves the
  controller unchanged: the window is reduced once per round trip.
\<close>
theorem one_reduction_per_round:
  assumes "\<not> in_congestion_recovery (st_time_sent pkt) c" "st_time_sent pkt' \<le> now"
    and "congestion_event = reno_congestion_event F \<or> congestion_event = cubic_congestion_event F"
  shows "\<exists>c'. congestion_event bif lost pkt now c = Some c'
    \<and> cg_congestion_window c' \<ge> cg_max_datagram_size c * MINIMUM_WINDOW_PACKETS
    \<and> cg_ssthresh c' = cg_congestion_window c'
    \<and> congestion_event bif' lost' pkt' now' c' = Some c'"
  using assms(3)
proof
  assume "congestion_event = reno_congestion_event F"
  with assms(1,2) show ?thesis by (simp add: reno_congestion_event_def in_congestion_recovery_def Let_def)
next
  assume e: "congestion_event = cubic_congestion_event F"
  obtain c' where c': "cubic_congestion_event F bif lost pkt now c = Some c'" by (simp add: cubic_congestion_event_def)
  have "cg_congestion_recovery_start_time (the (cubic_congestion_event F bif lost pkt now c)) = Some now"
    "cg_ssthresh (the (cubic_congestion_event F bif lost pkt now c))
       = cg_congestion_window (the (cubic_congestion_event F bif lost pkt now c))"
    using assms(1) by (simp_all add: cubic_congestion_event_def Let_def cg_if)
  then have "in_congestion_recovery (st_time_sent pkt') c'" "cg_ssthresh c' = cg_congestion_window c'"
    using c' assms(2) by (simp_all add: in_congestion_recovery_def)
  then show ?thesis using cubic_event_window [OF c'] assms(1) c' by (simp add: e cubic_congestion_event_def)
qed

text \<open>
  A concrete arithmetic with the facts \<open>f64_ok\<close> asks for (numbers truncated to integers), and a
  controller in its initial state.
\<close>

definition truncated_f64 :: f64_ops where
  "truncated_f64 = \<lparr>f_lit = (\<lambda>a b. of_nat (a div b)), f_of_usize = of_nat, f_to_usize = unat, f_add = (+), f_sub = (-),
     f_mul = (*), f_div = (\<lambda>a b. of_nat (unat a div unat b)), f_max = max, f_min = min, f_abs = (\<lambda>x. x), f_cbrt = (\<lambda>x. x),
     f_powi = (^), f_less = (<), f_le = (\<le>), f_eq = (=), f_secs = (\<lambda>d. of_nat (d div 1000000000)),
     f_duration = (\<lambda>x. unat x * 1000000000)\<rparr>"

lemma truncated_f64_ok: "f64_ok truncated_f64"
proof -
  have "unat (of_nat n :: 64 word) = n" if "n \<le> F64_EXACT" for n
    using that by (simp add: F64_EXACT_def unat_of_nat)
  then show ?thesis by (simp add: f64_ok_def truncated_f64_def word_le_nat_alt [symmetric])
qed

definition example_config :: recovery_config where
  "example_config = \<lparr>rf_max_send_udp_payload_size = 1200, rf_max_ack_delay = 0, rf_cc_algorithm = CC_CUBIC,
     rf_hystart = True, rf_pacing = False, rf_max_pacing_rate = None,
     rf_initial_congestion_window_packets = 10, rf_real_time = False\<rparr>"

definition example_congestion :: "unit congestion" where
  "example_congestion = the (cg_from_config truncated_f64 (RENO truncated_f64 :: (unit, unit) cc_ops) () 0 example_config)"

definition example_sent :: "u64 \<Rightarrow> 'f sent" where
  "example_sent n = \<lparr>st_pkt_num = n, st_frames = [], st_time_sent = int n, st_time_acked = None, st_time_lost = None,
     st_size = 1200, st_ack_eliciting = True, st_in_flight = True, st_delivered = 0, st_delivered_time = 0,
     st_first_sent_time = 0, st_is_app_limited = False, st_tx_in_flight = 0, st_lost = 0, st_has_data = True, st_pmtud = False\<rparr>"

lemma example_congestion_recovery [simp]: "cg_congestion_recovery_start_time example_congestion = None"
  by (simp add: example_congestion_def cg_from_config_def example_config_def pc_new_def RENO_def Let_def)

theorem one_reduction_per_round_witness:
  "\<exists>c'. cubic_congestion_event truncated_f64 2400 1200 (example_sent 1 :: unit sent) 9 example_congestion = Some c'
     \<and> cg_congestion_window c' \<ge> cg_max_datagram_size example_congestion * MINIMUM_WINDOW_PACKETS
     \<and> cg_ssthresh c' = cg_congestion_window c'
     \<and> cubic_congestion_event truncated_f64 1200 1200 (example_sent 2 :: unit sent) 10 c' = Some c'"
  by (rule one_reduction_per_round [where F = truncated_f64])
    (simp_all add: in_congestion_recovery_def example_sent_def)

end
