(* ===== verification/Recovery.thy ===== *)
theory Recovery
  imports Congestion Frame Packet
begin

text \<open>
  Loss detection and recovery: \<^verbatim>\<open>quiche/src/recovery/mod.rs\<close>.

  \<open>repoch\<close> is \<^verbatim>\<open>RecoveryEpoch\<close>, the sent packets of one packet number space, and \<open>recovery\<close> is
  \<^verbatim>\<open>Recovery\<close>; the array of epochs is a function.  \<open>None\<close> is a panic: a subtraction below zero, a
  division by zero, an overflow of the \<^verbatim>\<open>u32\<close> backoff factor or an unwrapped \<^verbatim>\<open>None\<close>.  Sums of byte counts
  and of durations do not overflow, and an instant has no lower end.

  The floating-point operations \<open>F\<close>, the division \<open>div_f32\<close> of the minimum filter, the controller \<open>ops\<close>
  and \<open>to_u64\<close>, \<^verbatim>\<open>networkcoding::source_symbol_metadata_to_u64\<close>, are arguments.
\<close>

subsection \<open>Constants and data\<close>

definition INITIAL_PACKET_THRESHOLD :: u64 where "INITIAL_PACKET_THRESHOLD = 3"

definition MAX_PACKET_THRESHOLD :: u64 where "MAX_PACKET_THRESHOLD = 20"

definition INITIAL_TIME_THRESHOLD :: "f64_ops \<Rightarrow> f64" where
  "INITIAL_TIME_THRESHOLD F = f_div F (f_lit F 9 1) (f_lit F 8 1)"

definition GRANULARITY :: duration where "GRANULARITY = 1000000"

definition MAX_PTO_PROBES_COUNT :: usize where "MAX_PTO_PROBES_COUNT = 2"

definition MAX_OUTSTANDING_NON_ACK_ELICITING :: usize where "MAX_OUTSTANDING_NON_ACK_ELICITING = 24"

datatype 'f lost_frame = Lost 'f | LostAndRecovered 'f

record handshake_status =
  hk_has_handshake_keys :: bool
  hk_peer_verified_address :: bool
  hk_completed :: bool

record 'f repoch =
  re_time_of_last_ack_eliciting_packet :: "time option"
  re_largest_acked_packet :: "u64 option"
  re_loss_time :: "time option"
  re_sent_packets :: "'f sent list"
  re_loss_probes :: usize
  re_in_flight_count :: usize
  re_acked_frames :: "'f list"
  re_lost_frames :: "'f lost_frame list"

definition repoch_default :: "'f repoch" where
  "repoch_default =
     \<lparr>re_time_of_last_ack_eliciting_packet = None, re_largest_acked_packet = None, re_loss_time = None,
      re_sent_packets = [], re_loss_probes = 0, re_in_flight_count = 0, re_acked_frames = [], re_lost_frames = []\<rparr>"

record acked_detection =
  ad_acked_bytes :: usize
  ad_spurious_losses :: usize
  ad_spurious_pkt_thresh :: "u64 option"
  ad_has_ack_eliciting :: bool
  ad_has_in_flight_spurious_loss :: bool

record 'f loss_detection =
  ld_largest_lost_pkt :: "'f sent option"
  ld_lost_packets :: usize
  ld_lost_bytes :: usize
  ld_pmtud_lost_bytes :: usize

subsection \<open>Acknowledged packets\<close>

definition drain_acked_and_lost_packets :: "time \<Rightarrow> 'f repoch \<Rightarrow> 'f repoch" where
  "drain_acked_and_lost_packets loss_thresh e =
     e\<lparr>re_sent_packets := dropWhile (\<lambda>pkt.
         (case st_time_lost pkt of Some time_lost \<Rightarrow> \<not> time_lost > loss_thresh | None \<Rightarrow> True)
       \<and> \<not> (st_time_acked pkt = None \<and> st_time_lost pkt = None)) (re_sent_packets e)\<rparr>"

text \<open>
  The state of the loop over the acknowledged packets: the epoch, the newly acknowledged packets
  and the result.  \<open>ack_packet\<close> is its body and returns the updated packet; the position found by
  \<^verbatim>\<open>binary_search_by_key\<close> in the sorted list is that of the first packet not below the key.
\<close>

definition acked_of :: "time \<Rightarrow> 'f sent \<Rightarrow> acked" where
  "acked_of now p =
     \<lparr>ak_pkt_num = st_pkt_num p, ak_time_sent = st_time_sent p, ak_size = st_size p,
      ak_rtt = duration_since now (st_time_sent p), ak_delivered = st_delivered p,
      ak_delivered_time = st_delivered_time p, ak_first_sent_time = st_first_sent_time p,
      ak_is_app_limited = st_is_app_limited p\<rparr>"

definition ack_packet ::
  "time \<Rightarrow> u64 \<Rightarrow> 'f sent \<Rightarrow> 'f repoch \<times> acked list \<times> acked_detection
     \<Rightarrow> ('f sent \<times> 'f repoch \<times> acked list \<times> acked_detection) option" where
  "ack_packet now largest_acked p = (\<lambda>(e, newly_acked, d).
     if st_time_acked p \<noteq> None then Some (p, e, newly_acked, d)
     else if st_time_lost p \<noteq> None then
       do { diff \<leftarrow> usize_sub largest_acked (st_pkt_num p);
            let d = d\<lparr>ad_spurious_losses := ad_spurious_losses d + 1,
                      ad_spurious_pkt_thresh :=
                        (case ad_spurious_pkt_thresh d of None \<Rightarrow> Some (diff + 1) | Some t \<Rightarrow> Some t),
                      ad_has_in_flight_spurious_loss := ad_has_in_flight_spurious_loss d \<or> st_in_flight p\<rparr>;
            Some (p\<lparr>st_time_acked := Some now\<rparr>, e, newly_acked, d) }
     else
       do { (count, bytes) \<leftarrow>
              (if st_in_flight p
               then do { n \<leftarrow> usize_sub (re_in_flight_count e) 1; Some (n, ad_acked_bytes d + st_size p) }
               else Some (re_in_flight_count e, ad_acked_bytes d));
            Some (p\<lparr>st_frames := [], st_time_acked := Some now\<rparr>,
                  e\<lparr>re_in_flight_count := count, re_acked_frames := re_acked_frames e @ st_frames p\<rparr>,
                  newly_acked @ [acked_of now p],
                  d\<lparr>ad_acked_bytes := bytes,
                    ad_has_ack_eliciting := ad_has_ack_eliciting d \<or> st_ack_eliciting p\<rparr>) })"

fun ack_packets ::
  "time \<Rightarrow> u64 \<Rightarrow> u64 \<Rightarrow> 'f sent list \<Rightarrow> 'f repoch \<times> acked list \<times> acked_detection
     \<Rightarrow> ('f sent list \<times> 'f repoch \<times> acked list \<times> acked_detection) option" where
  "ack_packets now largest_acked ack_end [] s = Some ([], s)"
| "ack_packets now largest_acked ack_end (p # ps) s =
     (if st_pkt_num p \<ge> ack_end then Some (p # ps, s)
      else do { (p, s) \<leftarrow> ack_packet now largest_acked p s;
                (ps, s) \<leftarrow> ack_packets now largest_acked ack_end ps s;
                Some (p # ps, s) })"

definition ack_start :: "u64 \<Rightarrow> 'f sent list \<Rightarrow> usize" where
  "ack_start start ps =
     (if (case ps of p # _ \<Rightarrow> st_pkt_num p \<ge> start | [] \<Rightarrow> False) then 0
      else length (takeWhile (\<lambda>p. st_pkt_num p < start) ps))"

fun ack_ranges ::
  "time \<Rightarrow> u64 \<Rightarrow> range list \<Rightarrow> 'f repoch \<times> acked list \<times> acked_detection
     \<Rightarrow> ('f repoch \<times> acked list \<times> acked_detection) option" where
  "ack_ranges now largest_acked [] s = Some s"
| "ack_ranges now largest_acked ((ack_start', ack_end) # rs) s =
     do { let ps = re_sent_packets (fst s);
          let start = ack_start ack_start' ps;
          (ps', s) \<leftarrow> ack_packets now largest_acked ack_end (drop start ps) s;
          ack_ranges now largest_acked rs ((fst s)\<lparr>re_sent_packets := take start ps @ ps'\<rparr>, snd s) }"

definition detect_and_remove_acked_packets ::
  "time \<Rightarrow> range_set \<Rightarrow> rtt_stats \<Rightarrow> 'f repoch \<Rightarrow> ('f repoch \<times> acked list \<times> acked_detection) option" where
  "detect_and_remove_acked_packets now acked rtt e =
     do { largest_acked \<leftarrow> re_largest_acked_packet e;
          (e, newly_acked, d) \<leftarrow> ack_ranges now largest_acked (rs_iter acked)
            (e, [], \<lparr>ad_acked_bytes = 0, ad_spurious_losses = 0, ad_spurious_pkt_thresh = None,
                     ad_has_ack_eliciting = False, ad_has_in_flight_spurious_loss = False\<rparr>);
          Some (drain_acked_and_lost_packets (now - int (rtt_rtt rtt)) e, newly_acked, d) }"

subsection \<open>Lost packets\<close>

fun frame_recovered :: "('rep, 'src, 'meta) frame \<Rightarrow> bool" where
  "frame_recovered (SourceSymbolHeader _ recovered) = recovered"
| "frame_recovered _ = False"

fun lost_frames_of ::
  "bool \<Rightarrow> ('rep, 'src, 'meta) frame list \<Rightarrow> ('rep, 'src, 'meta) frame lost_frame list" where
  "lost_frames_of contains_recovered [] = []"
| "lost_frames_of contains_recovered (f # fs) =
     (let contains_recovered = contains_recovered \<or> frame_recovered f in
      (if contains_recovered then LostAndRecovered f else Lost f) # lost_frames_of contains_recovered fs)"

type_synonym ('rep, 'src, 'meta) fsent = "('rep, 'src, 'meta) frame sent"

type_synonym ('rep, 'src, 'meta) fepoch = "('rep, 'src, 'meta) frame repoch"

type_synonym ('rep, 'src, 'meta) floss = "('rep, 'src, 'meta) frame loss_detection"

definition lose_packet ::
  "time \<Rightarrow> ('rep, 'src, 'meta) fsent \<Rightarrow> ('rep, 'src, 'meta) fepoch \<times> ('rep, 'src, 'meta) floss
     \<Rightarrow> (('rep, 'src, 'meta) fsent \<times> ('rep, 'src, 'meta) fepoch \<times> ('rep, 'src, 'meta) floss) option" where
  "lose_packet now p = (\<lambda>(e, l).
     let e = e\<lparr>re_lost_frames := re_lost_frames e @ lost_frames_of False (st_frames p)\<rparr>;
         p = p\<lparr>st_frames := [], st_time_lost := Some now\<rparr> in
     if st_pmtud p then
       do { n \<leftarrow> usize_sub (re_in_flight_count e) 1;
            Some (p, e\<lparr>re_in_flight_count := n\<rparr>,
                  l\<lparr>ld_pmtud_lost_bytes := ld_pmtud_lost_bytes l + st_size p\<rparr>) }
     else if st_in_flight p then
       do { n \<leftarrow> usize_sub (re_in_flight_count e) 1;
            Some (p, e\<lparr>re_in_flight_count := n\<rparr>,
                  l\<lparr>ld_lost_bytes := ld_lost_bytes l + st_size p, ld_largest_lost_pkt := Some p,
                    ld_lost_packets := ld_lost_packets l + 1\<rparr>) }
     else Some (p, e, l\<lparr>ld_lost_packets := ld_lost_packets l + 1\<rparr>))"

fun lose_packets ::
  "duration \<Rightarrow> u64 \<Rightarrow> u64 \<Rightarrow> time \<Rightarrow> ('rep, 'src, 'meta) fsent list
     \<Rightarrow> ('rep, 'src, 'meta) fepoch \<times> ('rep, 'src, 'meta) floss
     \<Rightarrow> (('rep, 'src, 'meta) fsent list \<times> ('rep, 'src, 'meta) fepoch \<times> ('rep, 'src, 'meta) floss) option" where
  "lose_packets loss_delay pkt_thresh largest_acked now [] s = Some ([], s)"
| "lose_packets loss_delay pkt_thresh largest_acked now (p # ps) s =
     (if \<not> st_pkt_num p \<le> largest_acked then Some (p # ps, s)
      else if \<not> (st_time_acked p = None \<and> st_time_lost p = None) then
        do { (ps, s) \<leftarrow> lose_packets loss_delay pkt_thresh largest_acked now ps s; Some (p # ps, s) }
      else if st_time_sent p \<le> now - int loss_delay \<or> largest_acked \<ge> st_pkt_num p + pkt_thresh then
        do { (p, s) \<leftarrow> lose_packet now p s;
             (ps, s) \<leftarrow> lose_packets loss_delay pkt_thresh largest_acked now ps s;
             Some (p # ps, s) }
      else
        let t = st_time_sent p + int loss_delay;
            loss_time = (case re_loss_time (fst s) of None \<Rightarrow> t | Some loss_time \<Rightarrow> min loss_time t) in
        Some (p # ps, (fst s)\<lparr>re_loss_time := Some loss_time\<rparr>, snd s))"

definition epoch_detect_lost_packets ::
  "duration \<Rightarrow> u64 \<Rightarrow> time \<Rightarrow> ('rep, 'src, 'meta) fepoch
     \<Rightarrow> (('rep, 'src, 'meta) fepoch \<times> ('rep, 'src, 'meta) floss) option" where
  "epoch_detect_lost_packets loss_delay pkt_thresh now e =
     (let e = e\<lparr>re_loss_time := None\<rparr>;
          loss_delay = max loss_delay GRANULARITY;
          largest_acked = (case re_largest_acked_packet e of Some n \<Rightarrow> n | None \<Rightarrow> 0) in
      do { (ps, e, l) \<leftarrow> lose_packets loss_delay pkt_thresh largest_acked now (re_sent_packets e)
             (e, \<lparr>ld_largest_lost_pkt = None, ld_lost_packets = 0, ld_lost_bytes = 0, ld_pmtud_lost_bytes = 0\<rparr>);
           Some (e\<lparr>re_sent_packets := ps\<rparr>, l) })"

subsection \<open>The recovery state\<close>

record ('rep, 'src, 'meta, 'bbr) recovery =
  rc_epochs :: "epoch \<Rightarrow> ('rep, 'src, 'meta) fepoch"
  rc_loss_timer :: "time option"
  rc_pto_count :: nat
  rc_rtt_stats :: rtt_stats
  rc_lost_spurious_count :: usize
  rc_pkt_thresh :: u64
  rc_time_thresh :: f64
  rc_bytes_in_flight :: usize
  rc_bytes_sent :: usize
  rc_bytes_lost :: u64
  rc_max_datagram_size :: usize
  rc_outstanding_non_ack_eliciting :: usize
  rc_congestion :: "'bbr congestion"
  rc_newly_acked :: "acked list"

type_synonym ('rep, 'src, 'meta, 'bbr) rec_ops = "(('rep, 'src, 'meta) frame, 'bbr) cc_ops"

definition rc_new_with_config ::
  "f64_ops \<Rightarrow> ('rep, 'src, 'meta, 'bbr) rec_ops \<Rightarrow> 'bbr \<Rightarrow> time \<Rightarrow> recovery_config
     \<Rightarrow> ('rep, 'src, 'meta, 'bbr) recovery option" where
  "rc_new_with_config F ops bbr now cf =
     do { congestion \<leftarrow> cg_from_config F ops bbr now cf;
          Some \<lparr>rc_epochs = (\<lambda>_. repoch_default), rc_loss_timer = None, rc_pto_count = 0,
                rc_rtt_stats = rtt_new now (rf_max_ack_delay cf), rc_lost_spurious_count = 0,
                rc_pkt_thresh = INITIAL_PACKET_THRESHOLD, rc_time_thresh = INITIAL_TIME_THRESHOLD F,
                rc_bytes_in_flight = 0, rc_bytes_sent = 0, rc_bytes_lost = 0,
                rc_max_datagram_size = rf_max_send_udp_payload_size cf,
                rc_outstanding_non_ack_eliciting = 0, rc_congestion = congestion, rc_newly_acked = []\<rparr> }"

abbreviation rc_epoch :: "('rep, 'src, 'meta, 'bbr) recovery \<Rightarrow> epoch \<Rightarrow> ('rep, 'src, 'meta) fepoch" where
  "rc_epoch r \<equiv> rc_epochs r"

definition rc_upd_epoch ::
  "epoch \<Rightarrow> (('rep, 'src, 'meta) fepoch \<Rightarrow> ('rep, 'src, 'meta) fepoch)
     \<Rightarrow> ('rep, 'src, 'meta, 'bbr) recovery \<Rightarrow> ('rep, 'src, 'meta, 'bbr) recovery" where
  "rc_upd_epoch e f r = r\<lparr>rc_epochs := (rc_epochs r)(e := f (rc_epochs r e))\<rparr>"

definition should_elicit_ack :: "epoch \<Rightarrow> ('rep, 'src, 'meta, 'bbr) recovery \<Rightarrow> bool" where
  "should_elicit_ack e r \<longleftrightarrow> re_loss_probes (rc_epoch r e) > 0
     \<or> rc_outstanding_non_ack_eliciting r \<ge> MAX_OUTSTANDING_NON_ACK_ELICITING"

definition get_acked_frames ::
  "epoch \<Rightarrow> ('rep, 'src, 'meta, 'bbr) recovery
     \<Rightarrow> ('rep, 'src, 'meta) frame list \<times> ('rep, 'src, 'meta, 'bbr) recovery" where
  "get_acked_frames e r = (re_acked_frames (rc_epoch r e), rc_upd_epoch e (\<lambda>e. e\<lparr>re_acked_frames := []\<rparr>) r)"

definition get_lost_frames ::
  "epoch \<Rightarrow> ('rep, 'src, 'meta, 'bbr) recovery
     \<Rightarrow> ('rep, 'src, 'meta) frame lost_frame list \<times> ('rep, 'src, 'meta, 'bbr) recovery" where
  "get_lost_frames e r = (re_lost_frames (rc_epoch r e), rc_upd_epoch e (\<lambda>e. e\<lparr>re_lost_frames := []\<rparr>) r)"

definition ping_sent :: "epoch \<Rightarrow> ('rep, 'src, 'meta, 'bbr) recovery \<Rightarrow> ('rep, 'src, 'meta, 'bbr) recovery" where
  "ping_sent e r = rc_upd_epoch e (\<lambda>e. e\<lparr>re_loss_probes := re_loss_probes e - 1\<rparr>) r"

subsection \<open>Timers\<close>

text \<open>The order of \<^verbatim>\<open>Option\<close>: \<^verbatim>\<open>None\<close> is below every \<^verbatim>\<open>Some\<close>.\<close>

definition option_less :: "time option \<Rightarrow> time option \<Rightarrow> bool" where
  "option_less a b =
     (case b of None \<Rightarrow> False | Some y \<Rightarrow> (case a of None \<Rightarrow> True | Some x \<Rightarrow> x < y))"

definition loss_time_and_space :: "('rep, 'src, 'meta, 'bbr) recovery \<Rightarrow> time option \<times> epoch" where
  "loss_time_and_space r =
     fold (\<lambda>e (time, epoch).
         let new_time = re_loss_time (rc_epoch r e) in
         if time = None \<or> option_less new_time time then (new_time, e) else (time, epoch))
       [Epoch_Handshake, Epoch_Application] (re_loss_time (rc_epoch r Epoch_Initial), Epoch_Initial)"

definition rc_pto :: "('rep, 'src, 'meta, 'bbr) recovery \<Rightarrow> duration" where
  "rc_pto r = rtt_rtt (rc_rtt_stats r) + max (rs_rttvar (rc_rtt_stats r) * 4) GRANULARITY"

definition u32_pow2 :: "nat \<Rightarrow> nat option" where
  "u32_pow2 n = (if n < 32 then Some (2 ^ n) else None)"

fun pto_loop ::
  "handshake_status \<Rightarrow> ('rep, 'src, 'meta, 'bbr) recovery \<Rightarrow> epoch list \<Rightarrow> duration \<Rightarrow> time option \<Rightarrow> epoch
     \<Rightarrow> (time option \<times> epoch) option" where
  "pto_loop hs r [] duration pto_timeout pto_space = Some (pto_timeout, pto_space)"
| "pto_loop hs r (e # es) duration pto_timeout pto_space =
     (if re_in_flight_count (rc_epoch r e) = 0 then pto_loop hs r es duration pto_timeout pto_space
      else if e = Epoch_Application \<and> \<not> hk_completed hs then Some (pto_timeout, pto_space)
      else
        do { duration \<leftarrow>
               (if e = Epoch_Application
                then do { backoff \<leftarrow> u32_pow2 (rc_pto_count r);
                          Some (duration + rs_max_ack_delay (rc_rtt_stats r) * backoff) }
                else Some duration);
             let new_time = map_option (\<lambda>t. t + int duration)
                              (re_time_of_last_ack_eliciting_packet (rc_epoch r e));
             if pto_timeout = None \<or> option_less new_time pto_timeout
             then pto_loop hs r es duration new_time e
             else pto_loop hs r es duration pto_timeout pto_space })"

definition pto_time_and_space ::
  "handshake_status \<Rightarrow> time \<Rightarrow> ('rep, 'src, 'meta, 'bbr) recovery \<Rightarrow> (time option \<times> epoch) option" where
  "pto_time_and_space hs now r =
     do { backoff \<leftarrow> u32_pow2 (rc_pto_count r);
          let duration = rc_pto r * backoff;
          if rc_bytes_in_flight r = 0
          then Some (Some (now + int duration), if hk_has_handshake_keys hs then Epoch_Handshake else Epoch_Initial)
          else pto_loop hs r [Epoch_Initial, Epoch_Handshake, Epoch_Application] duration None Epoch_Initial }"

definition set_loss_detection_timer ::
  "handshake_status \<Rightarrow> time \<Rightarrow> ('rep, 'src, 'meta, 'bbr) recovery \<Rightarrow> ('rep, 'src, 'meta, 'bbr) recovery option" where
  "set_loss_detection_timer hs now r =
     (case fst (loss_time_and_space r) of
        Some t \<Rightarrow> Some (r\<lparr>rc_loss_timer := Some t\<rparr>)
      | None \<Rightarrow>
          if rc_bytes_in_flight r = 0 \<and> hk_peer_verified_address hs then Some (r\<lparr>rc_loss_timer := None\<rparr>)
          else do { (pto, _) \<leftarrow> pto_time_and_space hs now r;
                    Some (case pto of Some timeout \<Rightarrow> r\<lparr>rc_loss_timer := Some timeout\<rparr> | None \<Rightarrow> r) })"

subsection \<open>Operations\<close>

definition rc_on_packet_sent ::
  "f64_ops \<Rightarrow> ('rep, 'src, 'meta, 'bbr) rec_ops \<Rightarrow> ('rep, 'src, 'meta) fsent \<Rightarrow> epoch \<Rightarrow> handshake_status \<Rightarrow> time
     \<Rightarrow> ('rep, 'src, 'meta, 'bbr) recovery \<Rightarrow> ('rep, 'src, 'meta, 'bbr) recovery option" where
  "rc_on_packet_sent F ops pkt e hs now r =
     do { let sent_bytes = st_size pkt;
          let r = r\<lparr>rc_outstanding_non_ack_eliciting :=
                      (if st_ack_eliciting pkt then 0 else rc_outstanding_non_ack_eliciting r + 1)\<rparr>;
          let r = (if st_in_flight pkt \<and> st_ack_eliciting pkt
                   then rc_upd_epoch e (\<lambda>e. e\<lparr>re_time_of_last_ack_eliciting_packet := Some now\<rparr>) r else r);
          (c, pkt') \<leftarrow> cg_on_packet_sent F ops (rc_bytes_in_flight r) sent_bytes now pkt (rc_rtt_stats r)
            (rc_bytes_lost r) (st_in_flight pkt) (rc_congestion r);
          let r = r\<lparr>rc_congestion := c\<rparr>;
          r \<leftarrow> (if st_in_flight pkt
                then set_loss_detection_timer hs now
                  ((rc_upd_epoch e (\<lambda>e. e\<lparr>re_in_flight_count := re_in_flight_count e + 1\<rparr>) r)
                     \<lparr>rc_bytes_in_flight := rc_bytes_in_flight r + sent_bytes\<rparr>)
                else Some r);
          let r = r\<lparr>rc_bytes_sent := rc_bytes_sent r + sent_bytes\<rparr>;
          Some (rc_upd_epoch e (\<lambda>e. e\<lparr>re_sent_packets := re_sent_packets e @ [pkt']\<rparr>) r) }"

fun mark_recovered :: "('meta \<Rightarrow> u64) \<Rightarrow> u64 \<Rightarrow> u64 \<Rightarrow> ('rep, 'src, 'meta) frame \<Rightarrow> ('rep, 'src, 'meta) frame" where
  "mark_recovered to_u64 lowest largest (SourceSymbolHeader metadata recovered) =
     SourceSymbolHeader metadata (recovered \<or> lowest \<le> to_u64 metadata \<and> to_u64 metadata \<le> largest)"
| "mark_recovered to_u64 lowest largest f = f"

fun recover_ranges ::
  "('meta \<Rightarrow> u64) \<Rightarrow> range list \<Rightarrow> ('rep, 'src, 'meta) fsent list \<Rightarrow> ('rep, 'src, 'meta) fsent list option" where
  "recover_ranges to_u64 [] ps = Some ps"
| "recover_ranges to_u64 ((lowest, r_end) # rs) ps =
     do { largest \<leftarrow> usize_sub r_end 1;
          recover_ranges to_u64 rs
            (map (\<lambda>p. if st_time_acked p = None
                      then p\<lparr>st_frames := map (mark_recovered to_u64 lowest largest) (st_frames p)\<rparr> else p) ps) }"

definition on_source_symbol_ack_received ::
  "('meta \<Rightarrow> u64) \<Rightarrow> range_set \<Rightarrow> epoch \<Rightarrow> ('rep, 'src, 'meta, 'bbr) recovery
     \<Rightarrow> ('rep, 'src, 'meta, 'bbr) recovery option" where
  "on_source_symbol_ack_received to_u64 ranges e r =
     do { ps \<leftarrow> recover_ranges to_u64 (rs_iter ranges) (re_sent_packets (rc_epoch r e));
          Some (rc_upd_epoch e (\<lambda>e. e\<lparr>re_sent_packets := ps\<rparr>) r) }"

definition note_loss_epoch :: "time \<Rightarrow> usize \<Rightarrow> 'bbr congestion \<Rightarrow> 'bbr congestion" where
  "note_loss_epoch now lost_packets c =
     (if lost_packets > 0 then
        (case cg_current_loss_epoch_start_time c of
           None \<Rightarrow> c\<lparr>cg_current_loss_epoch_start_time := Some now,
                    cg_current_loss_epoch_lost_packets_count := lost_packets\<rparr>
         | Some _ \<Rightarrow> c\<lparr>cg_current_loss_epoch_lost_packets_count :=
                         cg_current_loss_epoch_lost_packets_count c + lost_packets\<rparr>)
      else c)"

definition congestion_on_loss ::
  "('rep, 'src, 'meta, 'bbr) rec_ops \<Rightarrow> time \<Rightarrow> ('rep, 'src, 'meta) floss
     \<Rightarrow> ('rep, 'src, 'meta, 'bbr) recovery \<Rightarrow> ('rep, 'src, 'meta, 'bbr) recovery option" where
  "congestion_on_loss ops now loss r =
     (case ld_largest_lost_pkt loss of
        None \<Rightarrow> Some r
      | Some pkt \<Rightarrow>
          do { let c = rc_congestion r;
               let c = (if \<not> in_congestion_recovery (st_time_sent pkt) c then op_checkpoint ops c else c);
               c \<leftarrow> op_congestion_event ops (rc_bytes_in_flight r) (ld_lost_bytes loss) pkt now c;
               n \<leftarrow> usize_sub (rc_bytes_in_flight r) (ld_lost_bytes loss);
               Some (r\<lparr>rc_congestion := c, rc_bytes_in_flight := n\<rparr>) })"

definition rc_loss_delay :: "f64_ops \<Rightarrow> ('rep, 'src, 'meta, 'bbr) recovery \<Rightarrow> duration" where
  "rc_loss_delay F r =
     f_duration F (f_mul F (rc_time_thresh r)
       (f_secs F (max (rs_latest_rtt (rc_rtt_stats r)) (rtt_rtt (rc_rtt_stats r)))))"

definition rc_detect_lost_packets ::
  "f64_ops \<Rightarrow> ('rep, 'src, 'meta, 'bbr) rec_ops \<Rightarrow> epoch \<Rightarrow> time \<Rightarrow> ('rep, 'src, 'meta, 'bbr) recovery
     \<Rightarrow> (('rep, 'src, 'meta, 'bbr) recovery \<times> usize \<times> usize) option" where
  "rc_detect_lost_packets F ops e now r =
     do { (ep, loss) \<leftarrow> epoch_detect_lost_packets (rc_loss_delay F r) (rc_pkt_thresh r) now (rc_epoch r e);
          let r = rc_upd_epoch e (\<lambda>_. ep) r;
          let r = r\<lparr>rc_congestion := note_loss_epoch now (ld_lost_packets loss) (rc_congestion r)\<rparr>;
          r \<leftarrow> congestion_on_loss ops now loss r;
          n \<leftarrow> usize_sub (rc_bytes_in_flight r) (ld_pmtud_lost_bytes loss);
          let r = r\<lparr>rc_bytes_in_flight := n\<rparr>;
          let r = rc_upd_epoch e (drain_acked_and_lost_packets (now - int (rtt_rtt (rc_rtt_stats r)))) r;
          let r = r\<lparr>rc_congestion := (rc_congestion r)
                      \<lparr>cg_lost_count := cg_lost_count (rc_congestion r) + ld_lost_packets loss\<rparr>\<rparr>;
          Some (r, ld_lost_packets loss, ld_lost_bytes loss) }"

definition rc_update_rtt ::
  "(duration \<Rightarrow> nat \<Rightarrow> duration) \<Rightarrow> u64 \<Rightarrow> u64 \<Rightarrow> handshake_status \<Rightarrow> time \<Rightarrow> bool \<Rightarrow> acked list
     \<Rightarrow> rtt_stats \<Rightarrow> rtt_stats" where
  "rc_update_rtt div_f32 largest_acked ack_delay hs now has_ack_eliciting newly_acked rtt =
     (let largest_newly_acked = last newly_acked in
      if ak_pkt_num largest_newly_acked = largest_acked \<and> has_ack_eliciting
      then update_rtt div_f32 (duration_since now (ak_time_sent largest_newly_acked)) (ack_delay * 1000) now
             (hk_completed hs) rtt
      else rtt)"

text \<open>The part of \<^verbatim>\<open>on_ack_received\<close> behind the return for no newly acknowledged packet.\<close>

definition process_newly_acked ::
  "f64_ops \<Rightarrow> (duration \<Rightarrow> nat \<Rightarrow> duration) \<Rightarrow> ('rep, 'src, 'meta, 'bbr) rec_ops \<Rightarrow> u64 \<Rightarrow> u64 \<Rightarrow> epoch
     \<Rightarrow> handshake_status \<Rightarrow> time \<Rightarrow> acked_detection \<Rightarrow> ('rep, 'src, 'meta, 'bbr) recovery
     \<Rightarrow> (('rep, 'src, 'meta, 'bbr) recovery \<times> usize \<times> usize \<times> usize) option" where
  "process_newly_acked F div_f32 ops largest_acked ack_delay e hs now d r =
     do { let r = r\<lparr>rc_rtt_stats := rc_update_rtt div_f32 largest_acked ack_delay hs now
                      (ad_has_ack_eliciting d) (rc_newly_acked r) (rc_rtt_stats r)\<rparr>;
          (r, lost_packets, lost_bytes) \<leftarrow> rc_detect_lost_packets F ops e now r;
          (c, left) \<leftarrow> cg_on_packets_acked F ops (rc_bytes_in_flight r) (rc_newly_acked r) (rc_rtt_stats r) now (rc_congestion r);
          let r = r\<lparr>rc_congestion := c, rc_newly_acked := left\<rparr>;
          n \<leftarrow> usize_sub (rc_bytes_in_flight r) (ad_acked_bytes d);
          let r = r\<lparr>rc_bytes_in_flight := n, rc_pto_count := 0\<rparr>;
          r \<leftarrow> set_loss_detection_timer hs now r;
          let r = rc_upd_epoch e (drain_acked_and_lost_packets (now - int (rtt_rtt (rc_rtt_stats r)))) r;
          Some (r, lost_packets, lost_bytes, ad_acked_bytes d) }"

text \<open>What \<^verbatim>\<open>on_ack_received\<close> does with the result of the scan before that return.\<close>

definition note_acked ::
  "('rep, 'src, 'meta, 'bbr) rec_ops \<Rightarrow> epoch \<Rightarrow> ('rep, 'src, 'meta) fepoch \<Rightarrow> acked list \<Rightarrow> acked_detection
     \<Rightarrow> ('rep, 'src, 'meta, 'bbr) recovery \<Rightarrow> ('rep, 'src, 'meta, 'bbr) recovery" where
  "note_acked ops e ep newly_acked d r =
     (let r = (rc_upd_epoch e (\<lambda>_. ep) r)
            \<lparr>rc_newly_acked := newly_acked,
             rc_lost_spurious_count := rc_lost_spurious_count r + ad_spurious_losses d,
             rc_pkt_thresh := (case ad_spurious_pkt_thresh d of
                 Some thresh \<Rightarrow> max (rc_pkt_thresh r) (min thresh MAX_PACKET_THRESHOLD)
               | None \<Rightarrow> rc_pkt_thresh r)\<rparr> in
      if ad_has_in_flight_spurious_loss d
      then r\<lparr>rc_congestion := snd (op_rollback ops (rc_congestion r))\<rparr> else r)"

definition rc_on_ack_received ::
  "f64_ops \<Rightarrow> (duration \<Rightarrow> nat \<Rightarrow> duration) \<Rightarrow> ('rep, 'src, 'meta, 'bbr) rec_ops \<Rightarrow> range_set \<Rightarrow> u64 \<Rightarrow> epoch
     \<Rightarrow> handshake_status \<Rightarrow> time \<Rightarrow> ('rep, 'src, 'meta, 'bbr) recovery
     \<Rightarrow> (('rep, 'src, 'meta, 'bbr) recovery \<times> usize \<times> usize \<times> usize) option" where
  "rc_on_ack_received F div_f32 ops ranges ack_delay e hs now r =
     do { largest_acked \<leftarrow> (case rs_last ranges of Ok l \<Rightarrow> l | _ \<Rightarrow> None);
          let largest_acked = max (case re_largest_acked_packet (rc_epoch r e) of Some n \<Rightarrow> n | None \<Rightarrow> 0) largest_acked;
          let r = rc_upd_epoch e (\<lambda>e. e\<lparr>re_largest_acked_packet := Some largest_acked\<rparr>) r;
          (ep, newly_acked, d) \<leftarrow> detect_and_remove_acked_packets now ranges (rc_rtt_stats r) (rc_epoch r e);
          let r = note_acked ops e ep newly_acked d r;
          if newly_acked = [] then Some (r, 0, 0, 0)
          else process_newly_acked F div_f32 ops largest_acked ack_delay e hs now d r }"

definition pto_probe_frames :: "usize \<Rightarrow> ('rep, 'src, 'meta) fsent list \<Rightarrow> ('rep, 'src, 'meta) frame lost_frame list" where
  "pto_probe_frames loss_probes ps =
     concat (map (\<lambda>p. lost_frames_of False (st_frames p))
       (take loss_probes (filter (\<lambda>p. st_has_data p \<and> st_time_acked p = None \<and> st_time_lost p = None) ps)))"

definition on_loss_detection_timeout ::
  "f64_ops \<Rightarrow> ('rep, 'src, 'meta, 'bbr) rec_ops \<Rightarrow> handshake_status \<Rightarrow> time \<Rightarrow> ('rep, 'src, 'meta, 'bbr) recovery
     \<Rightarrow> (('rep, 'src, 'meta, 'bbr) recovery \<times> usize \<times> usize) option" where
  "on_loss_detection_timeout F ops hs now r =
     (case loss_time_and_space r of
        (Some _, e) \<Rightarrow>
          do { (r, loss) \<leftarrow> rc_detect_lost_packets F ops e now r;
               r \<leftarrow> set_loss_detection_timer hs now r;
               Some (r, loss) }
      | (None, _) \<Rightarrow>
          do { e \<leftarrow> (if rc_bytes_in_flight r > 0 then map_option snd (pto_time_and_space hs now r)
                     else Some (if hk_has_handshake_keys hs then Epoch_Handshake else Epoch_Initial));
               let r = r\<lparr>rc_pto_count := rc_pto_count r + 1\<rparr>;
               let r = rc_upd_epoch e (\<lambda>e. e\<lparr>re_loss_probes := min (rc_pto_count r) MAX_PTO_PROBES_COUNT\<rparr>) r;
               let r = rc_upd_epoch e (\<lambda>e. e\<lparr>re_lost_frames := re_lost_frames e
                                             @ pto_probe_frames (re_loss_probes e) (re_sent_packets e)\<rparr>) r;
               r \<leftarrow> set_loss_detection_timer hs now r;
               Some (r, 0, 0) })"

definition on_pkt_num_space_discarded ::
  "epoch \<Rightarrow> handshake_status \<Rightarrow> time \<Rightarrow> ('rep, 'src, 'meta, 'bbr) recovery \<Rightarrow> ('rep, 'src, 'meta, 'bbr) recovery option" where
  "on_pkt_num_space_discarded e hs now r =
     do { let unacked_bytes = sum_list (map st_size (filter (\<lambda>p. st_in_flight p \<and> st_time_acked p = None
                                 \<and> st_time_lost p = None) (re_sent_packets (rc_epoch r e))));
          n \<leftarrow> usize_sub (rc_bytes_in_flight r) unacked_bytes;
          let r = (rc_upd_epoch e (\<lambda>e. e\<lparr>re_sent_packets := [], re_lost_frames := [], re_acked_frames := [],
                      re_time_of_last_ack_eliciting_packet := None, re_loss_time := None, re_loss_probes := 0,
                      re_in_flight_count := 0\<rparr>) r)\<lparr>rc_bytes_in_flight := n\<rparr>;
          set_loss_detection_timer hs now r }"

definition on_path_change ::
  "f64_ops \<Rightarrow> ('rep, 'src, 'meta, 'bbr) rec_ops \<Rightarrow> epoch \<Rightarrow> time \<Rightarrow> ('rep, 'src, 'meta, 'bbr) recovery
     \<Rightarrow> (('rep, 'src, 'meta, 'bbr) recovery \<times> usize \<times> usize) option" where
  "on_path_change F ops e now r = rc_detect_lost_packets F ops e now r"

definition cwnd_available :: "('rep, 'src, 'meta, 'bbr) recovery \<Rightarrow> usize" where
  "cwnd_available r =
     (if \<exists>e \<in> {Epoch_Initial, Epoch_Handshake, Epoch_Application}. re_loss_probes (rc_epoch r e) > 0 then usize_max
      else (cg_congestion_window (rc_congestion r) - rc_bytes_in_flight r) + prr_snd_cnt (cg_prr (rc_congestion r)))"

definition pmtud_update_max_datagram_size ::
  "time \<Rightarrow> usize \<Rightarrow> ('rep, 'src, 'meta, 'bbr) recovery \<Rightarrow> ('rep, 'src, 'meta, 'bbr) recovery option" where
  "pmtud_update_max_datagram_size now new_max_datagram_size r =
     (let c = rc_congestion r;
          c = (if cg_congestion_window c = rc_max_datagram_size r * cg_initial_congestion_window_packets c
               then c\<lparr>cg_congestion_window := new_max_datagram_size * cg_initial_congestion_window_packets c\<rparr> else c) in
      do { pacer \<leftarrow> pc_new now (pc_enabled (cg_pacer c)) (cg_congestion_window c) 0 new_max_datagram_size
             (pc_max_pacing_rate (cg_pacer c));
           Some (r\<lparr>rc_congestion := c\<lparr>cg_pacer := pacer\<rparr>, rc_max_datagram_size := new_max_datagram_size\<rparr>) })"

definition update_max_datagram_size ::
  "time \<Rightarrow> usize \<Rightarrow> ('rep, 'src, 'meta, 'bbr) recovery \<Rightarrow> ('rep, 'src, 'meta, 'bbr) recovery option" where
  "update_max_datagram_size now new_max_datagram_size r =
     pmtud_update_max_datagram_size now (min (rc_max_datagram_size r) new_max_datagram_size) r"

definition rc_update_app_limited :: "bool \<Rightarrow> ('rep, 'src, 'meta, 'bbr) recovery \<Rightarrow> ('rep, 'src, 'meta, 'bbr) recovery" where
  "rc_update_app_limited v r = r\<lparr>rc_congestion := (rc_congestion r)\<lparr>cg_app_limited := v\<rparr>\<rparr>"

definition delivery_rate_update_app_limited ::
  "bool \<Rightarrow> ('rep, 'src, 'meta, 'bbr) recovery \<Rightarrow> ('rep, 'src, 'meta, 'bbr) recovery" where
  "delivery_rate_update_app_limited v r =
     r\<lparr>rc_congestion := (rc_congestion r)
         \<lparr>cg_delivery_rate := rate_update_app_limited v (cg_delivery_rate (rc_congestion r))\<rparr>\<rparr>"

definition update_max_ack_delay :: "duration \<Rightarrow> ('rep, 'src, 'meta, 'bbr) recovery \<Rightarrow> ('rep, 'src, 'meta, 'bbr) recovery" where
  "update_max_ack_delay max_ack_delay r =
     r\<lparr>rc_rtt_stats := (rc_rtt_stats r)\<lparr>rs_max_ack_delay := max_ack_delay\<rparr>\<rparr>"

definition rc_set_send_quantum :: "usize \<Rightarrow> ('rep, 'src, 'meta, 'bbr) recovery \<Rightarrow> ('rep, 'src, 'meta, 'bbr) recovery" where
  "rc_set_send_quantum v r = r\<lparr>rc_congestion := (rc_congestion r)\<lparr>cg_send_quantum := v\<rparr>\<rparr>"

subsection \<open>Specification of the two scans\<close>

text \<open>
  A packet is \<open>pending\<close> until it is acknowledged or declared lost and outstanding while it is pending and
  counts as in flight.  The effect of acknowledging a list of packets, and of losing one, in closed
  form.
\<close>

definition pending :: "'f sent \<Rightarrow> bool" where
  "pending p \<longleftrightarrow> st_time_acked p = None \<and> st_time_lost p = None"

definition spurious :: "'f sent \<Rightarrow> bool" where
  "spurious p \<longleftrightarrow> st_time_acked p = None \<and> st_time_lost p \<noteq> None"

definition outstanding :: "'f sent \<Rightarrow> bool" where
  "outstanding p \<longleftrightarrow> st_in_flight p \<and> pending p"

definition out_count :: "'f sent list \<Rightarrow> nat" where
  "out_count ps = length (filter outstanding ps)"

definition out_bytes :: "'f sent list \<Rightarrow> nat" where
  "out_bytes ps = sum_list (map st_size (filter outstanding ps))"

definition ack_mark :: "time \<Rightarrow> 'f sent \<Rightarrow> 'f sent" where
  "ack_mark now p =
     (if st_time_acked p \<noteq> None then p
      else if st_time_lost p \<noteq> None then p\<lparr>st_time_acked := Some now\<rparr>
      else p\<lparr>st_frames := [], st_time_acked := Some now\<rparr>)"

definition ack_effect ::
  "time \<Rightarrow> u64 \<Rightarrow> 'f sent list \<Rightarrow> 'f repoch \<times> acked list \<times> acked_detection \<Rightarrow> 'f repoch \<times> acked list \<times> acked_detection" where
  "ack_effect now largest_acked ps = (\<lambda>(e, nw, d).
     (e\<lparr>re_in_flight_count := re_in_flight_count e - out_count ps,
        re_acked_frames := re_acked_frames e @ concat (map st_frames (filter pending ps))\<rparr>,
      nw @ map (acked_of now) (filter pending ps),
      d\<lparr>ad_acked_bytes := ad_acked_bytes d + out_bytes ps,
        ad_spurious_losses := ad_spurious_losses d + length (filter spurious ps),
        ad_spurious_pkt_thresh := (case ad_spurious_pkt_thresh d of
            None \<Rightarrow> map_option (\<lambda>p. largest_acked - st_pkt_num p + 1) (List.find spurious ps)
          | Some t \<Rightarrow> Some t),
        ad_has_ack_eliciting := ad_has_ack_eliciting d \<or> (\<exists>p \<in> set ps. pending p \<and> st_ack_eliciting p),
        ad_has_in_flight_spurious_loss :=
          ad_has_in_flight_spurious_loss d \<or> (\<exists>p \<in> set ps. spurious p \<and> st_in_flight p)\<rparr>))"

lemma out_simps [simp]:
  "out_count [] = 0" "out_bytes [] = 0"
  "out_count (p # ps) = (if outstanding p then Suc (out_count ps) else out_count ps)"
  "out_bytes (p # ps) = (if outstanding p then st_size p + out_bytes ps else out_bytes ps)"
  "out_count (ps @ qs) = out_count ps + out_count qs"
  "out_bytes (ps @ qs) = out_bytes ps + out_bytes qs"
  by (simp_all add: out_count_def out_bytes_def)

lemma ack_mark_simps [simp]:
  "st_pkt_num (ack_mark now p) = st_pkt_num p" "st_delivered (ack_mark now p) = st_delivered p"
  "st_pmtud (ack_mark now p) = st_pmtud p" "st_in_flight (ack_mark now p) = st_in_flight p"
  "st_time_sent (ack_mark now p) = st_time_sent p" "st_time_lost (ack_mark now p) = st_time_lost p"
  "\<not> pending (ack_mark now p)" "\<not> outstanding (ack_mark now p)" "st_time_acked (ack_mark now p) \<noteq> None"
  by (auto simp: ack_mark_def pending_def outstanding_def)

lemma ack_effect_Nil [simp]: "ack_effect now largest [] s = s"
  by (auto simp: ack_effect_def split: prod.splits option.splits)

lemma find_append: "List.find P (xs @ ys) = (case List.find P xs of None \<Rightarrow> List.find P ys | Some x \<Rightarrow> Some x)"
  by (induction xs) auto

lemma ack_effect_append: "ack_effect now largest (ps @ qs) s = ack_effect now largest qs (ack_effect now largest ps s)"
  by (simp add: ack_effect_def find_append bex_Un add.assoc disj_assoc split: prod.splits option.splits)

lemma ack_packet_eq:
  assumes "outstanding p \<Longrightarrow> 0 < re_in_flight_count e" "spurious p \<Longrightarrow> st_pkt_num p \<le> largest"
  shows "ack_packet now largest p (e, nw, d) = Some (ack_mark now p, ack_effect now largest [p] (e, nw, d))"
proof -
  consider "st_time_acked p \<noteq> None" | "spurious p" | "outstanding p" | "pending p" "\<not> st_in_flight p"
    unfolding outstanding_def pending_def spurious_def by argo
  then show ?thesis
  proof cases
    case 1
    then obtain t where "st_time_acked p = Some t" by blast
    then show ?thesis by (cases "ad_spurious_pkt_thresh d")
        (simp_all add: ack_packet_def ack_mark_def ack_effect_def outstanding_def pending_def spurious_def)
  next
    case 2
    then obtain t where "st_time_lost p = Some t" "st_time_acked p = None" by (auto simp: spurious_def)
    then show ?thesis using 2 assms(2) by (cases "ad_spurious_pkt_thresh d")
        (simp_all add: ack_packet_def ack_mark_def ack_effect_def outstanding_def pending_def)
  next
    case 3
    then have "st_time_lost p = None" "st_time_acked p = None" "st_in_flight p" by (auto simp: outstanding_def pending_def)
    then show ?thesis using 3 assms(1) by (cases "ad_spurious_pkt_thresh d")
        (simp_all add: ack_packet_def ack_mark_def ack_effect_def pending_def spurious_def)
  next
    case 4
    then have "st_time_lost p = None" "st_time_acked p = None" by (auto simp: pending_def)
    then show ?thesis using 4(2) by (cases "ad_spurious_pkt_thresh d")
        (simp_all add: ack_packet_def ack_mark_def ack_effect_def outstanding_def pending_def spurious_def)
  qed
qed

lemma ack_packets_eq:
  assumes "out_count (takeWhile (\<lambda>p. st_pkt_num p < ack_end) ps) \<le> re_in_flight_count (fst s)"
    and "ack_end \<le> largest + 1"
  shows "ack_packets now largest ack_end ps s =
    Some (map (ack_mark now) (takeWhile (\<lambda>p. st_pkt_num p < ack_end) ps) @ dropWhile (\<lambda>p. st_pkt_num p < ack_end) ps,
          ack_effect now largest (takeWhile (\<lambda>p. st_pkt_num p < ack_end) ps) s)"
  using assms(1)
proof (induction ps arbitrary: s)
  case (Cons p ps)
  obtain e nw d where s: "s = (e, nw, d)" by (cases s)
  show ?case
  proof (cases "st_pkt_num p < ack_end")
    case True
    let ?s = "ack_effect now largest [p] s" and ?pre = "takeWhile (\<lambda>p. st_pkt_num p < ack_end) ps"
    have p: "ack_packet now largest p s = Some (ack_mark now p, ?s)"
      unfolding s using Cons.prems True assms(2) by (intro ack_packet_eq) (auto simp: s)
    have "out_count ?pre \<le> re_in_flight_count (fst ?s)"
      using Cons.prems True by (auto simp: s ack_effect_def split: if_splits)
    from Cons.IH [OF this] show ?thesis
      using True p ack_effect_append [of now largest "[p]" ?pre s] by simp
  qed (simp add: s)
qed simp

subsection \<open>Acknowledging ranges\<close>

definition pkt_sorted :: "'f sent list \<Rightarrow> bool" where
  "pkt_sorted ps \<longleftrightarrow> sorted_wrt (\<lambda>p q. st_pkt_num p < st_pkt_num q) ps"

definition in_ranges :: "range list \<Rightarrow> 'f sent \<Rightarrow> bool" where
  "in_ranges rs p \<longleftrightarrow> (\<exists>(s, e) \<in> set rs. s \<le> st_pkt_num p \<and> st_pkt_num p < e)"

lemma in_ranges_simps [simp]:
  "\<not> in_ranges [] p" "in_ranges ((s, e) # rs) p \<longleftrightarrow> s \<le> st_pkt_num p \<and> st_pkt_num p < e \<or> in_ranges rs p"
  by (auto simp: in_ranges_def)

lemma pkt_sorted_simps [simp]:
  "pkt_sorted []" "pkt_sorted (p # ps) \<longleftrightarrow> (\<forall>q \<in> set ps. st_pkt_num p < st_pkt_num q) \<and> pkt_sorted ps"
  by (auto simp: pkt_sorted_def)

lemma pkt_sorted_append:
  "pkt_sorted (ps @ qs) \<longleftrightarrow> pkt_sorted ps \<and> pkt_sorted qs \<and> (\<forall>p \<in> set ps. \<forall>q \<in> set qs. st_pkt_num p < st_pkt_num q)"
  by (auto simp: pkt_sorted_def sorted_wrt_append)

lemma pkt_sorted_map: "(\<And>p. st_pkt_num (f p) = st_pkt_num p) \<Longrightarrow> pkt_sorted (map f ps) = pkt_sorted ps"
  by (simp add: pkt_sorted_def sorted_wrt_map)

text \<open>The segment of a sorted list that one range selects.\<close>

lemma sorted_takeWhile_filter:
  "pkt_sorted ps \<Longrightarrow> takeWhile (\<lambda>p. st_pkt_num p < k) ps = filter (\<lambda>p. st_pkt_num p < k) ps
     \<and> dropWhile (\<lambda>p. st_pkt_num p < k) ps = filter (\<lambda>p. k \<le> st_pkt_num p) ps"
proof (induction ps)
  case (Cons p ps)
  then have "\<forall>q \<in> set ps. st_pkt_num p < st_pkt_num q" by simp
  then have "\<not> st_pkt_num p < k \<Longrightarrow> filter (\<lambda>q. st_pkt_num q < k) ps = [] \<and> filter (\<lambda>q. k \<le> st_pkt_num q) ps = ps"
    by (auto simp: filter_empty_conv filter_id_conv)
  with Cons show ?case by auto
qed simp

lemma ack_start_split:
  "take (ack_start start ps) ps = takeWhile (\<lambda>p. st_pkt_num p < start) ps
   \<and> drop (ack_start start ps) ps = dropWhile (\<lambda>p. st_pkt_num p < start) ps"
  by (auto simp: ack_start_def takeWhile_eq_take [symmetric] dropWhile_eq_drop [symmetric] split: list.splits)

lemma ack_range_map:
  assumes "pkt_sorted ps" "start \<le> ack_end"
  defines "pre \<equiv> filter (\<lambda>p. start \<le> st_pkt_num p \<and> st_pkt_num p < ack_end) ps"
  shows "takeWhile (\<lambda>p. st_pkt_num p < ack_end) (drop (ack_start start ps) ps) = pre"
    and "take (ack_start start ps) ps @ map (ack_mark now) pre @ dropWhile (\<lambda>p. st_pkt_num p < ack_end) (drop (ack_start start ps) ps)
       = map (\<lambda>p. if start \<le> st_pkt_num p \<and> st_pkt_num p < ack_end then ack_mark now p else p) ps"
proof -
  note st = sorted_takeWhile_filter [OF assms(1), of start]
  have dr: "drop (ack_start start ps) ps = filter (\<lambda>p. start \<le> st_pkt_num p) ps" using ack_start_split st by metis
  have sd: "pkt_sorted (filter (\<lambda>p. start \<le> st_pkt_num p) ps)"
    using assms(1) by (simp add: pkt_sorted_def sorted_wrt_filter)
  note en = sorted_takeWhile_filter [OF sd, of ack_end]
  show pre: "takeWhile (\<lambda>p. st_pkt_num p < ack_end) (drop (ack_start start ps) ps) = pre"
    unfolding dr using en by (simp add: pre_def conj_commute)
  have tk: "take (ack_start start ps) ps = filter (\<lambda>p. st_pkt_num p < start) ps" using ack_start_split st by metis
  have rest: "dropWhile (\<lambda>p. st_pkt_num p < ack_end) (drop (ack_start start ps) ps) = filter (\<lambda>p. ack_end \<le> st_pkt_num p) ps"
    unfolding dr using en assms(2) by (simp add: conj_commute) (rule filter_cong, auto)
  have parts: "ps = take (ack_start start ps) ps @ pre @ dropWhile (\<lambda>p. st_pkt_num p < ack_end) (drop (ack_start start ps) ps)"
    using pre takeWhile_dropWhile_id append_take_drop_id by metis
  let ?f = "\<lambda>p. if start \<le> st_pkt_num p \<and> st_pkt_num p < ack_end then ack_mark now p else p"
  have "map ?f (take (ack_start start ps) ps) = take (ack_start start ps) ps"
    "map ?f pre = map (ack_mark now) pre"
    "map ?f (filter (\<lambda>p. ack_end \<le> st_pkt_num p) ps) = filter (\<lambda>p. ack_end \<le> st_pkt_num p) ps"
    unfolding tk pre_def by (auto intro!: map_idI)
  then have "map ?f (take (ack_start start ps) ps @ pre @ dropWhile (\<lambda>p. st_pkt_num p < ack_end) (drop (ack_start start ps) ps))
      = take (ack_start start ps) ps @ map (ack_mark now) pre @ dropWhile (\<lambda>p. st_pkt_num p < ack_end) (drop (ack_start start ps) ps)"
    unfolding rest by simp
  then show "take (ack_start start ps) ps @ map (ack_mark now) pre @ dropWhile (\<lambda>p. st_pkt_num p < ack_end) (drop (ack_start start ps) ps)
       = map ?f ps"
    unfolding parts [symmetric] by (rule sym)
qed

lemma out_count_filter: "out_count (filter P ps) \<le> out_count ps"
  by (induction ps) auto

lemma filter_ranges_split:
  assumes "pkt_sorted ps" "ranges_wf ((s, e) # rs)"
  shows "filter (in_ranges ((s, e) # rs)) ps
    = filter (\<lambda>p. s \<le> st_pkt_num p \<and> st_pkt_num p < e) ps @ filter (in_ranges rs) ps"
  using assms(1)
proof (induction ps)
  case (Cons p ps)
  have up: "e < st_pkt_num q" if "in_ranges rs q" for q
    using that assms(2) by (fastforce simp: in_ranges_def ranges_wf_Cons)
  have "filter (\<lambda>q. s \<le> st_pkt_num q \<and> st_pkt_num q < e) ps = []" if "in_ranges rs p"
    using up [OF that] Cons.prems by (force simp: filter_empty_conv)
  then show ?case using Cons up [of p] by auto
qed simp

lemma ack_effect_fst:
  "re_sent_packets (fst (ack_effect now l ps s)) = re_sent_packets (fst s)"
  "re_in_flight_count (fst (ack_effect now l ps s)) = re_in_flight_count (fst s) - out_count ps"
  by (simp_all add: ack_effect_def split: prod.splits)

lemma ack_effect_packets:
  "ack_effect now l ps (e\<lparr>re_sent_packets := qs\<rparr>, x) = ((fst (ack_effect now l ps (e, x)))\<lparr>re_sent_packets := qs\<rparr>, snd (ack_effect now l ps (e, x)))"
  by (cases x) (simp add: ack_effect_def)

text \<open>
  All ranges: the packets in them are marked, and the effect is that of the selected packets in
  order.
\<close>

lemma ack_ranges_eq:
  assumes "ranges_wf rs" "\<forall>(s, e) \<in> set rs. e \<le> largest + 1" "pkt_sorted (re_sent_packets (fst st))"
    and "out_count (re_sent_packets (fst st)) \<le> re_in_flight_count (fst st)"
  shows "ack_ranges now largest rs st =
    Some ((fst (ack_effect now largest (filter (in_ranges rs) (re_sent_packets (fst st))) st))
            \<lparr>re_sent_packets := map (\<lambda>p. if in_ranges rs p then ack_mark now p else p) (re_sent_packets (fst st))\<rparr>,
          snd (ack_effect now largest (filter (in_ranges rs) (re_sent_packets (fst st))) st))"
  using assms
proof (induction rs arbitrary: st)
  case Nil
  then show ?case by (cases st) simp
next
  case (Cons r rs)
  obtain s e where r: "r = (s, e)" by (cases r)
  obtain ep x where st: "st = (ep, x)" by (cases st)
  let ?ps = "re_sent_packets ep" and ?n = "ack_start s (re_sent_packets ep)"
  let ?pre = "filter (\<lambda>p. s \<le> st_pkt_num p \<and> st_pkt_num p < e) ?ps"
  let ?ps' = "map (\<lambda>p. if s \<le> st_pkt_num p \<and> st_pkt_num p < e then ack_mark now p else p) ?ps"
  have se: "s \<le> e" "e \<le> largest + 1" "ranges_wf rs" using Cons.prems r by (auto simp: ranges_wf_Cons)
  have so: "pkt_sorted ?ps" using Cons.prems st by simp
  note m = ack_range_map [OF so se(1)]
  have oc: "out_count (takeWhile (\<lambda>p. st_pkt_num p < e) (drop ?n ?ps)) \<le> re_in_flight_count (fst st)"
    unfolding m(1) using Cons.prems(4) out_count_filter [of "\<lambda>p. s \<le> st_pkt_num p \<and> st_pkt_num p < e" ?ps] st by simp
  let ?s1 = "ack_effect now largest ?pre st" and ?f = "\<lambda>rs p. if in_ranges rs p then ack_mark now p else p"
  let ?st' = "((fst ?s1)\<lparr>re_sent_packets := ?ps'\<rparr>, snd ?s1)"
  have "re_sent_packets (fst st) = ?ps" by (simp add: st)
  then have step: "ack_ranges now largest (r # rs) st = ack_ranges now largest rs ?st'"
    using m(2) by (simp add: r ack_packets_eq [OF oc se(2)] m(1) Let_def)
  have apart: "\<not> (s \<le> st_pkt_num p \<and> st_pkt_num p < e)" if "in_ranges rs p" for p
    using that Cons.prems(1) r by (fastforce simp: in_ranges_def ranges_wf_Cons)
  have same: "in_ranges rs (ack_mark now p) = in_ranges rs p" for p by (simp add: in_ranges_def)
  have sel: "filter (in_ranges rs) (map (\<lambda>p. if s \<le> st_pkt_num p \<and> st_pkt_num p < e then ack_mark now p else p) qs)
      = filter (in_ranges rs) qs" for qs
    using apart by (induction qs) (auto simp: same)
  have both: "map (?f rs) ?ps' = map (?f (r # rs)) ?ps"
    using apart by (auto simp: r same)
  have so': "pkt_sorted (re_sent_packets (fst ?st'))" using so by (simp add: pkt_sorted_map)
  have "out_count (map (\<lambda>p. if s \<le> st_pkt_num p \<and> st_pkt_num p < e then ack_mark now p else p) qs)
      + out_count (filter (\<lambda>p. s \<le> st_pkt_num p \<and> st_pkt_num p < e) qs) = out_count qs" for qs
    by (induction qs) auto
  from this [of ?ps] have cnt: "out_count (re_sent_packets (fst ?st')) \<le> re_in_flight_count (fst ?st')"
    using Cons.prems(4) by (simp add: ack_effect_fst st)
  have le: "\<forall>(s, e) \<in> set rs. e \<le> largest + 1" using Cons.prems(2) by auto
  have "ack_ranges now largest rs ?st' =
    Some ((fst (ack_effect now largest (filter (in_ranges rs) ?ps) ?st'))\<lparr>re_sent_packets := map (?f rs) ?ps'\<rparr>,
          snd (ack_effect now largest (filter (in_ranges rs) ?ps) ?st'))"
    using Cons.IH [OF se(3) le so' cnt] unfolding fst_conv repoch.simps(4) repoch.select_convs sel
    by (simp add: sel)
  then show ?case unfolding step both
    using filter_ranges_split [OF so Cons.prems(1) [unfolded r]]
    by (simp add: ack_effect_append ack_effect_packets st r del: in_ranges_simps)
qed

subsection \<open>Declaring packets lost\<close>

definition lose_mark :: "time \<Rightarrow> 'f sent \<Rightarrow> 'f sent" where
  "lose_mark now p = (if pending p then p\<lparr>st_frames := [], st_time_lost := Some now\<rparr> else p)"

definition lose_effect ::
  "time \<Rightarrow> ('rep, 'src, 'meta) fsent list \<Rightarrow> ('rep, 'src, 'meta) fepoch \<times> ('rep, 'src, 'meta) floss
     \<Rightarrow> ('rep, 'src, 'meta) fepoch \<times> ('rep, 'src, 'meta) floss" where
  "lose_effect now ps = (\<lambda>(e, l).
     (e\<lparr>re_lost_frames := re_lost_frames e @ concat (map (\<lambda>p. lost_frames_of False (st_frames p)) (filter pending ps)),
        re_in_flight_count := re_in_flight_count e - out_count ps\<rparr>,
      l\<lparr>ld_largest_lost_pkt :=
          (case rev (filter (\<lambda>p. outstanding p \<and> \<not> st_pmtud p) ps) of
             [] \<Rightarrow> ld_largest_lost_pkt l | pkt # _ \<Rightarrow> Some (lose_mark now pkt)),
        ld_lost_packets := ld_lost_packets l + length (filter (\<lambda>p. pending p \<and> \<not> st_pmtud p) ps),
        ld_lost_bytes := ld_lost_bytes l + out_bytes (filter (\<lambda>p. \<not> st_pmtud p) ps),
        ld_pmtud_lost_bytes := ld_pmtud_lost_bytes l + out_bytes (filter st_pmtud ps)\<rparr>))"

definition declared_lost :: "duration \<Rightarrow> u64 \<Rightarrow> u64 \<Rightarrow> time \<Rightarrow> 'f sent \<Rightarrow> bool" where
  "declared_lost loss_delay pkt_thresh largest_acked now p \<longleftrightarrow>
     st_time_sent p \<le> now - int loss_delay \<or> largest_acked \<ge> st_pkt_num p + pkt_thresh"

definition scanned :: "duration \<Rightarrow> u64 \<Rightarrow> u64 \<Rightarrow> time \<Rightarrow> 'f sent \<Rightarrow> bool" where
  "scanned loss_delay pkt_thresh largest_acked now p \<longleftrightarrow>
     st_pkt_num p \<le> largest_acked \<and> (pending p \<longrightarrow> declared_lost loss_delay pkt_thresh largest_acked now p)"

lemma lose_mark_simps [simp]:
  "st_pkt_num (lose_mark now p) = st_pkt_num p" "st_delivered (lose_mark now p) = st_delivered p"
  "st_pmtud (lose_mark now p) = st_pmtud p" "st_in_flight (lose_mark now p) = st_in_flight p"
  "st_time_sent (lose_mark now p) = st_time_sent p" "st_time_acked (lose_mark now p) = st_time_acked p"
  "\<not> pending (lose_mark now p)" "\<not> outstanding (lose_mark now p)"
  by (auto simp: lose_mark_def pending_def outstanding_def)

lemma lose_effect_Nil [simp]: "lose_effect now [] s = s"
  by (simp add: lose_effect_def split: prod.splits)

lemma lose_effect_append: "lose_effect now (ps @ qs) s = lose_effect now qs (lose_effect now ps s)"
  by (simp add: lose_effect_def add.assoc split: prod.splits list.splits)

lemma lose_effect_fst:
  "re_in_flight_count (fst (lose_effect now ps s)) = re_in_flight_count (fst s) - out_count ps"
  "re_loss_time (fst (lose_effect now ps s)) = re_loss_time (fst s)"
  by (simp_all add: lose_effect_def split: prod.splits)

lemma lose_packet_eq:
  assumes "pending p" "outstanding p \<Longrightarrow> 0 < re_in_flight_count e" "st_pmtud p \<Longrightarrow> st_in_flight p"
  shows "lose_packet now p (e, l) = Some (lose_mark now p, lose_effect now [p] (e, l))"
proof (cases "st_in_flight p")
  case True
  with assms have "outstanding p" "0 < re_in_flight_count e" by (auto simp: outstanding_def)
  with assms True show ?thesis by (simp add: lose_packet_def lose_mark_def lose_effect_def Let_def)
next
  case False
  with assms have "\<not> outstanding p" "\<not> st_pmtud p" by (auto simp: outstanding_def)
  with assms False show ?thesis by (simp add: lose_packet_def lose_mark_def lose_effect_def Let_def)
qed

lemma lose_effect_settled: "\<not> pending p \<Longrightarrow> lose_effect now [p] s = s"
  by (auto simp: lose_effect_def outstanding_def split: prod.splits)

text \<open>
  The scan stops behind the largest acknowledged packet or at the first packet that is neither
  settled nor lost yet, whose time gives the next timer.
\<close>

definition next_loss_time :: "duration \<Rightarrow> u64 \<Rightarrow> 'f sent list \<Rightarrow> time option" where
  "next_loss_time loss_delay largest_acked ps =
     (case ps of [] \<Rightarrow> None
      | p # _ \<Rightarrow> if st_pkt_num p \<le> largest_acked then Some (st_time_sent p + int loss_delay) else None)"

lemma lose_packets_eq:
  assumes "out_count (takeWhile (scanned delay thresh largest now) ps) \<le> re_in_flight_count (fst s)"
    and "\<forall>p \<in> set ps. st_pmtud p \<longrightarrow> st_in_flight p" "re_loss_time (fst s) = None"
  shows "lose_packets delay thresh largest now ps s =
    Some (map (lose_mark now) (takeWhile (scanned delay thresh largest now) ps) @ dropWhile (scanned delay thresh largest now) ps,
          (fst (lose_effect now (takeWhile (scanned delay thresh largest now) ps) s))
            \<lparr>re_loss_time := next_loss_time delay largest (dropWhile (scanned delay thresh largest now) ps)\<rparr>,
          snd (lose_effect now (takeWhile (scanned delay thresh largest now) ps) s))"
  using assms
proof (induction ps arbitrary: s)
  case Nil
  then show ?case by (cases s) (simp add: next_loss_time_def)
next
  case (Cons p ps)
  obtain e l where s: "s = (e, l)" by (cases s)
  let ?sc = "scanned delay thresh largest now"
  show ?case
  proof (cases "?sc p")
    case True
    let ?s = "lose_effect now [p] s"
    have num: "st_pkt_num p \<le> largest" using True by (simp add: scanned_def)
    have "out_count (takeWhile ?sc ps) \<le> re_in_flight_count (fst ?s)"
      using Cons.prems(1) True by (simp add: lose_effect_fst split: if_splits)
    then have ih: "lose_packets delay thresh largest now ps ?s =
      Some (map (lose_mark now) (takeWhile ?sc ps) @ dropWhile ?sc ps,
            (fst (lose_effect now (takeWhile ?sc ps) ?s))\<lparr>re_loss_time := next_loss_time delay largest (dropWhile ?sc ps)\<rparr>,
            snd (lose_effect now (takeWhile ?sc ps) ?s))"
      using Cons.prems by (intro Cons.IH) (simp_all add: lose_effect_fst)
    have app: "lose_effect now (p # takeWhile ?sc ps) s = lose_effect now (takeWhile ?sc ps) ?s"
      using lose_effect_append [of now "[p]" "takeWhile ?sc ps" s] by (simp only: append.simps)
    show ?thesis
    proof (cases "pending p")
      case pend: True
      then have "declared_lost delay thresh largest now p" using True by (simp add: scanned_def)
      moreover have "lose_packet now p s = Some (lose_mark now p, ?s)"
        unfolding s using Cons.prems True by (intro lose_packet_eq pend) (auto simp: s)
      ultimately show ?thesis using num pend ih app True
        by (simp add: declared_lost_def pending_def)
    next
      case False
      then have "lose_mark now p = p" "?s = s" by (simp_all add: lose_mark_def lose_effect_settled)
      then show ?thesis using False num ih app True by (simp add: pending_def)
    qed
  next
    case False
    then show ?thesis using Cons.prems(3)
      by (cases "st_pkt_num p \<le> largest") (simp_all add: s scanned_def declared_lost_def pending_def next_loss_time_def Let_def)
  qed
qed

subsection \<open>The invariant of an epoch\<close>

definition epoch_ok :: "'f repoch \<Rightarrow> bool" where
  "epoch_ok e \<longleftrightarrow> pkt_sorted (re_sent_packets e) \<and> re_in_flight_count e = out_count (re_sent_packets e)
     \<and> (\<forall>p \<in> set (re_sent_packets e). st_pmtud p \<longrightarrow> st_in_flight p)"

definition delivered_le :: "nat \<Rightarrow> 'f repoch \<Rightarrow> bool" where
  "delivered_le n e \<longleftrightarrow> (\<forall>p \<in> set (re_sent_packets e). st_delivered p \<le> n)"

lemma out_dropWhile:
  assumes "\<And>p. P p \<Longrightarrow> \<not> outstanding p"
  shows "out_count (dropWhile P ps) = out_count ps \<and> out_bytes (dropWhile P ps) = out_bytes ps"
  using assms by (induction ps) auto

lemma pkt_sorted_dropWhile: "pkt_sorted ps \<Longrightarrow> pkt_sorted (dropWhile P ps)"
  by (induction ps) auto

lemma drain_ok:
  assumes "epoch_ok e"
  shows "epoch_ok (drain_acked_and_lost_packets t e)
    \<and> out_bytes (re_sent_packets (drain_acked_and_lost_packets t e)) = out_bytes (re_sent_packets e)
    \<and> (delivered_le n e \<longrightarrow> delivered_le n (drain_acked_and_lost_packets t e))"
proof -
  let ?P = "\<lambda>pkt. (case st_time_lost pkt of Some time_lost \<Rightarrow> \<not> time_lost > t | None \<Rightarrow> True)
       \<and> \<not> (st_time_acked pkt = None \<and> st_time_lost pkt = None)"
  have "\<And>p. ?P p \<Longrightarrow> \<not> outstanding p" by (auto simp: outstanding_def pending_def)
  from out_dropWhile [of ?P, OF this] assms pkt_sorted_dropWhile [of "re_sent_packets e" ?P] show ?thesis
    by (auto simp: drain_acked_and_lost_packets_def epoch_ok_def delivered_le_def dest: set_dropWhileD)
qed

lemma out_mark:
  "out_count (map (\<lambda>p. if P p then ack_mark now p else p) ps) = out_count ps - out_count (filter P ps)"
  "out_bytes (map (\<lambda>p. if P p then ack_mark now p else p) ps) + out_bytes (filter P ps) = out_bytes ps"
proof -
  have "out_count (map (\<lambda>p. if P p then ack_mark now p else p) ps) + out_count (filter P ps) = out_count ps"
    by (induction ps) auto
  then show "out_count (map (\<lambda>p. if P p then ack_mark now p else p) ps) = out_count ps - out_count (filter P ps)" by simp
  show "out_bytes (map (\<lambda>p. if P p then ack_mark now p else p) ps) + out_bytes (filter P ps) = out_bytes ps"
    by (induction ps) auto
qed

lemma detect_acked_eq:
  assumes "epoch_ok e" "re_largest_acked_packet e = Some largest" "ranges_wf (rs_iter acked)"
    and "\<forall>(s, t) \<in> set (rs_iter acked). t \<le> largest + 1"
  shows "\<exists>e' d. detect_and_remove_acked_packets now acked rtt e =
      Some (drain_acked_and_lost_packets (now - int (rtt_rtt rtt)) e',
        map (acked_of now) (filter pending (filter (in_ranges (rs_iter acked)) (re_sent_packets e))), d)
    \<and> re_sent_packets e' = map (\<lambda>p. if in_ranges (rs_iter acked) p then ack_mark now p else p) (re_sent_packets e)
    \<and> epoch_ok e' \<and> re_loss_time e' = re_loss_time e \<and> re_largest_acked_packet e' = Some largest
    \<and> re_acked_frames e' = re_acked_frames e @ concat (map st_frames (filter pending (filter (in_ranges (rs_iter acked)) (re_sent_packets e))))
    \<and> ad_acked_bytes d + out_bytes (re_sent_packets e') = out_bytes (re_sent_packets e)"
proof -
  let ?ps = "re_sent_packets e" and ?rs = "rs_iter acked"
  let ?d = "\<lparr>ad_acked_bytes = 0, ad_spurious_losses = 0, ad_spurious_pkt_thresh = None,
             ad_has_ack_eliciting = False, ad_has_in_flight_spurious_loss = False\<rparr>"
  let ?s = "ack_effect now largest (filter (in_ranges ?rs) ?ps) (e, [], ?d)"
  let ?ps' = "map (\<lambda>p. if in_ranges ?rs p then ack_mark now p else p) ?ps"
  have eq: "ack_ranges now largest ?rs (e, [], ?d) = Some ((fst ?s)\<lparr>re_sent_packets := ?ps'\<rparr>, snd ?s)"
    using ack_ranges_eq [OF assms(3,4), of "(e, [], ?d)"] assms(1) by (simp add: epoch_ok_def)
  have so: "pkt_sorted ?ps'" using assms(1) by (simp add: epoch_ok_def pkt_sorted_map)
  have pm: "\<forall>p \<in> set ?ps'. st_pmtud p \<longrightarrow> st_in_flight p" using assms(1) by (auto simp: epoch_ok_def)
  show ?thesis
    using so pm assms(1,2) out_mark [of "in_ranges ?rs" now ?ps]
    by (intro exI [of _ "(fst ?s)\<lparr>re_sent_packets := ?ps'\<rparr>"] exI [of _ "snd (snd ?s)"])
      (simp add: detect_and_remove_acked_packets_def eq ack_effect_def epoch_ok_def)
qed

lemma out_lose_mark: "out_count (map (lose_mark now) ps) = 0" "out_bytes (map (lose_mark now) ps) = 0"
  by (induction ps) auto

lemma out_pmtud_split: "out_bytes (filter (\<lambda>p. \<not> P p) ps) + out_bytes (filter P ps) = out_bytes ps"
  by (induction ps) auto

lemma detect_lost_eq:
  fixes e :: "('rep, 'src, 'meta) fepoch" and delay :: duration and thresh :: u64 and now :: time
  assumes "epoch_ok e"
  defines "largest \<equiv> case re_largest_acked_packet e of Some n \<Rightarrow> n | None \<Rightarrow> 0"
    and "ldelay \<equiv> max delay GRANULARITY"
  defines "lost \<equiv> takeWhile (scanned ldelay thresh largest now) (re_sent_packets e)"
    and "rest \<equiv> dropWhile (scanned ldelay thresh largest now) (re_sent_packets e)"
  shows "\<exists>e' l. epoch_detect_lost_packets delay thresh now e = Some (e', l)
    \<and> re_sent_packets e' = map (lose_mark now) lost @ rest \<and> epoch_ok e'
    \<and> re_loss_time e' = next_loss_time ldelay largest rest
    \<and> re_lost_frames e' = re_lost_frames e @ concat (map (\<lambda>p. lost_frames_of False (st_frames p)) (filter pending lost))
    \<and> re_largest_acked_packet e' = re_largest_acked_packet e
    \<and> ld_lost_packets l = length (filter (\<lambda>p. pending p \<and> \<not> st_pmtud p) lost)
    \<and> ld_lost_bytes l + ld_pmtud_lost_bytes l + out_bytes (re_sent_packets e') = out_bytes (re_sent_packets e)
    \<and> (ld_largest_lost_pkt l = None \<longrightarrow> ld_lost_bytes l = 0)"
proof -
  let ?ps = "re_sent_packets e"
  have ps: "lost @ rest = ?ps" by (simp add: lost_def rest_def)
  have ok: "pkt_sorted (lost @ rest)" "re_in_flight_count e = out_count (lost @ rest)"
    "\<forall>p \<in> set (lost @ rest). st_pmtud p \<longrightarrow> st_in_flight p" using assms(1) by (simp_all add: epoch_ok_def ps)
  let ?l = "\<lparr>ld_largest_lost_pkt = None, ld_lost_packets = 0, ld_lost_bytes = 0, ld_pmtud_lost_bytes = 0\<rparr>
    :: ('rep, 'src, 'meta) floss"
  let ?s = "lose_effect now lost (e\<lparr>re_loss_time := None\<rparr>, ?l)"
  have "out_count (takeWhile (scanned ldelay thresh largest now) ?ps) \<le> re_in_flight_count (fst (e\<lparr>re_loss_time := None\<rparr>, ?l))"
    unfolding lost_def [symmetric] using ok(2) by simp
  note eq = lose_packets_eq [OF this, folded lost_def rest_def]
  have run: "epoch_detect_lost_packets delay thresh now e = Some ((fst ?s)\<lparr>re_loss_time := next_loss_time ldelay largest rest,
      re_sent_packets := map (lose_mark now) lost @ rest\<rparr>, snd ?s)"
    using eq ok(3) ps by (simp add: epoch_detect_lost_packets_def largest_def [symmetric] ldelay_def [symmetric] Let_def)
  have so: "pkt_sorted (map (lose_mark now) lost @ rest)"
    using ok(1) by (simp add: pkt_sorted_append pkt_sorted_map)
  have zero: "out_bytes (filter (\<lambda>p. \<not> st_pmtud p) lost) = 0" if "filter (\<lambda>p. outstanding p \<and> \<not> st_pmtud p) lost = []"
    using that by (auto simp: out_bytes_def filter_empty_conv)
  show ?thesis unfolding run
    using so ok(2,3) out_pmtud_split [of st_pmtud lost] zero ps [symmetric] out_lose_mark
    by (auto simp: lose_effect_def epoch_ok_def out_lose_mark split: list.splits)
qed

lemma detect_lost_ok:
  fixes e :: "('rep, 'src, 'meta) fepoch"
  assumes "epoch_ok e"
  shows "\<exists>e' l xs ys. epoch_detect_lost_packets delay thresh now e = Some (e', l) \<and> epoch_ok e'
    \<and> re_sent_packets e = xs @ ys \<and> re_sent_packets e' = map (lose_mark now) xs @ ys
    \<and> ld_lost_bytes l + ld_pmtud_lost_bytes l + out_bytes (re_sent_packets e') = out_bytes (re_sent_packets e)
    \<and> (ld_largest_lost_pkt l = None \<longrightarrow> ld_lost_bytes l = 0)"
proof -
  define P :: "('rep, 'src, 'meta) fsent \<Rightarrow> bool"
    where "P = scanned (max delay GRANULARITY) thresh (case re_largest_acked_packet e of Some n \<Rightarrow> n | None \<Rightarrow> 0) now"
  have ps: "re_sent_packets e = takeWhile P (re_sent_packets e) @ dropWhile P (re_sent_packets e)" by simp
  from detect_lost_eq [OF assms, of delay thresh now, folded P_def] show ?thesis
    by (elim exE conjE) (intro exI conjI, assumption, assumption, rule ps)
qed

subsection \<open>The invariant of the recovery state\<close>

text \<open>
  The bytes in flight are the sizes of the outstanding packets of the three epochs; \<open>k\<close> is what an
  operation in progress has still to subtract.
\<close>

definition rc_outstanding :: "('rep, 'src, 'meta, 'bbr) recovery \<Rightarrow> nat" where
  "rc_outstanding r = out_bytes (re_sent_packets (rc_epoch r Epoch_Initial))
     + out_bytes (re_sent_packets (rc_epoch r Epoch_Handshake)) + out_bytes (re_sent_packets (rc_epoch r Epoch_Application))"

definition rc_inv :: "nat \<Rightarrow> ('rep, 'src, 'meta, 'bbr) recovery \<Rightarrow> bool" where
  "rc_inv k r \<longleftrightarrow> (\<forall>e. epoch_ok (rc_epoch r e)) \<and> rc_bytes_in_flight r = rc_outstanding r + k
     \<and> (\<forall>e. delivered_le (rt_delivered (cg_delivery_rate (rc_congestion r))) (rc_epoch r e))
     \<and> cg_ok (rc_congestion r) \<and> rate_ok (cg_delivery_rate (rc_congestion r))
     \<and> 0 < rc_max_datagram_size r \<and> rc_bytes_lost r = 0"

lemma rc_upd_epoch_simps [simp]:
  "rc_epochs (rc_upd_epoch e f r) = (rc_epochs r)(e := f (rc_epochs r e))"
  "rc_congestion (rc_upd_epoch e f r) = rc_congestion r" "rc_bytes_in_flight (rc_upd_epoch e f r) = rc_bytes_in_flight r"
  "rc_pto_count (rc_upd_epoch e f r) = rc_pto_count r" "rc_rtt_stats (rc_upd_epoch e f r) = rc_rtt_stats r"
  "rc_bytes_lost (rc_upd_epoch e f r) = rc_bytes_lost r" "rc_newly_acked (rc_upd_epoch e f r) = rc_newly_acked r"
  "rc_max_datagram_size (rc_upd_epoch e f r) = rc_max_datagram_size r" "rc_loss_timer (rc_upd_epoch e f r) = rc_loss_timer r"
  "rc_pkt_thresh (rc_upd_epoch e f r) = rc_pkt_thresh r" "rc_time_thresh (rc_upd_epoch e f r) = rc_time_thresh r"
  by (simp_all add: rc_upd_epoch_def)

lemma rc_outstanding_upd:
  "rc_outstanding (rc_upd_epoch e f r) + out_bytes (re_sent_packets (rc_epoch r e))
     = rc_outstanding r + out_bytes (re_sent_packets (f (rc_epoch r e)))"
  by (cases e) (simp_all add: rc_outstanding_def)

lemma rc_outstanding_le: "out_bytes (re_sent_packets (rc_epoch r e)) \<le> rc_outstanding r"
  by (cases e) (simp_all add: rc_outstanding_def)

lemma rc_inv_cong:
  "rc_inv k r \<Longrightarrow> rc_epochs r' = rc_epochs r \<Longrightarrow> rc_bytes_in_flight r' = rc_bytes_in_flight r \<Longrightarrow>
   rc_congestion r' = rc_congestion r \<Longrightarrow> rc_max_datagram_size r' = rc_max_datagram_size r \<Longrightarrow>
   rc_bytes_lost r' = rc_bytes_lost r \<Longrightarrow> rc_inv k r'"
  by (simp add: rc_inv_def rc_outstanding_def)

text \<open>Replacing an epoch, and the congestion state.\<close>

lemma rc_inv_upd:
  assumes "rc_inv k r" "epoch_ok (f (rc_epoch r e))"
    "delivered_le (rt_delivered (cg_delivery_rate (rc_congestion r))) (f (rc_epoch r e))"
    "out_bytes (re_sent_packets (f (rc_epoch r e))) + d = out_bytes (re_sent_packets (rc_epoch r e))"
  shows "rc_inv (k + d) (rc_upd_epoch e f r)"
proof -
  have "rc_outstanding (rc_upd_epoch e f r) + d = rc_outstanding r"
    using rc_outstanding_upd [of e f r] assms(4) by linarith
  with assms show ?thesis by (simp add: rc_inv_def)
qed

lemma rc_inv_congestion:
  assumes "rc_inv k r" "cg_ok c" "rate_ok (cg_delivery_rate c)"
    "rt_delivered (cg_delivery_rate (rc_congestion r)) \<le> rt_delivered (cg_delivery_rate c)"
  shows "rc_inv k (r\<lparr>rc_congestion := c\<rparr>)"
  using assms by (force simp: rc_inv_def rc_outstanding_def delivered_le_def)

lemma rc_inv_drain: "rc_inv k r \<Longrightarrow> rc_inv k (rc_upd_epoch e (drain_acked_and_lost_packets t) r)"
  using rc_inv_upd [where d = 0] drain_ok unfolding rc_inv_def by (metis add_0_right)

text \<open>The timer only changes the timer, and the backoff factor does not overflow.\<close>

lemma pto_loop_Some: "rc_pto_count r < 32 \<Longrightarrow> \<exists>x. pto_loop hs r es d t sp = Some x"
  by (induction es arbitrary: d t sp) (auto simp: u32_pow2_def Let_def)

lemma pto_time_Some: "rc_pto_count r < 32 \<Longrightarrow> \<exists>x. pto_time_and_space hs now r = Some x"
  using pto_loop_Some by (simp add: pto_time_and_space_def u32_pow2_def Let_def)

lemma set_timer_Some:
  assumes "rc_pto_count r < 32"
  shows "\<exists>t. set_loss_detection_timer hs now r = Some (r\<lparr>rc_loss_timer := t\<rparr>)"
proof -
  have same: "\<exists>t. r = r\<lparr>rc_loss_timer := t\<rparr>" by (rule exI [of _ "rc_loss_timer r"]) simp
  obtain x y where "pto_time_and_space hs now r = Some (x, y)" using pto_time_Some [OF assms] by (metis surj_pair)
  then show ?thesis using same
    by (cases x) (auto simp: set_loss_detection_timer_def split: option.splits)
qed

lemma set_timer_inv:
  assumes "rc_inv k r" "rc_pto_count r < 32"
  shows "\<exists>r'. set_loss_detection_timer hs now r = Some r' \<and> rc_inv k r' \<and> rc_epochs r' = rc_epochs r
    \<and> rc_pto_count r' = rc_pto_count r \<and> rc_congestion r' = rc_congestion r \<and> rc_bytes_in_flight r' = rc_bytes_in_flight r"
proof -
  obtain t where "set_loss_detection_timer hs now r = Some (r\<lparr>rc_loss_timer := t\<rparr>)" using set_timer_Some [OF assms(2)] by blast
  moreover have "rc_inv k (r\<lparr>rc_loss_timer := t\<rparr>)" by (rule rc_inv_cong [OF assms(1)]) simp_all
  ultimately show ?thesis by simp
qed

lemma note_loss_epoch_same: "cg_view (note_loss_epoch now n c) = cg_view c \<and> cg_keeps c (note_loss_epoch now n c)"
  by (auto simp: note_loss_epoch_def cg_view_def cg_keeps_def split: option.splits)

lemma rs_last_bound:
  assumes "ranges_wf (rs_iter ranges)" "ranges_nonempty (rs_iter ranges)" "rs_iter ranges \<noteq> []"
  shows "\<exists>l. rs_last ranges = Ok (Some l) \<and> (\<forall>(s, t) \<in> set (rs_iter ranges). t \<le> l + 1)"
proof -
  obtain xs s t where xs: "rs_iter ranges = xs @ [(s, t)]" using assms(3) by (metis append_butlast_last_id prod.collapse)
  have "s < t" using assms(2) by (simp add: xs ranges_nonempty_def)
  moreover have "\<forall>(a, b) \<in> set xs. b < s" using assms(1) by (auto simp: xs ranges_wf_append)
  moreover have "rs_last ranges = Ok (Some (t - 1))"
    using xs \<open>s < t\<close> by (cases ranges) (simp_all add: rs_last_def rs_iter_def bt_last_def u64_sub_def)
  ultimately show ?thesis by (intro exI [of _ "t - 1"]) (fastforce simp: xs)
qed

locale recovery_controller = controller ops room
  for ops :: "(('rep, 'src, 'meta) frame, 'bbr) cc_ops" and room
begin

lemma congestion_on_loss_ok:
  assumes "rc_inv k r" "room n (rc_congestion r)" "ld_lost_bytes loss \<le> rc_bytes_in_flight r"
    "ld_largest_lost_pkt loss = None \<Longrightarrow> ld_lost_bytes loss = 0"
  shows "\<exists>c. congestion_on_loss ops now loss r =
      Some (r\<lparr>rc_congestion := c, rc_bytes_in_flight := rc_bytes_in_flight r - ld_lost_bytes loss\<rparr>)
    \<and> cg_ok c \<and> cg_keeps (rc_congestion r) c \<and> room n c"
proof (cases "ld_largest_lost_pkt loss")
  case None
  then show ?thesis using assms by (intro exI [of _ "rc_congestion r"]) (simp add: congestion_on_loss_def rc_inv_def cg_keeps_refl)
next
  case (Some pkt)
  define c where "c = (if \<not> in_congestion_recovery (st_time_sent pkt) (rc_congestion r) then op_checkpoint ops (rc_congestion r) else rc_congestion r)"
  have c: "cg_ok c" "cg_keeps (rc_congestion r) c" "room n c"
    using checkpoint_ok checkpoint_room assms(1,2) by (auto simp: c_def rc_inv_def cg_keeps_refl)
  obtain c' where "op_congestion_event ops (rc_bytes_in_flight r) (ld_lost_bytes loss) pkt now c = Some c'" "cg_ok c'"
      "cg_keeps c c'" "room n c'" using event_ok [OF c(1,3)] by blast
  then show ?thesis using Some assms(3) c cg_keeps_trans by (auto simp: congestion_on_loss_def c_def [symmetric] Let_def)
qed

lemma detect_lost_inv:
  assumes "rc_inv k r" "room n (rc_congestion r)"
  shows "\<exists>r' a b. rc_detect_lost_packets F ops e now r = Some (r', a, b) \<and> rc_inv k r' \<and> room n (rc_congestion r')
    \<and> cg_delivery_rate (rc_congestion r') = cg_delivery_rate (rc_congestion r)
    \<and> rc_newly_acked r' = rc_newly_acked r \<and> rc_pto_count r' = rc_pto_count r"
proof -
  have ok: "epoch_ok (rc_epoch r e)" using assms(1) by (simp add: rc_inv_def)
  obtain ep loss xs ys where d: "epoch_detect_lost_packets (rc_loss_delay F r) (rc_pkt_thresh r) now (rc_epoch r e) = Some (ep, loss)"
      "epoch_ok ep" "ld_lost_bytes loss + ld_pmtud_lost_bytes loss + out_bytes (re_sent_packets ep) = out_bytes (re_sent_packets (rc_epoch r e))"
      "ld_largest_lost_pkt loss = None \<longrightarrow> ld_lost_bytes loss = 0"
    and ps: "re_sent_packets ep = map (lose_mark now) xs @ ys" "re_sent_packets (rc_epoch r e) = xs @ ys"
    using detect_lost_ok [OF ok, of "rc_loss_delay F r" "rc_pkt_thresh r" now] by (elim exE conjE) (rule that)
  let ?r1 = "rc_upd_epoch e (\<lambda>_. ep) r"
  let ?c1 = "note_loss_epoch now (ld_lost_packets loss) (rc_congestion r)"
  have dl: "delivered_le (rt_delivered (cg_delivery_rate (rc_congestion r))) ep"
  proof -
    have "delivered_le (rt_delivered (cg_delivery_rate (rc_congestion r))) (rc_epoch r e)"
      using assms(1) by (simp add: rc_inv_def)
    then show ?thesis by (auto simp: delivered_le_def ps)
  qed
  have r1: "rc_inv (k + (ld_lost_bytes loss + ld_pmtud_lost_bytes loss)) ?r1"
    using d(2,3) dl by (intro rc_inv_upd assms) auto
  have view: "cg_view ?c1 = cg_view (rc_congestion r)" and keeps: "cg_keeps (rc_congestion r) ?c1"
    using note_loss_epoch_same by blast+
  have "cg_ok (rc_congestion r)" using assms(1) by (simp add: rc_inv_def)
  then have "cg_ok ?c1" using view keeps by (simp add: cg_ok_def cg_keeps_def cg_view_def)
  with keeps have c1: "cg_ok ?c1" "cg_keeps (rc_congestion r) ?c1" "room n ?c1"
    using room_view [OF view] assms(2) by simp_all
  have r2: "rc_inv (k + (ld_lost_bytes loss + ld_pmtud_lost_bytes loss)) (?r1\<lparr>rc_congestion := ?c1\<rparr>)"
    using r1 c1 by (intro rc_inv_congestion) (auto simp: cg_keeps_def rc_inv_def)
  then have le: "ld_lost_bytes loss + ld_pmtud_lost_bytes loss \<le> rc_bytes_in_flight r" by (simp add: rc_inv_def)
  obtain c2 where c2: "congestion_on_loss ops now loss (?r1\<lparr>rc_congestion := ?c1\<rparr>) =
      Some (?r1\<lparr>rc_congestion := c2, rc_bytes_in_flight := rc_bytes_in_flight r - ld_lost_bytes loss\<rparr>)"
      "cg_ok c2" "cg_keeps ?c1 c2" "room n c2"
    using congestion_on_loss_ok [OF r2, of n loss now] c1(3) le d(4) by auto
  let ?c3 = "c2\<lparr>cg_lost_count := cg_lost_count c2 + ld_lost_packets loss\<rparr>"
  have "cg_view ?c3 = cg_view c2" by (simp add: cg_view_def)
  then have "room n ?c3" using room_view c2(4) by blast
  moreover have k: "cg_delivery_rate ?c3 = cg_delivery_rate (rc_congestion r)" "cg_ok ?c3"
    using c1(2) c2(2,3) by (simp_all add: cg_keeps_def cg_ok_def)
  let ?r4 = "?r1\<lparr>rc_bytes_in_flight := rc_bytes_in_flight r - ld_lost_bytes loss - ld_pmtud_lost_bytes loss, rc_congestion := ?c3\<rparr>"
  have "rc_inv k ?r4" using r1 le k by (simp add: rc_inv_def rc_outstanding_def)
  from rc_inv_drain [OF this, of e "now - int (rtt_rtt (rc_rtt_stats r))"]
  have "rc_inv k (r\<lparr>rc_bytes_in_flight := rc_bytes_in_flight r - (ld_lost_bytes loss + ld_pmtud_lost_bytes loss),
      rc_epochs := (rc_epoch r)(e := drain_acked_and_lost_packets (now - int (rtt_rtt (rc_rtt_stats r))) ep), rc_congestion := ?c3\<rparr>)"
    by (rule rc_inv_cong) simp_all
  ultimately show ?thesis using d(1) c2(1) le k(1)
    by (simp add: rc_detect_lost_packets_def Let_def rc_upd_epoch_def)
qed

text \<open>Acknowledgements.\<close>

lemma process_newly_acked_inv:
  assumes inv: "rc_inv (ad_acked_bytes d) r" and room: "room n (rc_congestion r)" "length (rc_newly_acked r) \<le> n"
    and del: "\<forall>a \<in> set (rc_newly_acked r). ak_delivered a \<le> rt_delivered (cg_delivery_rate (rc_congestion r))"
  shows "\<exists>r' x. process_newly_acked F div_f32 ops largest delay e hs now d r = Some (r', x) \<and> rc_inv 0 r'"
proof -
  let ?r1 = "r\<lparr>rc_rtt_stats := rc_update_rtt div_f32 largest delay hs now (ad_has_ack_eliciting d) (rc_newly_acked r) (rc_rtt_stats r)\<rparr>"
  have inv1: "rc_inv (ad_acked_bytes d) ?r1" by (rule rc_inv_cong [OF inv]) simp_all
  have room1: "room n (rc_congestion ?r1)" using room by simp
  obtain r2 a b where r2: "rc_detect_lost_packets F ops e now ?r1 = Some (r2, a, b)" "rc_inv (ad_acked_bytes d) r2"
      "room n (rc_congestion r2)" "cg_delivery_rate (rc_congestion r2) = cg_delivery_rate (rc_congestion ?r1)"
      "rc_newly_acked r2 = rc_newly_acked ?r1"
    using detect_lost_inv [OF inv1 room1, of F e now] by (elim exE conjE) (rule that)
  have ok: "cg_ok (rc_congestion r2)" "rate_ok (cg_delivery_rate (rc_congestion r2))" using r2(2) by (simp_all add: rc_inv_def)
  have "room (length (rc_newly_acked r2)) (rc_congestion r2)" using room_mono [OF r2(3)] room(2) r2(5) by simp
  moreover have "\<forall>a \<in> set (rc_newly_acked r2). ak_delivered a \<le> rt_delivered (cg_delivery_rate (rc_congestion r2))"
    using del r2(4,5) by simp
  ultimately obtain c left where c: "cg_on_packets_acked F ops (rc_bytes_in_flight r2) (rc_newly_acked r2) (rc_rtt_stats r2) now (rc_congestion r2) = Some (c, left)"
      "cg_ok c" "rate_ok (cg_delivery_rate c)"
      "rt_delivered (cg_delivery_rate c) = rt_delivered (cg_delivery_rate (rc_congestion r2)) + sum_list (map ak_size (rc_newly_acked r2))"
    using packets_acked_ok [OF ok(1) _ ok(2), of "rc_newly_acked r2" F "rc_bytes_in_flight r2" "rc_rtt_stats r2" now] by metis
  let ?r3 = "r2\<lparr>rc_congestion := c, rc_newly_acked := left, rc_bytes_in_flight := rc_bytes_in_flight r2 - ad_acked_bytes d, rc_pto_count := 0\<rparr>"
  have le: "ad_acked_bytes d \<le> rc_bytes_in_flight r2" using r2(2) by (simp add: rc_inv_def)
  have "rc_inv (ad_acked_bytes d) (r2\<lparr>rc_congestion := c\<rparr>)" using c by (intro rc_inv_congestion r2(2)) auto
  then have "rc_inv 0 ?r3" by (simp add: rc_inv_def rc_outstanding_def)
  from set_timer_inv [OF this, of hs now] obtain r4 where r4: "set_loss_detection_timer hs now ?r3 = Some r4" "rc_inv 0 r4" by auto
  show ?thesis using r2(1) c(1) le r4 rc_inv_drain [OF r4(2)] by (simp add: process_newly_acked_def)
qed

lemma ack_received_inv:
  assumes inv: "rc_inv 0 r" and wf: "ranges_wf (rs_iter ranges)" "ranges_nonempty (rs_iter ranges)" "rs_iter ranges \<noteq> []"
    and room: "room (length (re_sent_packets (rc_epoch r e))) (rc_congestion r)"
  shows "\<exists>r' x. rc_on_ack_received F div_f32 ops ranges delay e hs now r = Some (r', x) \<and> rc_inv 0 r'"
proof -
  obtain l where l: "rs_last ranges = Ok (Some l)" "\<forall>(s, t) \<in> set (rs_iter ranges). t \<le> l + 1"
    using rs_last_bound [OF wf] by blast
  define largest where "largest = max (case re_largest_acked_packet (rc_epoch r e) of Some n \<Rightarrow> n | None \<Rightarrow> 0) l"
  define r1 where "r1 = rc_upd_epoch e (\<lambda>e. e\<lparr>re_largest_acked_packet := Some largest\<rparr>) r"
  let ?ps = "re_sent_packets (rc_epoch r e)" and ?n = "rt_delivered (cg_delivery_rate (rc_congestion r))" and ?in = "in_ranges (rs_iter ranges)"
  have inv1: "rc_inv 0 r1" using rc_inv_upd [OF inv, of "\<lambda>e. e\<lparr>re_largest_acked_packet := Some largest\<rparr>" e 0] inv
    by (simp add: r1_def rc_inv_def epoch_ok_def delivered_le_def)
  have e1: "re_sent_packets (rc_epoch r1 e) = ?ps" "re_largest_acked_packet (rc_epoch r1 e) = Some largest"
    "rc_congestion r1 = rc_congestion r" by (simp_all add: r1_def)
  have up: "\<forall>(s, t) \<in> set (rs_iter ranges). t \<le> largest + 1" using l(2) by (fastforce simp: largest_def)
  have ok1: "epoch_ok (rc_epoch r1 e)" "delivered_le ?n (rc_epoch r1 e)" using inv1 e1(3) by (simp_all add: rc_inv_def)
  define nw where "nw = map (acked_of now) (filter pending (filter ?in ?ps))"
  obtain e' d where d: "detect_and_remove_acked_packets now ranges (rc_rtt_stats r1) (rc_epoch r1 e) =
        Some (drain_acked_and_lost_packets (now - int (rtt_rtt (rc_rtt_stats r1))) e', nw, d)"
      "re_sent_packets e' = map (\<lambda>p. if ?in p then ack_mark now p else p) ?ps"
      "epoch_ok e'" "ad_acked_bytes d + out_bytes (re_sent_packets e') = out_bytes ?ps"
    using detect_acked_eq [OF ok1(1) e1(2) wf(1) up, where now = now and rtt = "rc_rtt_stats r1", unfolded e1, folded nw_def]
    by (elim exE conjE) (rule that)
  define ep where "ep = drain_acked_and_lost_packets (now - int (rtt_rtt (rc_rtt_stats r1))) e'"
  have "delivered_le ?n e'" using ok1(2) by (auto simp: delivered_le_def d(2) e1)
  then have inv2: "rc_inv (0 + ad_acked_bytes d) (rc_upd_epoch e (\<lambda>_. ep) r1)"
    using drain_ok [OF d(3), of "now - int (rtt_rtt (rc_rtt_stats r1))" ?n, folded ep_def] d(4) e1
    by (intro rc_inv_upd inv1) auto
  define c where "c = (if ad_has_in_flight_spurious_loss d then snd (op_rollback ops (rc_congestion r)) else rc_congestion r)"
  have c: "cg_ok c" "cg_keeps (rc_congestion r) c" "room (length ?ps) c"
    using rollback_ok rollback_room inv room by (auto simp: c_def rc_inv_def cg_keeps_refl)
  define r3 where "r3 = note_acked ops e ep nw d r1"
  have r3: "rc_epochs r3 = rc_epochs (rc_upd_epoch e (\<lambda>_. ep) r1)" "rc_congestion r3 = c" "rc_newly_acked r3 = nw"
    "rc_bytes_in_flight r3 = rc_bytes_in_flight r1" "rc_max_datagram_size r3 = rc_max_datagram_size r1"
    "rc_bytes_lost r3 = rc_bytes_lost r1"
    using e1(3) by (simp_all add: r3_def note_acked_def c_def Let_def)
  have "rc_inv (ad_acked_bytes d) ((rc_upd_epoch e (\<lambda>_. ep) r1)\<lparr>rc_congestion := c\<rparr>)"
    using inv2 c e1(3) by (intro rc_inv_congestion) (auto simp: cg_keeps_def rc_inv_def)
  then have inv3: "rc_inv (ad_acked_bytes d) r3" by (rule rc_inv_cong) (simp_all add: r3)
  have run: "rc_on_ack_received F div_f32 ops ranges delay e hs now r =
     (if nw = [] then Some (r3, 0, 0, 0) else process_newly_acked F div_f32 ops largest delay e hs now d r3)"
    using d(1) unfolding ep_def [symmetric] by (simp add: rc_on_ack_received_def l(1) largest_def [symmetric] r1_def r3_def)
  show ?thesis
  proof (cases "nw = []")
    case True
    then have "out_bytes (filter ?in ?ps) = 0" by (auto simp: nw_def out_bytes_def outstanding_def filter_empty_conv)
    then have "ad_acked_bytes d = 0" using out_mark(2) [of ?in now ?ps] d(2,4) by simp
    then show ?thesis using True run inv3 by simp
  next
    case False
    have "length nw \<le> length ?ps" using length_filter_le le_trans by (fastforce simp: nw_def)
    moreover have "\<forall>a \<in> set nw. ak_delivered a \<le> ?n" using ok1(2) by (auto simp: nw_def acked_of_def delivered_le_def e1)
    ultimately show ?thesis
      using False run process_newly_acked_inv [OF inv3, of "length ?ps"] c(2,3) by (simp add: r3 cg_keeps_def)
  qed
qed

end

subsection \<open>Reachable states\<close>

text \<open>
  The calls a connection makes, with what it guarantees: packet numbers grow, a packet is handed
  over before it is acknowledged or lost, a PMTUD probe counts as in flight, the ranges of an
  acknowledgement are well formed and not empty, the datagram size is positive.  The backoff
  exponent has to fit: \<open>rc_pto_count\<close> below 32.
\<close>

datatype ('rep, 'src, 'meta) rc_event =
    PacketSent "('rep, 'src, 'meta) fsent" epoch handshake_status time
  | AckReceived range_set u64 epoch handshake_status time
  | SourceSymbolAckReceived range_set epoch
  | LossDetectionTimeout handshake_status time
  | PktNumSpaceDiscarded epoch handshake_status time
  | PathChange epoch time
  | GetAckedFrames epoch
  | GetLostFrames epoch
  | PingSent epoch
  | PmtudUpdateMaxDatagramSize time usize
  | UpdateMaxDatagramSize time usize
  | UpdateAppLimited bool
  | DeliveryRateUpdateAppLimited bool
  | UpdateMaxAckDelay duration
  | SetSendQuantum usize

fun rc_step ::
  "f64_ops \<Rightarrow> (duration \<Rightarrow> nat \<Rightarrow> duration) \<Rightarrow> ('meta \<Rightarrow> u64) \<Rightarrow> ('rep, 'src, 'meta, 'bbr) rec_ops
     \<Rightarrow> ('rep, 'src, 'meta) rc_event \<Rightarrow> ('rep, 'src, 'meta, 'bbr) recovery \<Rightarrow> ('rep, 'src, 'meta, 'bbr) recovery option" where
  "rc_step F div_f32 to_u64 ops (PacketSent pkt e hs now) r = rc_on_packet_sent F ops pkt e hs now r"
| "rc_step F div_f32 to_u64 ops (AckReceived ranges delay e hs now) r =
     map_option fst (rc_on_ack_received F div_f32 ops ranges delay e hs now r)"
| "rc_step F div_f32 to_u64 ops (SourceSymbolAckReceived ranges e) r = on_source_symbol_ack_received to_u64 ranges e r"
| "rc_step F div_f32 to_u64 ops (LossDetectionTimeout hs now) r = map_option fst (on_loss_detection_timeout F ops hs now r)"
| "rc_step F div_f32 to_u64 ops (PktNumSpaceDiscarded e hs now) r = on_pkt_num_space_discarded e hs now r"
| "rc_step F div_f32 to_u64 ops (PathChange e now) r = map_option fst (on_path_change F ops e now r)"
| "rc_step F div_f32 to_u64 ops (GetAckedFrames e) r = Some (snd (get_acked_frames e r))"
| "rc_step F div_f32 to_u64 ops (GetLostFrames e) r = Some (snd (get_lost_frames e r))"
| "rc_step F div_f32 to_u64 ops (PingSent e) r = Some (ping_sent e r)"
| "rc_step F div_f32 to_u64 ops (PmtudUpdateMaxDatagramSize now n) r = pmtud_update_max_datagram_size now n r"
| "rc_step F div_f32 to_u64 ops (UpdateMaxDatagramSize now n) r = update_max_datagram_size now n r"
| "rc_step F div_f32 to_u64 ops (UpdateAppLimited v) r = Some (rc_update_app_limited v r)"
| "rc_step F div_f32 to_u64 ops (DeliveryRateUpdateAppLimited v) r = Some (delivery_rate_update_app_limited v r)"
| "rc_step F div_f32 to_u64 ops (UpdateMaxAckDelay d) r = Some (update_max_ack_delay d r)"
| "rc_step F div_f32 to_u64 ops (SetSendQuantum v) r = Some (rc_set_send_quantum v r)"

fun rc_allowed ::
  "(nat \<Rightarrow> 'bbr congestion \<Rightarrow> bool) \<Rightarrow> ('rep, 'src, 'meta) rc_event \<Rightarrow> ('rep, 'src, 'meta, 'bbr) recovery \<Rightarrow> bool" where
  "rc_allowed room (PacketSent pkt e hs now) r \<longleftrightarrow>
     pending pkt \<and> (st_pmtud pkt \<longrightarrow> st_in_flight pkt) \<and> rc_pto_count r < 32
   \<and> (\<forall>p \<in> set (re_sent_packets (rc_epoch r e)). st_pkt_num p < st_pkt_num pkt)"
| "rc_allowed room (AckReceived ranges delay e hs now) r \<longleftrightarrow>
     ranges_wf (rs_iter ranges) \<and> ranges_nonempty (rs_iter ranges) \<and> rs_iter ranges \<noteq> []
   \<and> room (length (re_sent_packets (rc_epoch r e))) (rc_congestion r)"
| "rc_allowed room (SourceSymbolAckReceived ranges e) r \<longleftrightarrow> ranges_nonempty (rs_iter ranges)"
| "rc_allowed room (LossDetectionTimeout hs now) r \<longleftrightarrow> rc_pto_count r < 31 \<and> room 0 (rc_congestion r)"
| "rc_allowed room (PktNumSpaceDiscarded e hs now) r \<longleftrightarrow> rc_pto_count r < 32"
| "rc_allowed room (PathChange e now) r \<longleftrightarrow> room 0 (rc_congestion r)"
| "rc_allowed room (PmtudUpdateMaxDatagramSize now n) r \<longleftrightarrow> 0 < n"
| "rc_allowed room (UpdateMaxDatagramSize now n) r \<longleftrightarrow> 0 < n"
| "rc_allowed room _ r \<longleftrightarrow> True"

inductive rc_reachable ::
  "f64_ops \<Rightarrow> (duration \<Rightarrow> nat \<Rightarrow> duration) \<Rightarrow> ('meta \<Rightarrow> u64) \<Rightarrow> ('rep, 'src, 'meta, 'bbr) rec_ops
     \<Rightarrow> (nat \<Rightarrow> 'bbr congestion \<Rightarrow> bool) \<Rightarrow> ('rep, 'src, 'meta, 'bbr) recovery \<Rightarrow> bool"
  for F div_f32 to_u64 ops room where
  reach_new: "rc_new_with_config F ops bbr now cf = Some r \<Longrightarrow> 0 < rf_max_send_udp_payload_size cf \<Longrightarrow>
     0 < rf_initial_congestion_window_packets cf \<Longrightarrow> rc_reachable F div_f32 to_u64 ops room r"
| reach_step: "rc_reachable F div_f32 to_u64 ops room r \<Longrightarrow> rc_allowed room ev r \<Longrightarrow>
     rc_step F div_f32 to_u64 ops ev r = Some r' \<Longrightarrow> rc_reachable F div_f32 to_u64 ops room r'"

lemma rc_inv_upd_same:
  assumes "rc_inv k r" "re_sent_packets (f (rc_epoch r e)) = re_sent_packets (rc_epoch r e)"
    "re_in_flight_count (f (rc_epoch r e)) = re_in_flight_count (rc_epoch r e)"
  shows "rc_inv k (rc_upd_epoch e f r)"
  using rc_inv_upd [of k r f e 0] assms by (simp add: rc_inv_def epoch_ok_def delivered_le_def)

lemma recover_ranges_ok:
  assumes "ranges_nonempty rs"
  shows "\<exists>qs. recover_ranges to_u64 rs ps = Some qs
    \<and> list_all2 (\<lambda>p p'. \<exists>fs. p' = p\<lparr>st_frames := fs\<rparr>) ps qs"
  using assms
proof (induction rs arbitrary: ps)
  case Nil
  have "\<exists>fs. p = p\<lparr>st_frames := fs\<rparr>" for p :: "('a, 'b, 'c) fsent" by (rule exI [of _ "st_frames p"]) simp
  then show ?case by (simp add: list_all2_same)
next
  case (Cons r rs)
  obtain lo hi where r: "r = (lo, hi)" by (cases r)
  then have lt: "0 < hi" "ranges_nonempty rs" using Cons.prems by (auto simp: ranges_nonempty_def)
  let ?f = "\<lambda>p :: ('a, 'b, 'c) fsent. if st_time_acked p = None
      then p\<lparr>st_frames := map (mark_recovered to_u64 lo (hi - Suc 0)) (st_frames p)\<rparr> else p"
  obtain qs where qs: "recover_ranges to_u64 rs (map ?f ps) = Some qs"
      "list_all2 (\<lambda>p p'. \<exists>fs. p' = p\<lparr>st_frames := fs\<rparr>) (map ?f ps) qs" using Cons.IH [OF lt(2)] by blast
  have "\<exists>fs. p' = p\<lparr>st_frames := fs\<rparr>" if "\<exists>fs. p' = (?f p)\<lparr>st_frames := fs\<rparr>" for p p'
    using that by (auto split: if_splits)
  then have "list_all2 (\<lambda>p p'. \<exists>fs. p' = p\<lparr>st_frames := fs\<rparr>) ps qs"
    using qs(2) unfolding list_all2_map1 by (rule list_all2_mono [rotated]) blast
  then show ?case using qs(1) lt(1) by (simp add: r)
qed

lemma frames_only_ok:
  assumes "list_all2 (\<lambda>p p'. \<exists>fs. p' = p\<lparr>st_frames := fs\<rparr>) ps qs"
  shows "out_count qs = out_count ps \<and> out_bytes qs = out_bytes ps \<and> map st_pkt_num qs = map st_pkt_num ps
    \<and> ((\<forall>p \<in> set ps. st_pmtud p \<longrightarrow> st_in_flight p) \<longrightarrow> (\<forall>p \<in> set qs. st_pmtud p \<longrightarrow> st_in_flight p))
    \<and> ((\<forall>p \<in> set ps. st_delivered p \<le> n) \<longrightarrow> (\<forall>p \<in> set qs. st_delivered p \<le> n))"
  using assms by (induction rule: list_all2_induct) (auto simp: outstanding_def pending_def)

lemma pkt_sorted_nums: "map st_pkt_num qs = map st_pkt_num ps \<Longrightarrow> pkt_sorted ps \<Longrightarrow> pkt_sorted qs"
  using sorted_wrt_map [of "(<)" st_pkt_num ps] sorted_wrt_map [of "(<)" st_pkt_num qs] by (simp add: pkt_sorted_def)

lemma source_symbol_ack_inv:
  assumes "rc_inv k r" "ranges_nonempty (rs_iter ranges)"
  shows "\<exists>r'. on_source_symbol_ack_received to_u64 ranges e r = Some r' \<and> rc_inv k r'"
proof -
  obtain qs where qs: "recover_ranges to_u64 (rs_iter ranges) (re_sent_packets (rc_epoch r e)) = Some qs"
      "list_all2 (\<lambda>p p'. \<exists>fs. p' = p\<lparr>st_frames := fs\<rparr>) (re_sent_packets (rc_epoch r e)) qs"
    using recover_ranges_ok [OF assms(2)] by blast
  note f = frames_only_ok [OF qs(2), of "rt_delivered (cg_delivery_rate (rc_congestion r))"]
  have ok: "epoch_ok (rc_epoch r e)" "delivered_le (rt_delivered (cg_delivery_rate (rc_congestion r))) (rc_epoch r e)"
    using assms(1) by (simp_all add: rc_inv_def)
  have "pkt_sorted qs" using f ok(1) pkt_sorted_nums unfolding epoch_ok_def by blast
  then have "rc_inv (k + 0) (rc_upd_epoch e (\<lambda>e. e\<lparr>re_sent_packets := qs\<rparr>) r)"
    using f ok by (intro rc_inv_upd assms(1)) (simp_all add: epoch_ok_def delivered_le_def)
  then show ?thesis using qs(1) by (simp add: on_source_symbol_ack_received_def)
qed

lemma discarded_inv:
  assumes "rc_inv 0 r" "rc_pto_count r < 32"
  shows "\<exists>r'. on_pkt_num_space_discarded e hs now r = Some r' \<and> rc_inv 0 r'"
proof -
  let ?f = "\<lambda>e. e\<lparr>re_sent_packets := [], re_lost_frames := [], re_acked_frames := [],
      re_time_of_last_ack_eliciting_packet := None, re_loss_time := None, re_loss_probes := 0, re_in_flight_count := 0\<rparr>"
  let ?n = "out_bytes (re_sent_packets (rc_epoch r e))"
  have "rc_inv (0 + ?n) (rc_upd_epoch e ?f r)"
    by (rule rc_inv_upd [OF assms(1)]) (simp_all add: epoch_ok_def delivered_le_def)
  then have inv: "rc_inv 0 ((rc_upd_epoch e ?f r)\<lparr>rc_bytes_in_flight := rc_bytes_in_flight r - ?n\<rparr>)"
    by (simp add: rc_inv_def rc_outstanding_def)
  have "?n \<le> rc_bytes_in_flight r" using assms(1) rc_outstanding_le [of r e] by (simp add: rc_inv_def)
  moreover have "sum_list (map st_size (filter (\<lambda>p. st_in_flight p \<and> st_time_acked p = None
      \<and> st_time_lost p = None) (re_sent_packets (rc_epoch r e)))) = ?n"
    by (simp add: out_bytes_def outstanding_def [abs_def] pending_def [abs_def])
  ultimately show ?thesis using set_timer_inv [OF inv, of hs now] assms(2)
    by (auto simp: on_pkt_num_space_discarded_def Let_def)
qed

lemma datagram_size_inv:
  assumes "rc_inv k r" "0 < n"
  shows "\<exists>r'. pmtud_update_max_datagram_size now n r = Some r' \<and> rc_inv k r'"
  using assms by (simp add: pmtud_update_max_datagram_size_def pc_new_def rc_inv_def cg_ok_def rc_outstanding_def Let_def)

context recovery_controller
begin

lemma packet_sent_inv:
  assumes inv: "rc_inv 0 r" and al: "rc_allowed room (PacketSent pkt e hs now) r"
  shows "\<exists>r'. rc_on_packet_sent F ops pkt e hs now r = Some r' \<and> rc_inv 0 r'"
proof -
  define r1 where "r1 = (let r = r\<lparr>rc_outstanding_non_ack_eliciting :=
      (if st_ack_eliciting pkt then 0 else rc_outstanding_non_ack_eliciting r + 1)\<rparr> in
    if st_in_flight pkt \<and> st_ack_eliciting pkt
    then rc_upd_epoch e (\<lambda>e. e\<lparr>re_time_of_last_ack_eliciting_packet := Some now\<rparr>) r else r)"
  have same: "rc_pto_count r1 = rc_pto_count r" "rc_bytes_in_flight r1 = rc_bytes_in_flight r" "rc_congestion r1 = rc_congestion r"
    "re_sent_packets (rc_epoch r1 e) = re_sent_packets (rc_epoch r e)"
    by (simp_all add: r1_def Let_def)
  have "rc_inv 0 (r\<lparr>rc_outstanding_non_ack_eliciting := n\<rparr>)" for n by (rule rc_inv_cong [OF inv]) simp_all
  then have inv1: "rc_inv 0 r1" by (auto simp: r1_def Let_def intro!: rc_inv_upd_same)
  have "cg_ok (rc_congestion r1)" using inv1 by (simp add: rc_inv_def)
  from packet_sent_ok [OF this, of F "rc_bytes_in_flight r1" "st_size pkt" now pkt "rc_rtt_stats r1" "rc_bytes_lost r1" "st_in_flight pkt"]
  obtain c pkt' where c: "cg_on_packet_sent F ops (rc_bytes_in_flight r1) (st_size pkt) now pkt (rc_rtt_stats r1) (rc_bytes_lost r1)
      (st_in_flight pkt) (rc_congestion r1) = Some (c, pkt')" "cg_ok c"
      "rt_delivered (cg_delivery_rate c) = rt_delivered (cg_delivery_rate (rc_congestion r1))"
      "rt_rate_sample (cg_delivery_rate c) = rt_rate_sample (cg_delivery_rate (rc_congestion r1))"
      "sent_same pkt pkt'" "st_delivered pkt' = rt_delivered (cg_delivery_rate (rc_congestion r1))"
    by (elim exE conjE) (rule that)
  have inv2: "rc_inv 0 (r1\<lparr>rc_congestion := c\<rparr>)"
    using c inv1 by (intro rc_inv_congestion) (auto simp: rc_inv_def rate_ok_def)
  define r3 where "r3 = (if st_in_flight pkt
    then (rc_upd_epoch e (\<lambda>e. e\<lparr>re_in_flight_count := re_in_flight_count e + 1\<rparr>) (r1\<lparr>rc_congestion := c\<rparr>))
       \<lparr>rc_bytes_in_flight := rc_bytes_in_flight r1 + st_size pkt\<rparr> else r1\<lparr>rc_congestion := c\<rparr>)"
  obtain t where t: "(if st_in_flight pkt then set_loss_detection_timer hs now r3 else Some r3) = Some (r3\<lparr>rc_loss_timer := t\<rparr>)"
  proof (cases "st_in_flight pkt")
    case True
    then show ?thesis using set_timer_Some [of r3 hs now] al same(1) that by (auto simp: r3_def)
  next
    case False
    then show ?thesis using that [of "rc_loss_timer r3"] by simp
  qed
  let ?r4 = "rc_upd_epoch e (\<lambda>e. e\<lparr>re_sent_packets := re_sent_packets e @ [pkt']\<rparr>)
      (r3\<lparr>rc_loss_timer := t, rc_bytes_sent := rc_bytes_sent r3 + st_size pkt\<rparr>)"
  have "outstanding pkt' = st_in_flight pkt" "st_size pkt' = st_size pkt" "st_pkt_num pkt' = st_pkt_num pkt"
    "st_pmtud pkt' \<longrightarrow> st_in_flight pkt'"
    using al c(5) by (auto simp: sent_same_def outstanding_def pending_def)
  note p = this
  have ep: "epoch_ok (rc_epoch r1 x)" "delivered_le (rt_delivered (cg_delivery_rate c)) (rc_epoch r1 x)" for x
    using inv1 c(3) by (simp_all add: rc_inv_def)
  have ep4: "epoch_ok (rc_epoch ?r4 e)" "delivered_le (rt_delivered (cg_delivery_rate c)) (rc_epoch ?r4 e)"
    using ep [of e] p al same(4) c(3,6) by (auto simp: r3_def epoch_ok_def delivered_le_def pkt_sorted_append)
  have "rc_outstanding ?r4 = rc_outstanding r1 + (if st_in_flight pkt then st_size pkt else 0)"
    using p by (cases e) (simp_all add: rc_outstanding_def r3_def)
  then have "rc_inv 0 ?r4" using inv2 ep ep4 same
    by (simp add: rc_inv_def r3_def rc_outstanding_def split: if_splits)
  moreover have "rc_on_packet_sent F ops pkt e hs now r = Some ?r4"
    using c(1) t unfolding rc_on_packet_sent_def Let_def r1_def [unfolded Let_def, symmetric]
    by (simp add: r3_def split: if_splits)
  ultimately show ?thesis by blast
qed

lemma timeout_inv:
  assumes inv: "rc_inv 0 r" and al: "rc_allowed room (LossDetectionTimeout hs now) r"
  shows "\<exists>r' x. on_loss_detection_timeout F ops hs now r = Some (r', x) \<and> rc_inv 0 r'"
proof (cases "loss_time_and_space r")
  case (Pair lt e)
  show ?thesis
  proof (cases lt)
    case (Some t)
    obtain r1 a b where r1: "rc_detect_lost_packets F ops e now r = Some (r1, a, b)" "rc_inv 0 r1" "rc_pto_count r1 = rc_pto_count r"
      using detect_lost_inv [OF inv, of 0 F e now] al by auto
    then show ?thesis using set_timer_inv [OF r1(2), of hs now] al Pair Some by (auto simp: on_loss_detection_timeout_def)
  next
    case None
    obtain e' where e': "(if rc_bytes_in_flight r > 0 then map_option snd (pto_time_and_space hs now r)
        else Some (if hk_has_handshake_keys hs then Epoch_Handshake else Epoch_Initial)) = Some e'"
      using pto_time_Some [of r hs now] al by fastforce
    let ?r1 = "rc_upd_epoch e' (\<lambda>e. e\<lparr>re_loss_probes := min (rc_pto_count r + 1) MAX_PTO_PROBES_COUNT\<rparr>) (r\<lparr>rc_pto_count := rc_pto_count r + 1\<rparr>)"
    let ?r2 = "rc_upd_epoch e' (\<lambda>e. e\<lparr>re_lost_frames := re_lost_frames e @ pto_probe_frames (re_loss_probes e) (re_sent_packets e)\<rparr>) ?r1"
    have "rc_inv 0 (r\<lparr>rc_pto_count := rc_pto_count r + 1\<rparr>)" by (rule rc_inv_cong [OF inv]) simp_all
    then have "rc_inv 0 ?r2" by (intro rc_inv_upd_same) simp_all
    from set_timer_inv [OF this, of hs now] al obtain r3 where "set_loss_detection_timer hs now ?r2 = Some r3" "rc_inv 0 r3" by auto
    then show ?thesis using Pair None e' by (simp add: on_loss_detection_timeout_def Let_def)
  qed
qed

lemma step_inv:
  assumes "rc_inv 0 r" "rc_allowed room ev r"
  shows "\<exists>r'. rc_step F div_f32 to_u64 ops ev r = Some r' \<and> rc_inv 0 r'"
proof (cases ev)
  case (PacketSent pkt e hs now)
  then show ?thesis using packet_sent_inv assms by simp
next
  case (AckReceived ranges delay e hs now)
  then show ?thesis using ack_received_inv [OF assms(1), of ranges e F div_f32 delay hs now] assms(2) by auto
next
  case (SourceSymbolAckReceived ranges e)
  then show ?thesis using source_symbol_ack_inv assms by simp
next
  case (LossDetectionTimeout hs now)
  then show ?thesis using timeout_inv [OF assms(1), of hs now F] assms(2) by auto
next
  case (PktNumSpaceDiscarded e hs now)
  then show ?thesis using discarded_inv assms by simp
next
  case (PathChange e now)
  then show ?thesis using detect_lost_inv [OF assms(1), of 0 F e now] assms(2) by (auto simp: on_path_change_def)
next
  case (PmtudUpdateMaxDatagramSize now n)
  then show ?thesis using datagram_size_inv assms by simp
next
  case (UpdateMaxDatagramSize now n)
  moreover have "0 < rc_max_datagram_size r" using assms(1) by (simp add: rc_inv_def)
  ultimately show ?thesis using datagram_size_inv [OF assms(1)] assms(2) by (simp add: update_max_datagram_size_def)
qed (use assms(1) in \<open>auto simp: get_acked_frames_def get_lost_frames_def ping_sent_def rc_update_app_limited_def
    delivery_rate_update_app_limited_def update_max_ack_delay_def rc_set_send_quantum_def intro!: rc_inv_upd_same,
    auto simp: rc_inv_def rc_outstanding_def cg_ok_def rate_ok_def\<close>)

lemma new_inv:
  assumes "rc_new_with_config F ops bbr now cf = Some r" "0 < rf_max_send_udp_payload_size cf"
    "0 < rf_initial_congestion_window_packets cf"
  shows "rc_inv 0 r"
  using from_config_ok [OF assms(2,3), of F bbr now] assms
  by (auto simp: rc_new_with_config_def rc_inv_def repoch_default_def epoch_ok_def delivered_le_def rc_outstanding_def)

lemma reachable_inv: "rc_reachable F div_f32 to_u64 ops room r \<Longrightarrow> rc_inv 0 r"
proof (induction rule: rc_reachable.induct)
  case (reach_new bbr now cf r)
  then show ?case by (rule new_inv)
next
  case (reach_step r ev r')
  from step_inv [OF reach_step.IH reach_step.hyps(2), of F div_f32 to_u64] reach_step.hyps(3) show ?case by simp
qed

end

interpretation rec_reno: recovery_controller "RENO F :: (('rep, 'src, 'meta) frame, 'bbr) cc_ops" "\<lambda>_ _. True"
  by (rule recovery_controller.intro) (rule reno.controller_axioms)

interpretation rec_disabled: recovery_controller "DISABLED_CC :: (('rep, 'src, 'meta) frame, 'bbr) cc_ops" "\<lambda>_ _. True"
  by (rule recovery_controller.intro) (rule disabled.controller_axioms)

subsection \<open>Properties\<close>

definition cc_room :: "cc_algorithm \<Rightarrow> nat \<Rightarrow> 'bbr congestion \<Rightarrow> bool" where
  "cc_room algo = (case algo of CC_CUBIC \<Rightarrow> cubic_room | _ \<Rightarrow> (\<lambda>_ _. True))"

lemma recovery_controller_table:
  assumes "f64_ok F" "algo \<notin> {CC_BBR, CC_BBR2}"
  shows "recovery_controller (cc_table F BBR BBR2 algo :: (('rep, 'src, 'meta) frame, 'bbr) cc_ops) (cc_room algo)"
  using assms recovery_controller.intro [OF cubic_controller [OF assms(1)]] rec_reno.recovery_controller_axioms
    rec_disabled.recovery_controller_axioms
  by (cases algo) (simp_all add: cc_table_def cc_room_def)

text \<open>
  C122: In every state a connection can reach with Reno, CUBIC or no congestion control, the bytes in
  flight are exactly the sizes of the packets in flight that are neither acknowledged nor lost, the
  counter of each packet number space is the number of them, packets stay in the order of their
  numbers, and the next allowed call returns: no subtraction of the accounting underflows.
\<close>
theorem bytes_in_flight_exact:
  assumes "f64_ok F" "algo \<notin> {CC_BBR, CC_BBR2}"
    "rc_reachable F div_f32 to_u64 (cc_table F BBR BBR2 algo) (cc_room algo) r"
  shows "rc_bytes_in_flight r = out_bytes (re_sent_packets (rc_epoch r Epoch_Initial))
      + out_bytes (re_sent_packets (rc_epoch r Epoch_Handshake)) + out_bytes (re_sent_packets (rc_epoch r Epoch_Application))
    \<and> (\<forall>e. re_in_flight_count (rc_epoch r e) = out_count (re_sent_packets (rc_epoch r e)) \<and> pkt_sorted (re_sent_packets (rc_epoch r e)))
    \<and> (\<forall>ev. rc_allowed (cc_room algo) ev r \<longrightarrow> rc_step F div_f32 to_u64 (cc_table F BBR BBR2 algo) ev r \<noteq> None)"
proof -
  note rcc = recovery_controller_table [OF assms(1,2), of BBR BBR2]
  have inv: "rc_inv 0 r" by (rule recovery_controller.reachable_inv [OF rcc assms(3)])
  then show ?thesis using recovery_controller.step_inv [OF rcc inv, of _ F div_f32 to_u64]
    by (fastforce simp: rc_inv_def rc_outstanding_def epoch_ok_def)
qed

text \<open>Loss detection on a list sorted by time as well.\<close>

definition time_sorted :: "'f sent list \<Rightarrow> bool" where
  "time_sorted ps \<longleftrightarrow> sorted_wrt (\<lambda>p q. st_time_sent p \<le> st_time_sent q) ps"

lemma declared_lost_antimono:
  "declared_lost delay thresh largest now p' \<Longrightarrow> st_pkt_num p < st_pkt_num p' \<Longrightarrow> st_time_sent p \<le> st_time_sent p' \<Longrightarrow>
     declared_lost delay thresh largest now p"
  by (auto simp: declared_lost_def)

lemma scan_complete:
  assumes "pkt_sorted ps" "time_sorted ps" "p \<in> set (dropWhile (scanned delay thresh largest now) ps)"
  shows "\<not> (pending p \<and> st_pkt_num p \<le> largest \<and> declared_lost delay thresh largest now p)"
  using assms
proof (induction ps)
  case (Cons p' ps)
  show ?case
  proof (cases "scanned delay thresh largest now p'")
    case True
    then show ?thesis using Cons by (simp add: time_sorted_def)
  next
    case False
    then have "p = p' \<or> st_pkt_num p' < st_pkt_num p \<and> st_time_sent p' \<le> st_time_sent p"
      using Cons.prems by (auto simp: time_sorted_def)
    then show ?thesis using False declared_lost_antimono [of delay thresh largest now p p'] by (auto simp: scanned_def)
  qed
qed simp

lemma scan_next:
  assumes "pkt_sorted ps"
  shows "next_loss_time delay largest (dropWhile (scanned delay thresh largest now) ps) =
    map_option (\<lambda>p. st_time_sent p + int delay)
      (List.find (\<lambda>p. pending p \<and> st_pkt_num p \<le> largest \<and> \<not> declared_lost delay thresh largest now p) ps)"
  using assms
proof (induction ps)
  case (Cons p ps)
  have "List.find (\<lambda>p. pending p \<and> st_pkt_num p \<le> largest \<and> \<not> declared_lost delay thresh largest now p) ps = None"
    if "\<not> st_pkt_num p \<le> largest" using that Cons.prems by (auto simp: find_None_iff)
  then show ?case using Cons by (auto simp: scanned_def next_loss_time_def)
qed (simp add: next_loss_time_def)

text \<open>
  C123: Loss detection declares lost exactly the packets the loss recovery RFC asks for: those not
  yet acknowledged or lost, not above the largest acknowledged packet, and sent before the time
  threshold or the packet threshold behind the largest acknowledged one.  Every other packet is left
  as it is, the lost frames are queued in order, and the loss time is that of the first packet still
  to be decided.
\<close>
theorem loss_detection_exact:
  fixes e :: "('rep, 'src, 'meta) fepoch"
  assumes "epoch_ok e" "time_sorted (re_sent_packets e)" "re_largest_acked_packet e = Some largest"
  shows "\<exists>e' l. epoch_detect_lost_packets delay thresh now e = Some (e', l) \<and> epoch_ok e'
    \<and> re_sent_packets e' = map (\<lambda>p. if pending p \<and> st_pkt_num p \<le> largest
          \<and> declared_lost (max delay GRANULARITY) thresh largest now p then lose_mark now p else p) (re_sent_packets e)
    \<and> re_lost_frames e' = re_lost_frames e @ concat (map (\<lambda>p. lost_frames_of False (st_frames p))
        (filter (\<lambda>p. pending p \<and> st_pkt_num p \<le> largest
          \<and> declared_lost (max delay GRANULARITY) thresh largest now p) (re_sent_packets e)))
    \<and> re_loss_time e' = map_option (\<lambda>p. st_time_sent p + int (max delay GRANULARITY))
        (List.find (\<lambda>p. pending p \<and> st_pkt_num p \<le> largest
          \<and> \<not> declared_lost (max delay GRANULARITY) thresh largest now p) (re_sent_packets e))"
proof -
  let ?ps = "re_sent_packets e" and ?d = "max delay GRANULARITY"
  let ?P = "scanned ?d thresh largest now" and ?lost = "\<lambda>p. pending p \<and> st_pkt_num p \<le> largest \<and> declared_lost ?d thresh largest now p"
  define xs where "xs = takeWhile ?P ?ps"
  define ys where "ys = dropWhile ?P ?ps"
  have ps: "?ps = xs @ ys" by (simp add: xs_def ys_def)
  have so: "pkt_sorted ?ps" using assms(1) by (simp add: epoch_ok_def)
  have x: "?lost p = pending p" if "p \<in> set xs" for p using that set_takeWhileD [of p ?P ?ps] by (auto simp: xs_def scanned_def)
  have y: "\<not> ?lost p" if "p \<in> set ys" for p using scan_complete [OF so assms(2)] that by (simp add: ys_def)
  have settled: "lose_mark now p = p" if "\<not> pending p" for p :: "('rep, 'src, 'meta) fsent" using that by (simp add: lose_mark_def)
  have m: "map (\<lambda>p. if ?lost p then lose_mark now p else p) ?ps = map (lose_mark now) xs @ ys"
    unfolding ps map_append using x y settled by (intro arg_cong2 [of _ _ _ _ "(@)"] map_cong map_idI refl) auto
  have f: "filter ?lost ?ps = filter pending xs"
    unfolding ps filter_append using y x by (simp add: filter_empty_conv cong: filter_cong)
  from detect_lost_eq [OF assms(1), of delay thresh now, unfolded assms(3) option.case, folded xs_def ys_def]
  show ?thesis unfolding m f scan_next [OF so, of ?d largest thresh now, folded ys_def, symmetric] by blast
qed

definition example_recovery :: "(unit, unit, unit, unit) recovery" where
  "example_recovery =
     the (rc_new_with_config truncated_f64 (cc_table truncated_f64 DISABLED_CC DISABLED_CC CC_CUBIC) () 0 example_config)"

definition example_status :: handshake_status where
  "example_status = \<lparr>hk_has_handshake_keys = True, hk_peer_verified_address = True, hk_completed = True\<rparr>"

lemma example_recovery_new:
  "rc_new_with_config truncated_f64 (cc_table truncated_f64 DISABLED_CC DISABLED_CC CC_CUBIC) () 0 example_config
     = Some example_recovery"
  by (simp add: example_recovery_def rc_new_with_config_def cg_from_config_def pc_new_def example_config_def Let_def)

lemma example_recovery_epochs: "rc_epochs example_recovery = (\<lambda>_. repoch_default)" "rc_pto_count example_recovery = 0"
  by (simp_all add: example_recovery_def rc_new_with_config_def cg_from_config_def pc_new_def example_config_def Let_def)

theorem bytes_in_flight_exact_witness:
  "rc_bytes_in_flight example_recovery = 0
   \<and> rc_step truncated_f64 (\<lambda>d n. d div n) (\<lambda>_. 0) (cc_table truncated_f64 DISABLED_CC DISABLED_CC CC_CUBIC)
       (PacketSent (example_sent 1) Epoch_Application example_status 5) example_recovery \<noteq> None"
proof -
  have r: "rc_reachable truncated_f64 (\<lambda>d n. d div n) (\<lambda>_. 0) (cc_table truncated_f64 DISABLED_CC DISABLED_CC CC_CUBIC)
      (cc_room CC_CUBIC) example_recovery"
    by (rule reach_new [OF example_recovery_new]) (simp_all add: example_config_def)
  have a: "rc_allowed (cc_room CC_CUBIC) (PacketSent (example_sent 1) Epoch_Application example_status 5) example_recovery"
    by (simp add: example_recovery_epochs repoch_default_def example_sent_def pending_def)
  have n: "CC_CUBIC \<notin> {CC_BBR, CC_BBR2}" by simp
  note b = bytes_in_flight_exact [OF truncated_f64_ok n r]
  show ?thesis
  proof
    show "rc_bytes_in_flight example_recovery = 0" using b by (simp add: example_recovery_epochs repoch_default_def)
  qed (use b a in blast)
qed

definition example_epoch :: "(unit, unit, unit) fepoch" where
  "example_epoch = repoch_default\<lparr>re_largest_acked_packet := Some 7, re_in_flight_count := 3,
     re_sent_packets := [(example_sent 1)\<lparr>st_frames := [MaxData 5]\<rparr>, example_sent 6,
       (example_sent 7)\<lparr>st_time_acked := Some 8\<rparr>, example_sent 8]\<rparr>"

theorem loss_detection_exact_witness:
  "\<exists>e' l. epoch_detect_lost_packets 10 3 9 example_epoch = Some (e', l)
     \<and> map st_time_lost (re_sent_packets e') = [Some 9, None, None, None]
     \<and> re_lost_frames e' = [Lost (MaxData 5)] \<and> re_loss_time e' = Some 1000006"
proof -
  have "epoch_ok example_epoch" "time_sorted (re_sent_packets example_epoch)" "re_largest_acked_packet example_epoch = Some 7"
    by (simp_all add: example_epoch_def epoch_ok_def example_sent_def time_sorted_def outstanding_def pending_def)
  note ex = loss_detection_exact [OF this, of 10 3 9]
  show ?thesis
    by (rule exE [OF ex], erule exE, elim conjE, intro exI conjI, assumption)
      (simp_all add: example_epoch_def example_sent_def pending_def declared_lost_def lose_mark_def GRANULARITY_def repoch_default_def)
qed

subsection \<open>The timer\<close>

definition pto_deadline :: "('rep, 'src, 'meta, 'bbr) recovery \<Rightarrow> epoch \<Rightarrow> time \<Rightarrow> time" where
  "pto_deadline r e t = t + int (rc_pto r * 2 ^ rc_pto_count r
     + (if e = Epoch_Application then rs_max_ack_delay (rc_rtt_stats r) * 2 ^ rc_pto_count r else 0))"

lemma out_bytes_count: "0 < out_bytes ps \<Longrightarrow> 0 < out_count ps"
  by (auto simp: out_bytes_def out_count_def)

definition pto_candidate :: "('rep, 'src, 'meta, 'bbr) recovery \<Rightarrow> epoch \<Rightarrow> time \<Rightarrow> bool" where
  "pto_candidate r e t \<longleftrightarrow> 0 < re_in_flight_count (rc_epoch r e)
     \<and> (\<exists>s. re_time_of_last_ack_eliciting_packet (rc_epoch r e) = Some s \<and> t = pto_deadline r e s)"

lemma pto_loop_step:
  assumes "rc_pto_count r < 32" "hk_completed hs" "0 < re_in_flight_count (rc_epoch r e)"
    "re_time_of_last_ack_eliciting_packet (rc_epoch r e) = Some s"
  shows "\<exists>d sp'. pto_loop hs r (e # es) (rc_pto r * 2 ^ rc_pto_count r) t sp
      = pto_loop hs r es d (Some (case t of None \<Rightarrow> pto_deadline r e s | Some z \<Rightarrow> min z (pto_deadline r e s))) sp'
    \<and> (e \<noteq> Epoch_Application \<longrightarrow> d = rc_pto r * 2 ^ rc_pto_count r)"
proof -
  define d where "d = rc_pto r * 2 ^ rc_pto_count r + (if e = Epoch_Application then rs_max_ack_delay (rc_rtt_stats r) * 2 ^ rc_pto_count r else 0)"
  have eq: "pto_loop hs r (e # es) (rc_pto r * 2 ^ rc_pto_count r) t sp =
      (if t = None \<or> option_less (Some (pto_deadline r e s)) t then pto_loop hs r es d (Some (pto_deadline r e s)) e
       else pto_loop hs r es d t sp)"
    using assms by (simp add: u32_pow2_def pto_deadline_def d_def)
  have "pto_loop hs r (e # es) (rc_pto r * 2 ^ rc_pto_count r) t sp
      = pto_loop hs r es d (Some (case t of None \<Rightarrow> pto_deadline r e s | Some z \<Rightarrow> min z (pto_deadline r e s)))
          (if t = None \<or> option_less (Some (pto_deadline r e s)) t then e else sp)"
    unfolding eq by (cases t) (simp_all add: option_less_def min_def del: pto_loop.simps)
  then show ?thesis using d_def by (auto simp del: pto_loop.simps)
qed

lemma pto_loop_min:
  assumes "rc_pto_count r < 32" "hk_completed hs" "Epoch_Application \<notin> set (butlast es)"
    and "\<And>e. 0 < re_in_flight_count (rc_epoch r e) \<Longrightarrow> re_time_of_last_ack_eliciting_packet (rc_epoch r e) \<noteq> None"
  shows "\<exists>x sp'. pto_loop hs r es (rc_pto r * 2 ^ rc_pto_count r) t sp = Some (x, sp')
    \<and> (x = None \<longleftrightarrow> t = None \<and> (\<forall>e \<in> set es. re_in_flight_count (rc_epoch r e) = 0))
    \<and> (\<forall>y. x = Some y \<longrightarrow> (t = Some y \<or> (\<exists>e \<in> set es. pto_candidate r e y))
         \<and> (\<forall>z. t = Some z \<longrightarrow> y \<le> z) \<and> (\<forall>e \<in> set es. \<forall>z. pto_candidate r e z \<longrightarrow> y \<le> z))"
  using assms(3)
proof (induction es arbitrary: t sp)
  case (Cons e es)
  show ?case
  proof (cases "re_in_flight_count (rc_epoch r e) = 0")
    case True
    then show ?thesis using Cons by (cases "es = []") (auto simp: pto_candidate_def)
  next
    case False
    then obtain s where s: "re_time_of_last_ack_eliciting_packet (rc_epoch r e) = Some s" using assms(4) [of e] by auto
    have cand: "pto_candidate r e z \<longleftrightarrow> z = pto_deadline r e s" for z using False s by (auto simp: pto_candidate_def)
    define t' where "t' = (case t of None \<Rightarrow> pto_deadline r e s | Some z \<Rightarrow> min z (pto_deadline r e s))"
    have t': "t' = pto_deadline r e s \<or> t = Some t'" "t' \<le> pto_deadline r e s" "\<And>z. t = Some z \<Longrightarrow> t' \<le> z"
      by (cases t; auto simp: t'_def min_def)+
    obtain d sp' where step: "pto_loop hs r (e # es) (rc_pto r * 2 ^ rc_pto_count r) t sp = pto_loop hs r es d (Some t') sp'"
        "e \<noteq> Epoch_Application \<longrightarrow> d = rc_pto r * 2 ^ rc_pto_count r"
      using pto_loop_step [OF assms(1,2) _ s, of es t sp] False unfolding t'_def by auto
    have "\<exists>x sp''. pto_loop hs r es d (Some t') sp' = Some (Some x, sp'') \<and> (t' = x \<or> (\<exists>e \<in> set es. pto_candidate r e x))
        \<and> x \<le> t' \<and> (\<forall>e \<in> set es. \<forall>z. pto_candidate r e z \<longrightarrow> x \<le> z)"
    proof (cases "es = []")
      case False
      then have "e \<noteq> Epoch_Application" "Epoch_Application \<notin> set (butlast es)" using Cons.prems by (auto split: if_splits)
      then have d: "d = rc_pto r * 2 ^ rc_pto_count r" and nb: "Epoch_Application \<notin> set (butlast es)" using step(2) by auto
      obtain y sp'' where y: "pto_loop hs r es (rc_pto r * 2 ^ rc_pto_count r) (Some t') sp' = Some (y, sp'')" "y \<noteq> None"
          "\<forall>x. y = Some x \<longrightarrow> (Some t' = Some x \<or> (\<exists>e \<in> set es. pto_candidate r e x))
             \<and> (\<forall>z. Some t' = Some z \<longrightarrow> x \<le> z) \<and> (\<forall>e \<in> set es. \<forall>z. pto_candidate r e z \<longrightarrow> x \<le> z)"
        using Cons.IH [OF nb, of "Some t'" sp'] by (elim exE conjE) (rule that, assumption, simp)
      then obtain x where "y = Some x" by blast
      with y d show ?thesis by simp
    qed simp
    then obtain x sp'' where "pto_loop hs r es d (Some t') sp' = Some (Some x, sp'')" "t' = x \<or> (\<exists>e \<in> set es. pto_candidate r e x)"
        "x \<le> t'" "\<forall>e \<in> set es. \<forall>z. pto_candidate r e z \<longrightarrow> x \<le> z" by blast
    moreover from this cand t' have "(t = Some x \<or> (\<exists>e \<in> set (e # es). pto_candidate r e x)) \<and> (\<forall>z. t = Some z \<longrightarrow> x \<le> z)
        \<and> (\<forall>e \<in> set (e # es). \<forall>z. pto_candidate r e z \<longrightarrow> x \<le> z)" by fastforce
    ultimately show ?thesis using step(1) False by (simp del: pto_loop.simps)
  qed
qed simp

text \<open>
  C124: While bytes are in flight after the handshake, and each packet number space with packets in
  flight has sent an ack-eliciting one, the timer is always armed: at the loss time
  \<^verbatim>\<open>loss_time_and_space\<close> selects, otherwise at the earliest probe timeout of the spaces with packets in
  flight.  No packet is waited for without a timer.
\<close>
theorem timer_armed:
  assumes "rc_inv 0 r" "0 < rc_bytes_in_flight r" "rc_pto_count r < 32" "hk_completed hs"
    and "\<And>e. 0 < re_in_flight_count (rc_epoch r e) \<Longrightarrow> re_time_of_last_ack_eliciting_packet (rc_epoch r e) \<noteq> None"
  shows "\<exists>r' t. set_loss_detection_timer hs now r = Some r' \<and> rc_loss_timer r' = Some t
    \<and> (fst (loss_time_and_space r) = Some t
       \<or> fst (loss_time_and_space r) = None \<and> (\<exists>e. pto_candidate r e t) \<and> (\<forall>e z. pto_candidate r e z \<longrightarrow> t \<le> z))"
proof (cases "fst (loss_time_and_space r)")
  case (Some t)
  then show ?thesis by (auto simp: set_loss_detection_timer_def)
next
  case None
  have cnt: "re_in_flight_count (rc_epoch r e) = out_count (re_sent_packets (rc_epoch r e))" for e
    using assms(1) by (simp add: rc_inv_def epoch_ok_def)
  let ?es = "[Epoch_Initial, Epoch_Handshake, Epoch_Application]"
  have "\<exists>e \<in> set ?es. 0 < out_bytes (re_sent_packets (rc_epoch r e))"
    using assms(1,2) by (auto simp: rc_inv_def rc_outstanding_def)
  then have some: "\<exists>e \<in> set ?es. re_in_flight_count (rc_epoch r e) \<noteq> 0"
    unfolding cnt using out_bytes_count not_gr0 by metis
  have es: "e \<in> set ?es" for e by (cases e) auto
  have "Epoch_Application \<notin> set (butlast ?es)" by simp
  from pto_loop_min [OF assms(3,4) this assms(5), of None Epoch_Initial] some
  obtain t sp where t: "pto_loop hs r ?es (rc_pto r * 2 ^ rc_pto_count r) None Epoch_Initial = Some (Some t, sp)"
      "\<exists>e \<in> set ?es. pto_candidate r e t" "\<forall>e \<in> set ?es. \<forall>z. pto_candidate r e z \<longrightarrow> t \<le> z"
    by (metis not_Some_eq)
  have "pto_time_and_space hs now r = Some (Some t, sp)"
    using t(1) assms(2,3) by (simp add: pto_time_and_space_def u32_pow2_def del: pto_loop.simps)
  then have "set_loss_detection_timer hs now r = Some (r\<lparr>rc_loss_timer := Some t\<rparr>)"
    using None assms(2) by (simp add: set_loss_detection_timer_def)
  moreover have "\<forall>e z. pto_candidate r e z \<longrightarrow> t \<le> z" using t(3) es by blast
  moreover have "\<exists>e. pto_candidate r e t" using t(2) by blast
  ultimately show ?thesis using None by simp
qed

end
