(* ===== verification/Spec2Isabelle.thy ===== *)
theory Spec2Isabelle
  imports Octets Codec Ranges FlowControl RecvBuf SendBuf StreamTransfer PacketNumber Crypto Packet Frame FrameWire Cid TransportParams Rtt Congestion Recovery
begin

text \<open>
  A verification library for quirl (a fork of quiche), an implementation of the QUIC
  transport protocol with forward error correction.

  \<^bold>\<open>The program.\<close>  A connection (\<^verbatim>\<open>quiche/src/lib.rs\<close>) takes application data into per-stream
  send buffers, cuts it into frames, packs frames into packets, protects the packets and
  hands out datagrams; on the way in it removes the protection, parses frames, reassembles
  the streams in receive buffers and lets the application read them.  Acknowledgements are
  sets of packet number ranges; flow control bounds what a peer may send.  The library
  follows that path from the bottom up.

  \<^bold>\<open>Theories and the code they model\<close> (paths under \<^verbatim>\<open>src/\<close>):
  \<^item> \<open>Quiche_Prelude\<close>: results with errors and panics, checked arithmetic, runs of bytes, and
    \<^verbatim>\<open>quiche::Error\<close>.  \<open>BTreeMap\<close>: the standard library's ordered map, as an interface (locale
    \<open>ordered_map\<close>) and an association list that satisfies it.
  \<^item> \<open>Octets\<close>: the byte cursor \<^verbatim>\<open>octets/src/lib.rs\<close>; the locales \<open>reader\<close>, \<open>writer\<close> and \<open>wire_format\<close>
    are what codecs rely on, interpreted for every integer width and for variable-length
    integers.  \<open>Codec\<close>: sequences of cursor operations, parsing as a walk over the buffer.
  \<^item> \<open>Ranges\<close>: \<^verbatim>\<open>quiche/src/ranges.rs\<close>, both representations of a set of ranges, each shown equal
    to one list-level specification (\<open>insert_spec\<close>, \<open>trim_spec\<close>).
  \<^item> \<open>FlowControl\<close>: \<^verbatim>\<open>quiche/src/flowcontrol.rs\<close>.
  \<^item> \<open>RangeBuf\<close>, \<open>RecvBuf\<close>, \<open>SendBuf\<close>: \<^verbatim>\<open>RangeBuf\<close> of \<^verbatim>\<open>quiche/src/stream/mod.rs\<close>, and
    \<^verbatim>\<open>stream/recv_buf.rs\<close>, \<^verbatim>\<open>stream/send_buf.rs\<close>.  Their records have the fields of the structs; the
    abstraction of a buffer is the partial map from stream offsets to bytes.
    \<open>StreamTransfer\<close>: the contracts of the two buffers as locales (\<open>stream_source\<close>,
    \<open>stream_sink\<close>), their composition over a network that loses, repeats and reorders
    (\<open>stream_link\<close>), interpreted on the models, and the step relation \<open>transfer\<close>.
  \<^item> \<open>PacketNumber\<close>, \<open>Packet\<close>: \<^verbatim>\<open>quiche/src/packet.rs\<close>.  \<open>Crypto\<close>: \<^verbatim>\<open>quiche/src/crypto/mod.rs\<close> and
    \<^verbatim>\<open>crypto/boringssl.rs\<close>.
  \<^item> \<open>Frame\<close>: \<^verbatim>\<open>quiche/src/frame.rs\<close>; \<open>FrameWire\<close>: its wire format.
  \<^item> \<open>Cid\<close>: \<^verbatim>\<open>quiche/src/cid.rs\<close>; the deques of identifiers against the interface \<open>bounded_table\<close>, the
    reachable states of \<^verbatim>\<open>ConnectionIdentifiers\<close> (\<open>cid_reach\<close>), and \<^verbatim>\<open>partition_point\<close> as an interface
    (\<open>partition_search\<close>).
  \<^item> \<open>TransportParams\<close>: \<^verbatim>\<open>TransportParams\<close> of \<^verbatim>\<open>quiche/src/lib.rs\<close>, decoding, encoding, wire format.

  \<^bold>\<open>What the lemmas show.\<close>  Stream buffers: writing adds exactly the new bytes, emitting takes
  them in order, acknowledgement and loss keep every unacknowledged byte available, and end
  to end the reader sees a prefix of what was written and eventually all of it.  Ranges:
  each operation changes the covered set as documented, in both representations.  Wire
  formats: every encoder is inverted by its parser with any bytes following, announced
  lengths are exact, and parsers of peer-controlled bytes do not panic.  Packets: protection
  is inverted with matching keys, keys match at both ends and stay matched through key
  updates, nonces do not repeat, and truncated packet numbers are recovered in the window.
  Properties that hold only with a restriction name it in their hypotheses; where the
  restriction is a defect of the code, the statement says where it fails.

  \<^bold>\<open>Conventions.\<close>  A panic (failed assertion, index out of range, overflow with checks on,
  \<^verbatim>\<open>unwrap\<close> of \<^verbatim>\<open>None\<close>) is the result \<open>Panic\<close>, or \<open>None\<close> for an operation that returns no error.
  Loops are recursive functions with termination proofs by a measure (the bytes left, the
  chunks left); no fuel is used.  Bytes, the first byte of a packet and the replay window
  are words of their width; \<^verbatim>\<open>u64\<close> and \<^verbatim>\<open>usize\<close> values are natural numbers with the bound
  written out where an operation can leave it.  Time is a number of nanoseconds.

  \<^bold>\<open>Parameters.\<close>  Code outside the repository is an argument: the primitives of ring and
  BoringSSL (record \<open>backend\<close>, hypothesis \<open>backend_ok\<close>), the tag function of the Retry integrity
  check, random bytes, and the \<^verbatim>\<open>networkcoding\<close> package (record \<open>networkcoding\<close>).

  \<^bold>\<open>Not modelled.\<close>  The connection state machine and packet scheduling of \<^verbatim>\<open>lib.rs\<close>, loss recovery and
  congestion control (\<^verbatim>\<open>recovery/\<close>), paths and path MTU discovery (\<^verbatim>\<open>path.rs\<close>, \<^verbatim>\<open>pmtud.rs\<close>),
  datagram queues (\<^verbatim>\<open>dgram.rs\<close>), the stream map of
  \<^verbatim>\<open>stream/mod.rs\<close>, HTTP/3 and QPACK (\<^verbatim>\<open>h3/\<close>), the forward error correction schedulers
  (\<^verbatim>\<open>fec/\<close>), TLS and the OpenSSL key functions (foreign code), the C interface, qlog, and the
  example applications.
\<close>

section \<open>A stream from end to end\<close>

text \<open>
  C1: over a network that loses, repeats and reorders frames, and with any interleaving of
  writing, sending, acknowledging, declaring lost, delivering and reading, the receiving
  application has at every moment read a prefix of what the sending application wrote; when
  a read reports the end of the stream, it has read all of it.
\<close>

theorem transfer_delivers_prefix:
  assumes "transfer_reachable t"
  shows "tr_read t = take (length (tr_read t)) (tr_written t)
     \<and> (\<forall>cap r' out. rv_emit cap (tr_recv t) = (r', Ok (out, True)) \<longrightarrow>
          tr_read t @ out = tr_written t)"
proof -
  have inv: "transfer_inv t" by (rule transfer_reachable_inv [OF assms])
  then have "tr_read t = take (rv_off (tr_recv t)) (tr_written t)"
    "rv_off (tr_recv t) \<le> length (tr_written t)"
    by (simp_all add: link.link_inv_def)
  then show ?thesis using link.link_fetch(2) [OF inv] by (auto simp: min_def)
qed

theorem transfer_delivers_prefix_witness:
  "\<exists>t r'. transfer_reachable t \<and> rv_emit 10 (tr_recv t) = (r', Ok ([1, 2, 3], True))
     \<and> tr_read t @ [1, 2, 3] = tr_written t"
proof -
  obtain t where t: "transfer_reachable t" "tr_recv t = sample_recv" using sample_reachable by blast
  obtain r' where "rv_emit 10 (tr_recv t) = (r', Ok ([1, 2, 3], True))"
    using sample_steps(5) t(2) by auto
  then show ?thesis using transfer_delivers_prefix [OF t(1)] t(1) by blast
qed

text \<open>
  C2: once every byte that was written and not yet read has reached the receive buffer, a
  single read with enough room returns exactly the missing rest of the stream.
\<close>

theorem transfer_completes:
  assumes "transfer_reachable t" and "rv_error (tr_recv t) = None"
    and "rv_off (tr_recv t) < length (tr_written t)" and "length (tr_written t) \<le> room"
    and "\<forall>i\<in>{rv_off (tr_recv t)..<length (tr_written t)}. rv_content (tr_recv t) i \<noteq> None"
  shows "\<exists>r' out fin. rv_emit room (tr_recv t) = (r', Ok (out, fin))
     \<and> tr_read t @ out = tr_written t"
proof -
  let ?r = "tr_recv t" and ?W = "tr_written t"
  have inv: "transfer_inv t" by (rule transfer_reachable_inv [OF assms(1)])
  then have ok: "rv_ok ?r" and beyond: "\<And>i v. rv_content ?r i = Some v \<Longrightarrow> i < length ?W"
    by (simp_all add: link.link_inv_def)
  have "rv_ready ?r" using rv_ready_if_stored [OF ok] assms(3,5) by auto
  from rv_emit_Ok [OF ok this assms(2), of room] obtain r' out where
    e: "rv_emit room ?r = (r', Ok (out, rv_is_fin r'))"
      "emit_post room (rv_off ?r) (rv_data ?r) out (rv_off r') (rv_data r')"
    by blast
  have inv': "link.link_inv ?W (tr_send t) (tr_net t) r' (tr_read t @ out)"
    by (rule link.link_fetch(1) [OF inv e(1)])
  then have le: "rv_off r' \<le> length ?W" and got: "tr_read t @ out = take (rv_off r') ?W"
    by (simp_all add: link.link_inv_def)
  have p: "rv_off r' = rv_off ?r + length out" "length out < room \<longrightarrow> rv_content ?r (rv_off r') = None"
    using e(2) unfolding emit_post_def by blast+
  have "\<not> rv_off r' < length ?W"
  proof
    assume "rv_off r' < length ?W"
    then have "rv_off r' \<in> {rv_off ?r..<length ?W}" "length out < room" using p(1) assms(4) by auto
    then show False using p(2) assms(5) by blast
  qed
  then have "tr_read t @ out = ?W" using le got by simp
  then show ?thesis using e(1) by blast
qed

theorem transfer_completes_witness:
  "\<exists>t r' out fin. transfer_reachable t \<and> rv_emit 5 (tr_recv t) = (r', Ok (out, fin))
     \<and> tr_read t @ out = [1, 2, 3]"
proof -
  obtain t where t: "transfer_reachable t" "tr_written t = [1, 2, 3]" "tr_recv t = sample_recv"
    using sample_reachable by blast
  have "rv_content sample_recv i \<noteq> None" if "i \<in> {0..<3}" for i
    using that by (simp add: sample_recv_def rb_map_def)
  then have "\<exists>r' out fin. rv_emit 5 (tr_recv t) = (r', Ok (out, fin)) \<and> tr_read t @ out = tr_written t"
    using t by (intro transfer_completes) (auto simp: sample_recv_def)
  then show ?thesis using t by auto
qed

end
